(* ===== verification/Zepto_Prelude.thy ===== *)
theory Zepto_Prelude
  imports Main "HOL-Library.Word" "HOL-Library.Multiset"
begin

text \<open>
  Shared vocabulary of the development: the machine integers of
  \<^verbatim>\<open>src/include/zeptodb/common/types.h\<close>, array reads that may leave their bounds, and
  the counting loop of C++ with its invariant rules.

  A signed 64-bit value is an \<^typ>\<open>int\<close>; every arithmetic operation whose result may leave
  the 64-bit range goes through \<open>wrap64\<close>, the two's complement reduction. An unsigned
  64-bit hash is a \<^typ>\<open>64 word\<close>; sizes and indices are \<^typ>\<open>nat\<close>. A read outside an
  array, a dereferenced null and a loop that does not end are the value \<^term>\<open>None\<close>.
\<close>

section \<open>Machine integers\<close>

type_synonym i64 = int
type_synonym u64 = "64 word"
type_synonym u32 = "32 word"
type_synonym u16 = "16 word"
type_synonym SymbolId = u32
type_synonym NodeId = u32

definition INT64_MAX :: i64 where
  "INT64_MAX = 9223372036854775807"

definition INT64_MIN :: i64 where
  "INT64_MIN = - 9223372036854775808"

definition in_i64 :: "int \<Rightarrow> bool" where
  "in_i64 x \<longleftrightarrow> INT64_MIN \<le> x \<and> x \<le> INT64_MAX"

definition wrap64 :: "int \<Rightarrow> i64" where
  "wrap64 x = (x + 9223372036854775808) mod 18446744073709551616 - 9223372036854775808"

text \<open>Signed division of C++, which truncates towards zero.\<close>

definition cdiv :: "i64 \<Rightarrow> i64 \<Rightarrow> i64" where
  "cdiv a b = sgn a * sgn b * (\<bar>a\<bar> div \<bar>b\<bar>)"

named_theorems wrap_simps

lemma in_i64_wrap64 [simp]: "in_i64 (wrap64 x)"
proof -
  have "0 \<le> (x + 9223372036854775808) mod 18446744073709551616"
    and "(x + 9223372036854775808) mod 18446744073709551616 < 18446744073709551616"
    by simp_all
  then show ?thesis
    unfolding in_i64_def wrap64_def INT64_MIN_def INT64_MAX_def by linarith
qed

lemma wrap64_id: "in_i64 x \<Longrightarrow> wrap64 x = x"
  unfolding in_i64_def wrap64_def INT64_MIN_def INT64_MAX_def
  by (subst mod_pos_pos_trivial) linarith+

lemma wrap64_eq_iff: "wrap64 a = wrap64 b \<longleftrightarrow> a mod 18446744073709551616 = b mod 18446744073709551616"
  unfolding wrap64_def by (simp add: mod_eq_dvd_iff)

lemma wrap64_mod: "wrap64 a mod 18446744073709551616 = a mod 18446744073709551616"
proof -
  have "wrap64 (wrap64 a) = wrap64 a" by (simp add: wrap64_id)
  then show ?thesis by (simp only: wrap64_eq_iff)
qed

lemma wrap64_add_left [simp, wrap_simps]: "wrap64 (wrap64 a + b) = wrap64 (a + b)"
  unfolding wrap64_eq_iff by (rule mod_add_cong) (simp_all only: wrap64_mod)

lemma wrap64_add_right [simp, wrap_simps]: "wrap64 (a + wrap64 b) = wrap64 (a + b)"
  unfolding wrap64_eq_iff by (rule mod_add_cong) (simp_all only: wrap64_mod)

lemma wrap64_diff_left [simp, wrap_simps]: "wrap64 (wrap64 a - b) = wrap64 (a - b)"
  unfolding wrap64_eq_iff by (rule mod_diff_cong) (simp_all only: wrap64_mod)

lemma wrap64_diff_right [simp, wrap_simps]: "wrap64 (a - wrap64 b) = wrap64 (a - b)"
  unfolding wrap64_eq_iff by (rule mod_diff_cong) (simp_all only: wrap64_mod)

lemma wrap64_wrap64 [simp]: "wrap64 (wrap64 a) = wrap64 a"
  by (simp add: wrap64_id)

lemma wrap64_0 [simp]: "wrap64 0 = 0"
  by (simp add: wrap64_def)

text \<open>
  The operations on \<^verbatim>\<open>double\<close> that integer columns go through, left abstract: what is proved about a
  computation that uses them holds for every rounding.
\<close>

record 'f fp_ops =
  fp_of_int :: "i64 \<Rightarrow> 'f"
  fp_to_int :: "'f \<Rightarrow> i64"
  fp_add :: "'f \<Rightarrow> 'f \<Rightarrow> 'f"
  fp_sub :: "'f \<Rightarrow> 'f \<Rightarrow> 'f"
  fp_mul :: "'f \<Rightarrow> 'f \<Rightarrow> 'f"
  fp_div :: "'f \<Rightarrow> 'f \<Rightarrow> 'f"

definition int_fp :: "int fp_ops" where
  "int_fp = \<lparr>fp_of_int = id, fp_to_int = id, fp_add = (+), fp_sub = (-), fp_mul = (*), fp_div = (div)\<rparr>"

section \<open>Array access\<close>

text \<open>
  \<open>vec_get xs i\<close> is \<^verbatim>\<open>xs[i]\<close> for a signed index and \<open>vec_set\<close> the store; both are
  \<^term>\<open>None\<close> outside the array, where the C++ program has no defined behaviour.
\<close>

definition vec_get :: "'a list \<Rightarrow> int \<Rightarrow> 'a option" where
  "vec_get xs i = (if 0 \<le> i \<and> i < int (length xs) then Some (xs ! nat i) else None)"

definition vec_set :: "'a list \<Rightarrow> int \<Rightarrow> 'a \<Rightarrow> 'a list option" where
  "vec_set xs i v = (if 0 \<le> i \<and> i < int (length xs) then Some (xs[nat i := v]) else None)"

lemma vec_get_nat [simp]: "i < length xs \<Longrightarrow> vec_get xs (int i) = Some (xs ! i)"
  by (simp add: vec_get_def)

lemma vec_set_nat [simp]: "i < length xs \<Longrightarrow> vec_set xs (int i) v = Some (xs[i := v])"
  by (simp add: vec_set_def)

lemma vec_get_Some: "vec_get xs i = Some v \<longleftrightarrow> 0 \<le> i \<and> i < int (length xs) \<and> v = xs ! nat i"
  by (auto simp: vec_get_def)

lemma vec_set_Some: "vec_set xs i v = Some ys \<longleftrightarrow> 0 \<le> i \<and> i < int (length xs) \<and> ys = xs[nat i := v]"
  by (auto simp: vec_set_def)

section \<open>Counting loops\<close>

text \<open>
  \<open>for_range lo hi body s\<close> is \<^verbatim>\<open>for (size_t i = lo; i < hi; ++i) body\<close> over the state \<open>s\<close>.
  A body that fails ends the loop with \<^term>\<open>None\<close>.
\<close>

function for_range :: "nat \<Rightarrow> nat \<Rightarrow> (nat \<Rightarrow> 's \<Rightarrow> 's option) \<Rightarrow> 's \<Rightarrow> 's option" where
  "for_range lo hi body s =
     (if lo < hi
      then (case body lo s of None \<Rightarrow> None | Some s' \<Rightarrow> for_range (Suc lo) hi body s')
      else Some s)"
  by pat_completeness auto
termination
  by (relation "measure (\<lambda>(lo, hi, _, _). hi - lo)") auto

declare for_range.simps [simp del]

lemma for_range_done [simp]: "hi \<le> lo \<Longrightarrow> for_range lo hi body s = Some s"
  by (simp add: for_range.simps)

lemma for_range_step:
  "lo < hi \<Longrightarrow> body lo s = Some s' \<Longrightarrow> for_range lo hi body s = for_range (Suc lo) hi body s'"
  by (simp add: for_range.simps)

text \<open>Total correctness of a loop: the invariant is kept and no iteration fails.\<close>

lemma for_range_inv:
  assumes "lo \<le> hi" and "I lo s"
    and "\<And>i t. lo \<le> i \<Longrightarrow> i < hi \<Longrightarrow> I i t \<Longrightarrow> \<exists>t'. body i t = Some t' \<and> I (Suc i) t'"
  shows "\<exists>s'. for_range lo hi body s = Some s' \<and> I hi s'"
  using assms
proof (induction lo hi body s rule: for_range.induct)
  case (1 lo hi body s)
  show ?case
  proof (cases "lo < hi")
    case True
    with 1(3,4) obtain t' where t': "body lo s = Some t'" "I (Suc lo) t'" by blast
    have "\<exists>s'. for_range (Suc lo) hi body t' = Some s' \<and> I hi s'"
      using 1(1)[OF True t'(1)] True t'(2) 1(4) by simp
    with True t'(1) show ?thesis by (simp add: for_range_step)
  next
    case False
    with 1(2,3) show ?thesis by simp
  qed
qed

text \<open>A loop that computes a value: the functional form of \<open>for_range_inv\<close>.\<close>

lemma for_range_eq:
  assumes "lo \<le> hi" and "s = f lo"
    and "\<And>i. lo \<le> i \<Longrightarrow> i < hi \<Longrightarrow> body i (f i) = Some (f (Suc i))"
  shows "for_range lo hi body s = Some (f hi)"
  using for_range_inv [of lo hi "\<lambda>i t. t = f i" s body] assms by simp

lemma for_range_cong:
  assumes "\<And>i s. lo \<le> i \<Longrightarrow> i < hi \<Longrightarrow> f i s = g i s"
  shows "for_range lo hi f s = for_range lo hi g s"
  using assms
proof (induction lo hi f s rule: for_range.induct)
  case (1 lo hi f s)
  then show ?case
    by (subst (1 2) for_range.simps) (auto split: option.splits)
qed

lemma for_range_append:
  "lo \<le> mid \<Longrightarrow> mid \<le> hi \<Longrightarrow>
    for_range lo hi body s = Option.bind (for_range lo mid body s) (for_range mid hi body)"
proof (induction lo mid body s rule: for_range.induct)
  case (1 lo mid body s)
  show ?case
  proof (cases "lo < mid")
    case True
    with 1 show ?thesis
      by (subst (1 2) for_range.simps) (auto split: option.splits)
  next
    case False
    with 1 show ?thesis by simp
  qed
qed

text \<open>A loop that stores \<open>f i\<close> at every index of its range and nothing else.\<close>

definition fill :: "(nat \<Rightarrow> 'a) \<Rightarrow> nat \<Rightarrow> nat \<Rightarrow> 'a list \<Rightarrow> 'a list" where
  "fill f lo hi out = map (\<lambda>i. if lo \<le> i \<and> i < hi then f i else out ! i) [0..<length out]"

lemma length_fill [simp]: "length (fill f lo hi out) = length out"
  by (simp add: fill_def)

lemma nth_fill [simp]:
  "i < length out \<Longrightarrow> fill f lo hi out ! i = (if lo \<le> i \<and> i < hi then f i else out ! i)"
  by (simp add: fill_def)

lemma fill_empty [simp]: "hi \<le> lo \<Longrightarrow> fill f lo hi out = out"
  by (rule nth_equalityI) auto

lemma fill_Suc: "lo \<le> hi \<Longrightarrow> hi < length out \<Longrightarrow> fill f lo (Suc hi) out = (fill f lo hi out)[hi := f hi]"
  by (rule nth_equalityI) (auto simp: nth_list_update less_Suc_eq)

lemma fill_cong: "(\<And>i. lo \<le> i \<Longrightarrow> i < hi \<Longrightarrow> f i = g i) \<Longrightarrow> fill f lo hi out = fill g lo hi out"
  by (rule nth_equalityI) auto

lemma fill_fill:
  "lo \<le> mid \<Longrightarrow> mid \<le> hi \<Longrightarrow> fill f mid hi (fill f lo mid out) = fill f lo hi out"
  by (rule nth_equalityI) auto

lemma fill_all: "length out = n \<Longrightarrow> fill f 0 n out = map f [0..<n]"
  by (rule nth_equalityI) auto

lemma for_range_fill:
  assumes "lo \<le> hi" and "hi \<le> length out"
    and "\<And>i t. lo \<le> i \<Longrightarrow> i < hi \<Longrightarrow> length t = length out \<Longrightarrow> body i t = Some (t[i := f i])"
  shows "for_range lo hi body out = Some (fill f lo hi out)"
  by (rule for_range_eq) (use assms in \<open>auto simp: fill_Suc\<close>)

text \<open>A loop over a list whose body may fail.\<close>

primrec run_list :: "('a \<Rightarrow> 's \<Rightarrow> 's option) \<Rightarrow> 'a list \<Rightarrow> 's \<Rightarrow> 's option" where
  "run_list body [] s = Some s"
| "run_list body (x # xs) s = (case body x s of None \<Rightarrow> None | Some s' \<Rightarrow> run_list body xs s')"

lemma run_list_append: "run_list body (xs @ ys) s = Option.bind (run_list body xs s) (run_list body ys)"
  by (induction xs arbitrary: s) (auto split: option.splits)

lemma run_list_map: "run_list body (map f xs) s = run_list (\<lambda>x. body (f x)) xs s"
  by (induction xs arbitrary: s) (auto split: option.splits)

lemma for_range_run_list: "for_range lo hi body s = run_list body [lo..<hi] s"
proof (induction lo hi body s rule: for_range.induct)
  case (1 lo hi body s)
  then show ?case
    by (subst for_range.simps) (auto simp: upt_conv_Cons split: option.splits)
qed

section \<open>Lists\<close>

lemma upt_split: "lo \<le> mid \<Longrightarrow> mid \<le> hi \<Longrightarrow> [lo..<hi] = [lo..<mid] @ [mid..<hi]"
  by (metis le_Suc_ex upt_add_eq_append)

lemma filter_upt_Suc: "filter P [0..<Suc n] = filter P [0..<n] @ (if P n then [n] else [])"
  by simp

lemma filter_upt_bound: "n \<le> m \<Longrightarrow> filter (\<lambda>k. k < n \<and> P k) [0..<m] = filter P [0..<n]"
proof -
  assume "n \<le> m"
  then have "[0..<m] = [0..<n] @ [n..<m]" by (intro upt_split) auto
  moreover have "filter (\<lambda>k. k < n \<and> P k) [0..<n] = filter P [0..<n]" by (rule filter_cong) auto
  moreover have "filter (\<lambda>k. k < n \<and> P k) [n..<m] = []" by (rule filter_False) auto
  ultimately show ?thesis by simp
qed

lemma map_filter_upt_shift: "map ((+) i) (filter (\<lambda>k. P (i + k)) [0..<n]) = filter P [i..<i + n]"
  by (induction n) auto

text \<open>An array filled from the left.\<close>

lemma prefix_update:
  "i < n \<Longrightarrow> (map f [0..<i] @ replicate (n - i) z)[i := f i] = map f [0..<Suc i] @ replicate (n - Suc i) z"
  by (rule nth_equalityI) (auto simp: nth_append nth_list_update less_Suc_eq)

lemma prefix_keep:
  "i < n \<Longrightarrow> f i = z \<Longrightarrow> map f [0..<i] @ replicate (n - i) z = map f [0..<Suc i] @ replicate (n - Suc i) z"
proof -
  assume i: "i < n" "f i = z"
  then have "(map f [0..<i] @ replicate (n - i) z) ! i = f i" by (simp add: nth_append)
  then show ?thesis using prefix_update [OF i(1), of f z] list_update_id by metis
qed

lemma dropWhile_eq_filter:
  "sorted_wrt (\<lambda>a b. P b \<longrightarrow> P a) xs \<Longrightarrow> dropWhile P xs = filter (\<lambda>x. \<not> P x) xs"
proof (induction xs)
  case (Cons x xs)
  then have "\<not> P x \<Longrightarrow> filter (\<lambda>x. \<not> P x) xs = xs" by (intro filter_True) auto
  with Cons show ?case by simp
qed simp

section \<open>Lowest set bit\<close>

unbundle bit_operations_syntax

text \<open>\<^verbatim>\<open>__builtin_ctzll\<close>, and what \<^verbatim>\<open>w & (w - 1)\<close> does to the bits.\<close>

definition ctz64 :: "u64 \<Rightarrow> nat" where
  "ctz64 w = length (takeWhile (\<lambda>k. \<not> bit w k) [0..<64])"

lemma first_upt:
  assumes "\<exists>k < n. P k"
  shows "P (length (takeWhile (\<lambda>k. \<not> P k) [0..<n]))"
    and "k < length (takeWhile (\<lambda>k. \<not> P k) [0..<n]) \<Longrightarrow> \<not> P k"
    and "length (takeWhile (\<lambda>k. \<not> P k) [0..<n]) < n"
proof -
  let ?t = "takeWhile (\<lambda>k. \<not> P k) [0..<n]"
  have le: "length ?t \<le> n" by (metis length_takeWhile_le length_upt diff_zero)
  have nth: "k < length ?t \<Longrightarrow> ?t ! k = k" for k
    using le by (simp add: takeWhile_nth)
  have low: "k < length ?t \<Longrightarrow> \<not> P k" for k
    using nth by (metis nth_mem set_takeWhileD)
  then show "k < length ?t \<Longrightarrow> \<not> P k" .
  from assms obtain k where "k < n" "P k" by blast
  with low have "length ?t \<le> k" by (metis not_less)
  with \<open>k < n\<close> show less: "length ?t < n" by simp
  have "\<not> \<not> P ([0..<n] ! length ?t)" by (rule nth_length_takeWhile) (use less in simp)
  with less show "P (length ?t)" by simp
qed

lemma filter_first:
  assumes "c < n" "P c" "\<And>k. k < c \<Longrightarrow> \<not> P k"
  shows "filter P [0..<n] = c # filter (\<lambda>k. P k \<and> k \<noteq> c) [0..<n]"
proof -
  have split: "[0..<n] = [0..<c] @ c # [Suc c..<n]"
    using assms(1) by (metis upt_conv_Cons upt_split less_imp_le le0)
  have "filter P [0..<c] = []" "filter (\<lambda>k. P k \<and> k \<noteq> c) [0..<c] = []"
    using assms(3) by (auto simp: filter_empty_conv)
  moreover have "filter (\<lambda>k. P k \<and> k \<noteq> c) [Suc c..<n] = filter P [Suc c..<n]"
    by (rule filter_cong) auto
  ultimately show ?thesis using assms(2) by (simp add: split)
qed

lemma ctz64_least:
  assumes "w \<noteq> 0"
  shows "bit w (ctz64 w)" "\<And>k. k < ctz64 w \<Longrightarrow> \<not> bit w k" "ctz64 w < 64"
proof -
  have "\<exists>k < 64. bit w k" using assms bit_imp_le_length [of w] by (fastforce simp: bit_eq_iff)
  note first = first_upt [OF this, folded ctz64_def]
  show "bit w (ctz64 w)" "\<And>k. k < ctz64 w \<Longrightarrow> \<not> bit w k" "ctz64 w < 64"
    by (rule first(1), rule first(2), assumption, rule first(3))
qed

lemma bit_clear_lowest:
  assumes "w \<noteq> 0"
  shows "bit (w AND (w - 1)) k \<longleftrightarrow> bit w k \<and> k \<noteq> ctz64 w"
proof -
  let ?c = "ctz64 w" and ?y = "unset_bit (ctz64 w) w"
  note c = ctz64_least [OF assms]
  have "?y AND 2 ^ ?c = 0" by (rule bit_word_eqI) (auto simp: bit_simps)
  then have "?y + 2 ^ ?c = ?y OR 2 ^ ?c" by (rule disjunctive_add_eq_or)
  also have "\<dots> = w" by (rule bit_word_eqI) (use c in \<open>auto simp: bit_simps\<close>)
  finally have "w - 1 = ?y + mask ?c" by (simp add: mask_eq_exp_minus_1 algebra_simps)
  also have "\<dots> = ?y OR mask ?c"
    by (rule disjunctive_add_eq_or, rule bit_word_eqI) (use c in \<open>auto simp: bit_simps\<close>)
  finally show ?thesis using c by (auto simp: bit_simps)
qed

text \<open>The check \<^verbatim>\<open>(c & (c - 1)) == 0\<close> of a non-zero \<open>c\<close> accepts the powers of two.\<close>

lemma power_of_two_check:
  fixes c :: u64
  assumes "c \<noteq> 0" "c AND (c - 1) = 0"
  shows "\<exists>k < 64. c = 2 ^ k"
proof (intro exI conjI)
  note least = ctz64_least [OF assms(1)]
  show "ctz64 c < 64" by (rule least)
  have "bit c k \<longleftrightarrow> k = ctz64 c" for k
    using bit_clear_lowest [OF assms(1), of k] least(1) unfolding assms(2) by auto
  then show "c = 2 ^ ctz64 c" by (intro bit_word_eqI) (auto simp: bit_simps)
qed

lemma power_of_two_check_iff: "k < 64 \<Longrightarrow> (2 ^ k :: u64) AND (2 ^ k - 1) = 0"
  by (rule bit_word_eqI) (auto simp: bit_simps simp flip: mask_eq_exp_minus_1)

end
