(* ===== verification/Flat_Hash_Map.thy ===== *)
theory Flat_Hash_Map
  imports Zepto_Prelude
begin

text \<open>
  The open-addressing hash map of \<^verbatim>\<open>src/include/zeptodb/execution/flat_hash_map.h\<close>: an entry
  array of power-of-two length, linear probing, no erase. The probing loops of
  \<open>operator[]\<close> and \<open>find\<close> end only at a free or matching slot, so they are partial
  functions. \<open>fhm_ok\<close> is the invariant that makes them end and agree with a finite map; the
  interpretation \<open>fhm\<close> of the locale \<open>group_map\<close> is the contract the join operators use.
\<close>

unbundle bit_operations_syntax

section \<open>The hash map\<close>

text \<open>
  \<open>hash_i64\<close> is the portable branch of the source (a splitmix64 finalizer). The branch for
  SSE4.2 calls a processor instruction; every operation below takes the hash function as an
  argument, so the lemmas hold for both branches.
\<close>

definition hash_i64 :: "i64 \<Rightarrow> u64" where
  "hash_i64 key =
     (let x = word_of_int key;
          x = x XOR drop_bit 30 x;
          x = x * 0xbf58476d1ce4e5b9;
          x = x XOR drop_bit 27 x;
          x = x * 0x94d049bb133111eb
      in x XOR drop_bit 31 x)"

record 'v entry =
  occupied :: bool
  ekey :: i64
  evalue :: 'v

record 'v flat_hash_map =
  entries :: "'v entry list"
  fmask :: nat
  fsize :: nat

text \<open>The constructor's loop \<^verbatim>\<open>while (cap < target) cap <<= 1;\<close> for a positive \<open>cap\<close>.\<close>

function grow_cap :: "nat \<Rightarrow> nat \<Rightarrow> nat" where
  "grow_cap cap target = (if 0 < cap \<and> cap < target then grow_cap (2 * cap) target else cap)"
  by pat_completeness auto
termination
  by (relation "measure (\<lambda>(cap, target). target - cap)") auto

declare grow_cap.simps [simp del]

definition fhm_new :: "'v \<Rightarrow> nat \<Rightarrow> 'v flat_hash_map" where
  "fhm_new v0 expected_entries =
     (let target = expected_entries * 4 div 3 + 1;
          cap = grow_cap 16 target
      in \<lparr>entries = replicate cap \<lparr>occupied = False, ekey = 0, evalue = v0\<rparr>,
          fmask = cap - 1, fsize = 0\<rparr>)"

definition fhm_home :: "(i64 \<Rightarrow> u64) \<Rightarrow> 'v flat_hash_map \<Rightarrow> i64 \<Rightarrow> nat" where
  "fhm_home hash m key = unat (hash key AND word_of_nat (fmask m))"

text \<open>
  \<open>operator[]\<close>: the map with the slot claimed, and the slot's index, which stands for the
  returned reference.
\<close>

partial_function (option) subscript_loop ::
  "'v flat_hash_map \<Rightarrow> i64 \<Rightarrow> nat \<Rightarrow> ('v flat_hash_map \<times> nat) option" where
  "subscript_loop m key idx =
     (let e = entries m ! idx
      in if \<not> occupied e
         then Some (m\<lparr>entries := (entries m)[idx := e\<lparr>occupied := True, ekey := key\<rparr>],
                      fsize := fsize m + 1\<rparr>, idx)
         else if ekey e = key then Some (m, idx)
         else subscript_loop m key ((idx + 1) AND fmask m))"

definition fhm_subscript ::
  "(i64 \<Rightarrow> u64) \<Rightarrow> 'v flat_hash_map \<Rightarrow> i64 \<Rightarrow> ('v flat_hash_map \<times> nat) option" where
  "fhm_subscript hash m key = subscript_loop m key (fhm_home hash m key)"

partial_function (option) find_loop :: "'v flat_hash_map \<Rightarrow> i64 \<Rightarrow> nat \<Rightarrow> 'v option option" where
  "find_loop m key idx =
     (let e = entries m ! idx
      in if \<not> occupied e then Some None
         else if ekey e = key then Some (Some (evalue e))
         else find_loop m key ((idx + 1) AND fmask m))"

definition fhm_find :: "(i64 \<Rightarrow> u64) \<Rightarrow> 'v flat_hash_map \<Rightarrow> i64 \<Rightarrow> 'v option option" where
  "fhm_find hash m key = find_loop m key (fhm_home hash m key)"

definition fhm_for_each :: "(i64 \<Rightarrow> 'v \<Rightarrow> 'v) \<Rightarrow> 'v flat_hash_map \<Rightarrow> 'v flat_hash_map" where
  "fhm_for_each fn m =
     m\<lparr>entries := map (\<lambda>e. if occupied e then e\<lparr>evalue := fn (ekey e) (evalue e)\<rparr> else e) (entries m)\<rparr>"

text \<open>\<^verbatim>\<open>map[key].push_back(x)\<close>, the one way the join operators write through the reference.\<close>

definition fhm_push ::
  "(i64 \<Rightarrow> u64) \<Rightarrow> 'a list flat_hash_map \<Rightarrow> i64 \<Rightarrow> 'a \<Rightarrow> 'a list flat_hash_map option" where
  "fhm_push hash m key x =
     (case fhm_subscript hash m key of
        None \<Rightarrow> None
      | Some (m', idx) \<Rightarrow>
          Some (m'\<lparr>entries := (entries m')[idx := (entries m' ! idx)\<lparr>evalue := evalue (entries m' ! idx) @ [x]\<rparr>]\<rparr>))"

section \<open>Invariant and abstraction\<close>

definition probe_pos :: "nat \<Rightarrow> nat \<Rightarrow> nat \<Rightarrow> nat" where
  "probe_pos n h d = (h + d) mod n"

definition chain_ok :: "(i64 \<Rightarrow> u64) \<Rightarrow> 'v flat_hash_map \<Rightarrow> nat \<Rightarrow> bool" where
  "chain_ok hash m i \<longleftrightarrow>
     (\<exists>d < length (entries m).
        i = probe_pos (length (entries m)) (fhm_home hash m (ekey (entries m ! i))) d \<and>
        (\<forall>j < d. let e = entries m ! probe_pos (length (entries m)) (fhm_home hash m (ekey (entries m ! i))) j
                 in occupied e \<and> ekey e \<noteq> ekey (entries m ! i)))"

definition fhm_ok :: "(i64 \<Rightarrow> u64) \<Rightarrow> 'v \<Rightarrow> 'v flat_hash_map \<Rightarrow> bool" where
  "fhm_ok hash v0 m \<longleftrightarrow>
     (\<exists>k. length (entries m) = 2 ^ k \<and> fmask m = 2 ^ k - 1) \<and>
     fsize m = length (filter occupied (entries m)) \<and>
     (\<forall>i < length (entries m).
        if occupied (entries m ! i) then chain_ok hash m i else evalue (entries m ! i) = v0)"

definition fhm_abs :: "'v flat_hash_map \<Rightarrow> i64 \<rightharpoonup> 'v" where
  "fhm_abs m = map_of (map (\<lambda>e. (ekey e, evalue e)) (filter occupied (entries m)))"

definition fhm_repr :: "(i64 \<Rightarrow> u64) \<Rightarrow> 'v \<Rightarrow> nat \<Rightarrow> 'v flat_hash_map \<Rightarrow> (i64 \<rightharpoonup> 'v) \<Rightarrow> bool" where
  "fhm_repr hash v0 n m M \<longleftrightarrow>
     fhm_ok hash v0 m \<and> fhm_abs m = M \<and> card (dom M) \<le> n \<and> n < length (entries m)"

section \<open>Capacity\<close>

lemma grow_cap_pow2: "\<exists>j. grow_cap (2 ^ k) target = 2 ^ j"
proof (induction "2 ^ k :: nat" target arbitrary: k rule: grow_cap.induct)
  case (1 target)
  show ?case
  proof (cases "(2::nat) ^ k < target")
    case True
    with 1[of "Suc k"] show ?thesis by (subst grow_cap.simps) auto
  next
    case False
    then show ?thesis by (subst grow_cap.simps) auto
  qed
qed

lemma grow_cap_ge: "0 < cap \<Longrightarrow> target \<le> grow_cap cap target"
proof (induction cap target rule: grow_cap.induct)
  case (1 cap target)
  then show ?case by (subst grow_cap.simps) auto
qed

lemma fhm_capacity: "\<exists>j. grow_cap 16 t = 2 ^ j"
  using grow_cap_pow2 [of 4 t] by simp

lemma and_mask_nat: "(x::nat) AND (2 ^ k - 1) = x mod 2 ^ k"
  by (metis mask_eq_exp_minus_1 take_bit_eq_mask take_bit_eq_mod)

lemma fhm_home_less: "fmask m < length (entries m) \<Longrightarrow> fhm_home hash m key < length (entries m)"
proof -
  assume less: "fmask m < length (entries m)"
  have "fhm_home hash m key \<le> unat (word_of_nat (fmask m) :: u64)"
    unfolding fhm_home_def by (rule word_and_le1 [THEN word_le_nat_alt [THEN iffD1]])
  also have "\<dots> \<le> fmask m"
    by (simp add: unat_of_nat)
  finally show ?thesis using less by simp
qed

section \<open>Probing\<close>

lemma probe_pos_0 [simp]: "h < n \<Longrightarrow> probe_pos n h 0 = h"
  by (simp add: probe_pos_def)

lemma probe_pos_less [simp]: "0 < n \<Longrightarrow> probe_pos n h d < n"
  by (simp add: probe_pos_def)

lemma probe_pos_Suc: "probe_pos n (probe_pos n h 1) d = probe_pos n h (Suc d)"
  by (simp add: probe_pos_def mod_add_left_eq)

lemma probe_pos_next:
  "n = 2 ^ k \<Longrightarrow> h < n \<Longrightarrow> (h + 1) AND (2 ^ k - 1) = probe_pos n h 1"
  by (simp only: and_mask_nat probe_pos_def)

lemma probe_pos_surj: "h < n \<Longrightarrow> i < n \<Longrightarrow> \<exists>d < n. probe_pos n h d = i"
proof (rule exI [of _ "(i + n - h) mod n"])
  assume "h < n" "i < n"
  then have "(h + (i + n - h) mod n) mod n = i"
    by (simp add: mod_add_right_eq)
  with \<open>i < n\<close> show "(i + n - h) mod n < n \<and> probe_pos n h ((i + n - h) mod n) = i"
    by (simp add: probe_pos_def)
qed

definition stops :: "'v flat_hash_map \<Rightarrow> i64 \<Rightarrow> nat \<Rightarrow> bool" where
  "stops m key i \<longleftrightarrow> \<not> occupied (entries m ! i) \<or> ekey (entries m ! i) = key"

lemma find_loop_run:
  assumes "length (entries m) = 2 ^ k" "fmask m = 2 ^ k - 1" "h < length (entries m)"
    and "\<forall>j < d. \<not> stops m key (probe_pos (length (entries m)) h j)"
    and "stops m key (probe_pos (length (entries m)) h d)"
  shows "find_loop m key h =
    (let e = entries m ! probe_pos (length (entries m)) h d
     in Some (if occupied e then Some (evalue e) else None))"
  using assms(3-5)
proof (induction d arbitrary: h)
  case 0
  then show ?case
    by (subst find_loop.simps) (auto simp: Let_def stops_def)
next
  case (Suc d)
  let ?n = "length (entries m)"
  have h1: "(h + 1) AND fmask m = probe_pos ?n h 1"
    using assms(1,2) Suc.prems(1) by (simp only: probe_pos_next)
  have "\<not> stops m key h" using Suc.prems(1,2) by (metis probe_pos_0 zero_less_Suc)
  then have "find_loop m key h = find_loop m key (probe_pos ?n h 1)"
    by (subst find_loop.simps) (simp add: Let_def stops_def h1 del: One_nat_def)
  also have "\<dots> = (let e = entries m ! probe_pos ?n h (Suc d)
     in Some (if occupied e then Some (evalue e) else None))"
    using Suc.IH [of "probe_pos ?n h 1"] Suc.prems assms(1)
    by (simp only: probe_pos_Suc) (simp del: One_nat_def)
  finally show ?case .
qed

lemma subscript_loop_run:
  assumes "length (entries m) = 2 ^ k" "fmask m = 2 ^ k - 1" "h < length (entries m)"
    and "\<forall>j < d. \<not> stops m key (probe_pos (length (entries m)) h j)"
    and "stops m key (probe_pos (length (entries m)) h d)"
  shows "subscript_loop m key h =
    (let i = probe_pos (length (entries m)) h d; e = entries m ! i
     in Some (if occupied e then m
              else m\<lparr>entries := (entries m)[i := e\<lparr>occupied := True, ekey := key\<rparr>],
                     fsize := fsize m + 1\<rparr>, i))"
  using assms(3-5)
proof (induction d arbitrary: h)
  case 0
  then show ?case
    by (subst subscript_loop.simps) (auto simp: Let_def stops_def)
next
  case (Suc d)
  let ?n = "length (entries m)"
  have h1: "(h + 1) AND fmask m = probe_pos ?n h 1"
    using assms(1,2) Suc.prems(1) by (simp only: probe_pos_next)
  have "\<not> stops m key h" using Suc.prems(1,2) by (metis probe_pos_0 zero_less_Suc)
  then have "subscript_loop m key h = subscript_loop m key (probe_pos ?n h 1)"
    by (subst subscript_loop.simps) (simp add: Let_def stops_def h1 del: One_nat_def)
  also have "\<dots> = (let i = probe_pos ?n h (Suc d); e = entries m ! i
     in Some (if occupied e then m
              else m\<lparr>entries := (entries m)[i := e\<lparr>occupied := True, ekey := key\<rparr>],
                     fsize := fsize m + 1\<rparr>, i))"
    using Suc.IH [of "probe_pos ?n h 1"] Suc.prems assms(1)
    by (simp only: probe_pos_Suc) (simp del: One_nat_def)
  finally show ?case .
qed

section \<open>Keys are unique\<close>

lemma fhm_okD:
  assumes "fhm_ok hash v0 m"
  shows "\<exists>k. length (entries m) = 2 ^ k \<and> fmask m = 2 ^ k - 1"
    and "fsize m = length (filter occupied (entries m))"
    and "i < length (entries m) \<Longrightarrow> occupied (entries m ! i) \<Longrightarrow> chain_ok hash m i"
    and "i < length (entries m) \<Longrightarrow> \<not> occupied (entries m ! i) \<Longrightarrow> evalue (entries m ! i) = v0"
  using assms by (auto simp: fhm_ok_def)

lemma fhm_ok_home:
  "fhm_ok hash v0 m \<Longrightarrow> fhm_home hash m key < length (entries m)"
  using fhm_okD(1) by (intro fhm_home_less) fastforce

lemma fhm_ok_length: "fhm_ok hash v0 m \<Longrightarrow> 0 < length (entries m)"
  using fhm_okD(1) by fastforce

lemma chain_before:
  assumes "chain_ok hash m i" and "key = ekey (entries m ! i)" and "occupied (entries m ! i)"
    and "stops m key (probe_pos (length (entries m)) (fhm_home hash m key) d)"
    and "\<forall>j < d. \<not> stops m key (probe_pos (length (entries m)) (fhm_home hash m key) j)"
  shows "i = probe_pos (length (entries m)) (fhm_home hash m key) d"
proof -
  obtain d' where d': "i = probe_pos (length (entries m)) (fhm_home hash m key) d'"
      "\<forall>j < d'. \<not> stops m key (probe_pos (length (entries m)) (fhm_home hash m key) j)"
    using assms(1,2) unfolding chain_ok_def stops_def Let_def by metis
  have "stops m key i" using assms(2) by (simp add: stops_def)
  then have "d' = d" using d' assms(4,5) by (metis linorder_neqE_nat)
  with d'(1) show ?thesis by simp
qed

lemma fhm_key_inj:
  assumes "fhm_ok hash v0 m" "i < length (entries m)" "j < length (entries m)"
    and "occupied (entries m ! i)" "occupied (entries m ! j)"
    and "ekey (entries m ! i) = ekey (entries m ! j)"
  shows "i = j"
proof -
  let ?p = "probe_pos (length (entries m)) (fhm_home hash m (ekey (entries m ! i)))"
  have "chain_ok hash m i" "chain_ok hash m j" using assms by (auto dest: fhm_okD)
  then obtain d where d: "i = ?p d" "\<forall>e < d. \<not> stops m (ekey (entries m ! i)) (?p e)"
    unfolding chain_ok_def stops_def Let_def by metis
  from d(1) have "stops m (ekey (entries m ! i)) (?p d)" by (simp add: stops_def)
  from chain_before [OF \<open>chain_ok hash m j\<close> assms(6) assms(5) this d(2)] d(1) show ?thesis
    by simp
qed

lemma distinct_map_filter_nth:
  assumes "\<And>i j. i < length xs \<Longrightarrow> j < length xs \<Longrightarrow> P (xs ! i) \<Longrightarrow> P (xs ! j) \<Longrightarrow>
    f (xs ! i) = f (xs ! j) \<Longrightarrow> i = j"
  shows "distinct (map f (filter P xs))"
  using assms
proof (induction xs)
  case (Cons x xs)
  have "distinct (map f (filter P xs))"
    using Cons.prems [of "Suc _" "Suc _"] by (intro Cons.IH) simp
  moreover have "f x \<notin> f ` set (filter P xs)" if "P x"
    using Cons.prems [of 0 "Suc _"] that by (force simp: in_set_conv_nth)
  ultimately show ?case by auto
qed simp

lemma fhm_distinct_keys: "fhm_ok hash v0 m \<Longrightarrow> distinct (map ekey (filter occupied (entries m)))"
  by (rule distinct_map_filter_nth) (blast intro: fhm_key_inj)

lemma fhm_abs_Some:
  assumes "fhm_ok hash v0 m"
  shows "fhm_abs m key = Some v \<longleftrightarrow>
    (\<exists>i < length (entries m). occupied (entries m ! i) \<and> ekey (entries m ! i) = key \<and>
       evalue (entries m ! i) = v)"
proof -
  have "distinct (map fst (map (\<lambda>e. (ekey e, evalue e)) (filter occupied (entries m))))"
    using fhm_distinct_keys [OF assms] by (simp add: comp_def)
  then show ?thesis
    unfolding fhm_abs_def by (auto simp: map_of_eq_Some_iff in_set_conv_nth)
qed

lemma fhm_abs_None:
  "fhm_abs m key = None \<longleftrightarrow>
    (\<forall>i < length (entries m). occupied (entries m ! i) \<longrightarrow> ekey (entries m ! i) \<noteq> key)"
  unfolding fhm_abs_def by (force simp: map_of_eq_None_iff in_set_conv_nth)

lemma card_dom_fhm_abs:
  assumes "fhm_ok hash v0 m"
  shows "card (dom (fhm_abs m)) = length (filter occupied (entries m))"
proof -
  have "dom (fhm_abs m) = set (map ekey (filter occupied (entries m)))"
    unfolding fhm_abs_def dom_map_of_conv_image_fst by force
  then show ?thesis
    using distinct_card [OF fhm_distinct_keys [OF assms]] by simp
qed

text \<open>The size the map reports is the number of keys it holds.\<close>

lemma fhm_size_abs: "fhm_ok hash v0 m \<Longrightarrow> fsize m = card (dom (fhm_abs m))"
  by (simp add: card_dom_fhm_abs fhm_okD(2))

section \<open>A free slot ends every probe\<close>

lemma fhm_free_slot:
  assumes "fhm_repr hash v0 n m M"
  shows "\<exists>i < length (entries m). \<not> occupied (entries m ! i)"
proof (rule ccontr)
  assume "\<not> ?thesis"
  then have "filter occupied (entries m) = entries m"
    by (auto simp: filter_id_conv in_set_conv_nth)
  with assms show False
    by (auto simp: fhm_repr_def dest!: card_dom_fhm_abs)
qed

lemma first_stop:
  assumes "fhm_repr hash v0 n m M"
  obtains d where "stops m key (probe_pos (length (entries m)) (fhm_home hash m key) d)"
    and "\<forall>j < d. \<not> stops m key (probe_pos (length (entries m)) (fhm_home hash m key) j)"
    and "d < length (entries m)"
proof -
  let ?P = "\<lambda>d. stops m key (probe_pos (length (entries m)) (fhm_home hash m key) d)"
  obtain i where i: "i < length (entries m)" "\<not> occupied (entries m ! i)"
    using fhm_free_slot [OF assms] by blast
  moreover have "fhm_home hash m key < length (entries m)"
    using assms by (auto simp: fhm_repr_def intro: fhm_ok_home)
  ultimately obtain d where "?P d" "d < length (entries m)"
    using probe_pos_surj by (metis stops_def)
  then have "?P (LEAST d. ?P d)" "(LEAST d. ?P d) < length (entries m)"
    by (auto intro: LeastI Least_le order.strict_trans1)
  with that [of "LEAST d. ?P d"] show ?thesis using not_less_Least by blast
qed

lemma fhm_find_correct:
  assumes "fhm_repr hash v0 n m M"
  shows "fhm_find hash m key = Some (M key)"
proof -
  let ?p = "probe_pos (length (entries m)) (fhm_home hash m key)"
  have ok: "fhm_ok hash v0 m" and M: "fhm_abs m = M" using assms by (auto simp: fhm_repr_def)
  obtain k where k: "length (entries m) = 2 ^ k" "fmask m = 2 ^ k - 1"
    using fhm_okD(1) [OF ok] by blast
  obtain d where d: "stops m key (?p d)" "\<forall>j < d. \<not> stops m key (?p j)"
    using first_stop [OF assms] by blast
  let ?e = "entries m ! ?p d"
  have run: "fhm_find hash m key = Some (if occupied ?e then Some (evalue ?e) else None)"
    unfolding fhm_find_def using find_loop_run [OF k fhm_ok_home [OF ok] d(2,1)]
    by (simp add: Let_def)
  have pd: "?p d < length (entries m)" using k by simp
  show ?thesis
  proof (cases "occupied ?e")
    case True
    with d(1) have "ekey ?e = key" by (simp add: stops_def)
    with True pd have "M key = Some (evalue ?e)" using fhm_abs_Some [OF ok] M by blast
    with True run show ?thesis by simp
  next
    case False
    have "M key = None"
      unfolding M [symmetric] fhm_abs_None
    proof (intro allI impI notI)
      fix i assume "i < length (entries m)" "occupied (entries m ! i)" "ekey (entries m ! i) = key"
      then have "i = ?p d"
        using chain_before fhm_okD(3) [OF ok] d by metis
      with \<open>occupied (entries m ! i)\<close> False show False by simp
    qed
    with False run show ?thesis by simp
  qed
qed

section \<open>Insertion and update\<close>

lemma chain_ok_cong:
  assumes "length (entries m') = length (entries m)" "fmask m' = fmask m"
    and "\<And>j. j < length (entries m) \<Longrightarrow> occupied (entries m' ! j) = occupied (entries m ! j) \<and>
      ekey (entries m' ! j) = ekey (entries m ! j)"
    and "i < length (entries m)"
  shows "chain_ok hash m' i \<longleftrightarrow> chain_ok hash m i"
proof -
  have "entries m \<noteq> []" using assms(4) by auto
  then show ?thesis
    using assms unfolding chain_ok_def Let_def fhm_home_def by (simp add: assms(3,4))
qed

lemma length_filter_eq:
  assumes "length xs = length ys" "\<And>i. i < length xs \<Longrightarrow> P (xs ! i) = Q (ys ! i)"
  shows "length (filter P xs) = length (filter Q ys)"
  using assms by (auto simp: length_filter_conv_card intro: arg_cong [where f = card])

lemma length_filter_update_new:
  assumes "i < length xs" "\<not> P (xs ! i)" "P x"
  shows "length (filter P (xs[i := x])) = Suc (length (filter P xs))"
proof -
  have "{j. j < length (xs[i := x]) \<and> P (xs[i := x] ! j)} = insert i {j. j < length xs \<and> P (xs ! j)}"
    using assms by (auto simp: nth_list_update)
  then show ?thesis using assms by (simp add: length_filter_conv_card)
qed

text \<open>Changing the values of occupied slots changes the map pointwise and nothing else.\<close>

lemma fhm_update_values:
  assumes ok: "fhm_ok hash v0 m"
    and len: "length es = length (entries m)"
    and same: "\<And>j. j < length (entries m) \<Longrightarrow>
      occupied (es ! j) = occupied (entries m ! j) \<and> ekey (es ! j) = ekey (entries m ! j)"
    and free: "\<And>j. j < length (entries m) \<Longrightarrow> \<not> occupied (entries m ! j) \<Longrightarrow> es ! j = entries m ! j"
  shows "fhm_ok hash v0 (m\<lparr>entries := es\<rparr>)"
proof -
  have "length (filter occupied es) = length (filter occupied (entries m))"
    using len same by (intro length_filter_eq) auto
  moreover have "chain_ok hash (m\<lparr>entries := es\<rparr>) i = chain_ok hash m i" if "i < length (entries m)" for i
    using len same that by (intro chain_ok_cong) auto
  ultimately show ?thesis
    using ok len same free by (auto simp: fhm_ok_def)
qed

definition claim_slot :: "'v flat_hash_map \<Rightarrow> i64 \<Rightarrow> nat \<Rightarrow> 'v flat_hash_map" where
  "claim_slot m key i =
     m\<lparr>entries := (entries m)[i := (entries m ! i)\<lparr>occupied := True, ekey := key\<rparr>], fsize := fsize m + 1\<rparr>"

lemma claim_slot_sel [simp]:
  "length (entries (claim_slot m key i)) = length (entries m)"
  "fmask (claim_slot m key i) = fmask m"
  "fhm_home hash (claim_slot m key i) = fhm_home hash m"
  by (auto simp: claim_slot_def fhm_home_def fun_eq_iff)

lemma claim_slot_nth:
  "j < length (entries m) \<Longrightarrow> entries (claim_slot m key i) ! j =
     (if j = i then (entries m ! i)\<lparr>occupied := True, ekey := key\<rparr> else entries m ! j)"
  by (simp add: claim_slot_def)

lemma claim_slot_chain_old:
  assumes ok: "fhm_ok hash v0 m" and i: "i < length (entries m)" "\<not> occupied (entries m ! i)"
    and j: "j < length (entries m)" "occupied (entries m ! j)"
  shows "chain_ok hash (claim_slot m key i) j"
proof -
  let ?n = "length (entries m)"
  let ?p = "probe_pos ?n (fhm_home hash m (ekey (entries m ! j)))"
  have "chain_ok hash m j" using ok j by (blast dest: fhm_okD)
  then obtain d where d: "d < ?n" "j = ?p d"
      "\<forall>e < d. occupied (entries m ! ?p e) \<and> ekey (entries m ! ?p e) \<noteq> ekey (entries m ! j)"
    unfolding chain_ok_def Let_def by blast
  have "j \<noteq> i" using i j by blast
  then have kj: "ekey (entries (claim_slot m key i) ! j) = ekey (entries m ! j)"
    using j by (simp add: claim_slot_nth)
  have "entries (claim_slot m key i) ! ?p e = entries m ! ?p e" if "e < d" for e
    using that d(3) i fhm_ok_length [OF ok] by (auto simp: claim_slot_nth)
  then show ?thesis
    unfolding chain_ok_def Let_def using d kj by auto
qed

lemma claim_slot_ok:
  assumes ok: "fhm_ok hash v0 m"
    and i: "i = probe_pos (length (entries m)) (fhm_home hash m key) d" "\<not> occupied (entries m ! i)"
    and d: "d < length (entries m)"
    and path: "\<forall>j < d. \<not> stops m key (probe_pos (length (entries m)) (fhm_home hash m key) j)"
  shows "fhm_ok hash v0 (claim_slot m key i)"
proof -
  let ?m' = "claim_slot m key i"
  have il: "i < length (entries m)" using i(1) fhm_ok_length [OF ok] by simp
  have new: "chain_ok hash ?m' i"
  proof -
    have "entries ?m' ! probe_pos (length (entries m)) (fhm_home hash m key) j =
        entries m ! probe_pos (length (entries m)) (fhm_home hash m key) j" if "j < d" for j
      using that path i(2) fhm_ok_length [OF ok] by (auto simp: claim_slot_nth stops_def)
    then show ?thesis
      unfolding chain_ok_def Let_def using d i(1) il path
      by (auto simp: claim_slot_nth stops_def intro!: exI [of _ d])
  qed
  have "fsize ?m' = length (filter occupied (entries ?m'))"
    using length_filter_update_new [of i "entries m" occupied] il i(2) fhm_okD(2) [OF ok]
    by (simp add: claim_slot_def)
  moreover have "chain_ok hash ?m' j" if "j < length (entries m)" "occupied (entries ?m' ! j)" for j
    using claim_slot_chain_old [OF ok il i(2)] new that by (auto simp: claim_slot_nth split: if_splits)
  moreover have "evalue (entries ?m' ! j) = v0" if "j < length (entries m)" "\<not> occupied (entries ?m' ! j)" for j
    using that fhm_okD(4) [OF ok] by (auto simp: claim_slot_nth split: if_splits)
  ultimately show ?thesis
    using fhm_okD(1) [OF ok] by (auto simp: fhm_ok_def)
qed

lemma fhm_abs_eqI:
  assumes ok: "fhm_ok hash v0 m"
    and sound: "\<And>i. i < length (entries m) \<Longrightarrow> occupied (entries m ! i) \<Longrightarrow>
      M (ekey (entries m ! i)) = Some (evalue (entries m ! i))"
    and complete: "\<And>key v. M key = Some v \<Longrightarrow>
      \<exists>i < length (entries m). occupied (entries m ! i) \<and> ekey (entries m ! i) = key"
  shows "fhm_abs m = M"
proof (rule ext)
  fix key
  show "fhm_abs m key = M key"
  proof (cases "M key")
    case None
    have "\<forall>i < length (entries m). occupied (entries m ! i) \<longrightarrow> ekey (entries m ! i) \<noteq> key"
      using sound None by force
    with None show ?thesis by (simp add: fhm_abs_None)
  next
    case (Some v)
    with complete obtain i where i: "i < length (entries m)" "occupied (entries m ! i)" "ekey (entries m ! i) = key"
      by blast
    with sound Some have "evalue (entries m ! i) = v" by force
    with i show ?thesis unfolding Some using fhm_abs_Some [OF ok] by blast
  qed
qed

text \<open>
  \<open>operator[]\<close> returns a slot that holds the key: the existing one, or a free slot claimed
  with the default value.
\<close>

lemma fhm_subscript_correct:
  assumes repr: "fhm_repr hash v0 n m M"
  shows "\<exists>m' i. fhm_subscript hash m key = Some (m', i) \<and> fhm_ok hash v0 m' \<and>
    i < length (entries m') \<and> length (entries m') = length (entries m) \<and>
    occupied (entries m' ! i) \<and> ekey (entries m' ! i) = key \<and>
    fhm_abs m' = M(key \<mapsto> evalue (entries m' ! i)) \<and>
    evalue (entries m' ! i) = (case M key of None \<Rightarrow> v0 | Some v \<Rightarrow> v)"
proof -
  let ?p = "probe_pos (length (entries m)) (fhm_home hash m key)"
  have ok: "fhm_ok hash v0 m" and M: "fhm_abs m = M" using repr by (auto simp: fhm_repr_def)
  obtain k where k: "length (entries m) = 2 ^ k" "fmask m = 2 ^ k - 1"
    using fhm_okD(1) [OF ok] by blast
  obtain d where d: "stops m key (?p d)" "\<forall>j < d. \<not> stops m key (?p j)" "d < length (entries m)"
    using first_stop [OF repr] by blast
  let ?e = "entries m ! ?p d"
  have run: "fhm_subscript hash m key = Some (if occupied ?e then m else claim_slot m key (?p d), ?p d)"
    unfolding fhm_subscript_def claim_slot_def
    using subscript_loop_run [OF k fhm_ok_home [OF ok] d(2,1)] by (simp add: Let_def)
  have pd: "?p d < length (entries m)" using k by simp
  show ?thesis
  proof (cases "occupied ?e")
    case True
    with d(1) have key: "ekey ?e = key" by (simp add: stops_def)
    with True pd have "M key = Some (evalue ?e)" using fhm_abs_Some [OF ok] M by blast
    with True key pd run ok M show ?thesis by (auto simp: fun_upd_idem)
  next
    case False
    let ?m' = "claim_slot m key (?p d)"
    have ok': "fhm_ok hash v0 ?m'" using claim_slot_ok [OF ok refl False d(3,2)] .
    have none: "M key = None"
      using fhm_find_correct [OF repr, of key] find_loop_run [OF k fhm_ok_home [OF ok] d(2,1)] False
      by (simp add: fhm_find_def)
    have v0: "evalue ?e = v0" using fhm_okD(4) [OF ok pd False] .
    have "fhm_abs ?m' = M(key \<mapsto> v0)"
    proof (rule fhm_abs_eqI [OF ok'])
      fix i assume i: "i < length (entries ?m')" "occupied (entries ?m' ! i)"
      show "(M(key \<mapsto> v0)) (ekey (entries ?m' ! i)) = Some (evalue (entries ?m' ! i))"
      proof (cases "i = ?p d")
        case True
        then show ?thesis using pd v0 by (simp add: claim_slot_nth)
      next
        case neq: False
        with i have *: "M (ekey (entries m ! i)) = Some (evalue (entries m ! i))"
          using fhm_abs_Some [OF ok, of "ekey (entries m ! i)"] M by (auto simp: claim_slot_nth)
        with none have "ekey (entries m ! i) \<noteq> key" by auto
        with * neq i show ?thesis by (simp add: claim_slot_nth)
      qed
    next
      fix key' v assume v: "(M(key \<mapsto> v0)) key' = Some v"
      show "\<exists>i < length (entries ?m'). occupied (entries ?m' ! i) \<and> ekey (entries ?m' ! i) = key'"
      proof (cases "key' = key")
        case True
        then show ?thesis using pd by (auto simp: claim_slot_nth intro!: exI [of _ "?p d"])
      next
        case neq: False
        with v obtain i where i: "i < length (entries m)" "occupied (entries m ! i)" "ekey (entries m ! i) = key'"
          using fhm_abs_Some [OF ok] M by (auto split: if_splits)
        then have "i \<noteq> ?p d" using False by auto
        with i show ?thesis by (auto simp: claim_slot_nth intro!: exI [of _ i])
      qed
    qed
    with False run ok' pd none v0 show ?thesis by (simp add: claim_slot_nth)
  qed
qed

lemma fhm_set_value:
  fixes v
  assumes ok: "fhm_ok hash v0 m" and i: "i < length (entries m)" "occupied (entries m ! i)"
  defines "m' \<equiv> m\<lparr>entries := (entries m)[i := (entries m ! i)\<lparr>evalue := v\<rparr>]\<rparr>"
  shows "fhm_ok hash v0 m'" and "fhm_abs m' = (fhm_abs m)(ekey (entries m ! i) \<mapsto> v)"
proof -
  show ok': "fhm_ok hash v0 m'"
    unfolding m'_def using i by (intro fhm_update_values [OF ok]) (auto simp: nth_list_update)
  have nth: "entries m' ! j = (if j = i then (entries m ! i)\<lparr>evalue := v\<rparr> else entries m ! j)"
    if "j < length (entries m)" for j using that by (simp add: m'_def)
  have len: "length (entries m') = length (entries m)" by (simp add: m'_def)
  show "fhm_abs m' = (fhm_abs m)(ekey (entries m ! i) \<mapsto> v)"
  proof (rule fhm_abs_eqI [OF ok'])
    fix j assume "j < length (entries m')" "occupied (entries m' ! j)"
    then show "((fhm_abs m)(ekey (entries m ! i) \<mapsto> v)) (ekey (entries m' ! j)) = Some (evalue (entries m' ! j))"
      using fhm_key_inj [OF ok _ i(1) _ i(2)] fhm_abs_Some [OF ok] by (auto simp: nth len)
  next
    fix key w assume "((fhm_abs m)(ekey (entries m ! i) \<mapsto> v)) key = Some w"
    then show "\<exists>j < length (entries m'). occupied (entries m' ! j) \<and> ekey (entries m' ! j) = key"
      using i by (auto simp: nth len fhm_abs_Some [OF ok] intro: exI [of _ i] split: if_splits)
  qed
qed

lemma fhm_new_repr: "fhm_repr hash v0 n (fhm_new v0 n) Map.empty"
proof -
  obtain j where j: "grow_cap 16 (n * 4 div 3 + 1) = 2 ^ j" using fhm_capacity by blast
  have "n < grow_cap 16 (n * 4 div 3 + 1)"
    using grow_cap_ge [of 16 "n * 4 div 3 + 1"] by simp
  with j show ?thesis
    by (auto simp: fhm_repr_def fhm_ok_def fhm_abs_def fhm_new_def Let_def)
qed

lemma fhm_push_repr:
  assumes repr: "fhm_repr hash [] n m M" and room: "card (insert key (dom M)) \<le> n"
  shows "\<exists>m'. fhm_push hash m key x = Some m' \<and>
    fhm_repr hash [] n m' (M(key \<mapsto> (case M key of None \<Rightarrow> [] | Some l \<Rightarrow> l) @ [x]))"
proof -
  obtain m1 i where sub: "fhm_subscript hash m key = Some (m1, i)"
    and ok: "fhm_ok hash [] m1" and i: "i < length (entries m1)" "occupied (entries m1 ! i)"
    and len: "length (entries m1) = length (entries m)"
    and key: "ekey (entries m1 ! i) = key" and abs: "fhm_abs m1 = M(key \<mapsto> evalue (entries m1 ! i))"
    and val: "evalue (entries m1 ! i) = (case M key of None \<Rightarrow> [] | Some v \<Rightarrow> v)"
    using fhm_subscript_correct [OF repr] by blast
  from fhm_set_value [OF ok i, of "evalue (entries m1 ! i) @ [x]"] sub key abs val len repr room
  show ?thesis
    by (auto simp: fhm_push_def fhm_repr_def)
qed

lemma fhm_for_each_repr:
  assumes repr: "fhm_repr hash v0 n m M"
  shows "fhm_repr hash v0 n (fhm_for_each fn m) (\<lambda>key. map_option (fn key) (M key))"
proof -
  have ok: "fhm_ok hash v0 m" and M: "fhm_abs m = M" using repr by (auto simp: fhm_repr_def)
  have ok': "fhm_ok hash v0 (fhm_for_each fn m)"
    unfolding fhm_for_each_def by (intro fhm_update_values [OF ok]) auto
  have "fhm_abs (fhm_for_each fn m) = (\<lambda>key. map_option (fn key) (M key))"
  proof (rule fhm_abs_eqI [OF ok'])
    fix i assume "i < length (entries (fhm_for_each fn m))" "occupied (entries (fhm_for_each fn m) ! i)"
    then have i: "i < length (entries m)" "occupied (entries m ! i)"
      by (auto simp: fhm_for_each_def split: if_splits)
    then have "M (ekey (entries m ! i)) = Some (evalue (entries m ! i))"
      using fhm_abs_Some [OF ok] M by blast
    with i show "map_option (fn (ekey (entries (fhm_for_each fn m) ! i))) (M (ekey (entries (fhm_for_each fn m) ! i))) =
        Some (evalue (entries (fhm_for_each fn m) ! i))"
      by (simp add: fhm_for_each_def)
  next
    fix key v assume "map_option (fn key) (M key) = Some v"
    then obtain i where "i < length (entries m)" "occupied (entries m ! i)" "ekey (entries m ! i) = key"
      using fhm_abs_Some [OF ok] M by auto
    then show "\<exists>i < length (entries (fhm_for_each fn m)). occupied (entries (fhm_for_each fn m) ! i) \<and>
        ekey (entries (fhm_for_each fn m) ! i) = key"
      by (auto simp: fhm_for_each_def intro!: exI [of _ i])
  qed
  moreover have "dom (\<lambda>key. map_option (fn key) (M key)) = dom M" by (auto simp: dom_def)
  ultimately show ?thesis using ok' repr by (simp add: fhm_repr_def fhm_for_each_def)
qed

section \<open>The contract of the join operators\<close>

text \<open>
  What a build-and-probe operator needs of its map: a fresh map is empty, \<open>push\<close> appends to the
  group of a key as long as the number of keys stays within the size announced to the
  constructor, \<open>find\<close> returns the group, and \<open>each\<close> rewrites every group in place.
\<close>

definition rows_of :: "i64 list \<Rightarrow> i64 \<Rightarrow> nat list" where
  "rows_of ks key = filter (\<lambda>i. ks ! i = key) [0..<length ks]"

definition group_of :: "(nat \<Rightarrow> 'a) \<Rightarrow> i64 list \<Rightarrow> i64 \<rightharpoonup> 'a list" where
  "group_of f ks key = (if rows_of ks key = [] then None else Some (map f (rows_of ks key)))"

lemma set_rows_of [simp]: "set (rows_of ks key) = {i. i < length ks \<and> ks ! i = key}"
  by (auto simp: rows_of_def)

lemma sorted_rows_of: "sorted (rows_of ks key)" "distinct (rows_of ks key)"
  by (simp_all add: rows_of_def sorted_wrt_filter)

lemma rows_of_snoc:
  "rows_of (ks @ [k]) key = rows_of ks key @ (if k = key then [length ks] else [])"
proof -
  have "filter (\<lambda>i. (ks @ [k]) ! i = key) [0..<length ks] = filter (\<lambda>i. ks ! i = key) [0..<length ks]"
    by (rule filter_cong) (auto simp: nth_append)
  then show ?thesis by (simp add: rows_of_def)
qed

lemma group_of_snoc:
  "group_of f (ks @ [k]) =
     (group_of f ks)(k \<mapsto> (case group_of f ks k of None \<Rightarrow> [] | Some l \<Rightarrow> l) @ [f (length ks)])"
  by (auto simp: group_of_def rows_of_snoc fun_eq_iff)

lemma group_of_Nil [simp]: "group_of f [] = Map.empty"
  by (simp add: group_of_def rows_of_def fun_eq_iff)

lemma dom_group_of: "dom (group_of f ks) = set ks"
proof -
  have "rows_of ks key \<noteq> [] \<longleftrightarrow> key \<in> set ks" for key
    using set_rows_of [of ks key] by (auto simp: in_set_conv_nth simp flip: set_empty)
  then show ?thesis by (auto simp: group_of_def dom_def split: if_splits)
qed

locale group_map =
  fixes repr :: "nat \<Rightarrow> 'm \<Rightarrow> (i64 \<rightharpoonup> 'a list) \<Rightarrow> bool"
    and mk :: "nat \<Rightarrow> 'm"
    and push :: "'m \<Rightarrow> i64 \<Rightarrow> 'a \<Rightarrow> 'm option"
    and find :: "'m \<Rightarrow> i64 \<Rightarrow> 'a list option option"
    and each :: "(i64 \<Rightarrow> 'a list \<Rightarrow> 'a list) \<Rightarrow> 'm \<Rightarrow> 'm"
  assumes repr_mk: "repr n (mk n) Map.empty"
    and repr_push: "repr n m M \<Longrightarrow> card (insert key (dom M)) \<le> n \<Longrightarrow>
      \<exists>m'. push m key x = Some m' \<and> repr n m' (M(key \<mapsto> (case M key of None \<Rightarrow> [] | Some l \<Rightarrow> l) @ [x]))"
    and find_repr: "repr n m M \<Longrightarrow> find m key = Some (M key)"
    and repr_each: "repr n m M \<Longrightarrow> repr n (each fn m) (\<lambda>key. map_option (fn key) (M key))"
begin

text \<open>The build phase: pushing every row of a key column groups the rows by key, in row order.\<close>

lemma build_groups:
  "\<exists>m. for_range 0 (length ks) (\<lambda>i m. push m (ks ! i) (f i)) (mk (length ks)) = Some m \<and>
       repr (length ks) m (group_of f ks)"
proof -
  let ?I = "\<lambda>i m. repr (length ks) m (group_of f (take i ks))"
  have "\<exists>m. for_range 0 (length ks) (\<lambda>i m. push m (ks ! i) (f i)) (mk (length ks)) = Some m \<and> ?I (length ks) m"
  proof (rule for_range_inv [where I = ?I])
    show "?I 0 (mk (length ks))" using repr_mk by simp
  next
    fix i m assume i: "0 \<le> i" "i < length ks" and inv: "?I i m"
    have "insert (ks ! i) (dom (group_of f (take i ks))) \<subseteq> set ks"
      using i by (auto simp: dom_group_of dest: in_set_takeD)
    then have "card (insert (ks ! i) (dom (group_of f (take i ks)))) \<le> length ks"
      by (meson List.finite_set card_length card_mono order_trans)
    from repr_push [OF inv this, of "f i"]
    show "\<exists>m'. push m (ks ! i) (f i) = Some m' \<and> ?I (Suc i) m'"
      using i group_of_snoc [of f "take i ks" "ks ! i"] by (simp add: take_Suc_conv_app_nth)
  qed simp
  then show ?thesis by simp
qed

end

interpretation fhm: group_map "fhm_repr hash []" "fhm_new []" "fhm_push hash" "fhm_find hash" fhm_for_each
  for hash :: "i64 \<Rightarrow> u64"
  by unfold_locales
    (auto intro: fhm_new_repr fhm_push_repr fhm_for_each_repr simp: fhm_find_correct)

section \<open>Properties\<close>

text \<open>
  C21. Grouping the rows of a key column in a map built for that many rows always ends, for every
  hash function and however the keys collide; afterwards \<open>find\<close> ends on every key, returns exactly
  the rows that carry the key in row order (and a null pointer when there is none), and the size is
  the number of distinct keys.
\<close>

theorem flat_hash_map_groups_rows:
  "\<exists>m. for_range 0 (length ks) (\<lambda>i m. fhm_push hash m (ks ! i) i) (fhm_new [] (length ks)) = Some m \<and>
     fsize m = card (set ks) \<and>
     (\<forall>key. fhm_find hash m key = Some (if key \<in> set ks then Some (rows_of ks key) else None))"
proof -
  obtain m where m: "for_range 0 (length ks) (\<lambda>i m. fhm_push hash m (ks ! i) i) (fhm_new [] (length ks)) = Some m"
    and repr: "fhm_repr hash [] (length ks) m (group_of (\<lambda>i. i) ks)"
    using fhm.build_groups [where ks = ks and f = "\<lambda>i. i" and hash = hash] by blast
  then have "fhm_ok hash [] m" "fhm_abs m = group_of (\<lambda>i. i) ks" by (simp_all add: fhm_repr_def)
  then have "fsize m = card (set ks)" using fhm_size_abs by (metis dom_group_of)
  moreover have "group_of (\<lambda>i. i) ks key = (if key \<in> set ks then Some (rows_of ks key) else None)" for key
    using dom_group_of [of "\<lambda>i. i" ks] by (auto simp: group_of_def dom_def set_eq_iff split: if_splits)
  ultimately show ?thesis using m fhm.find_repr [OF repr] by auto
qed

end
