(* ===== verification/Vector_Engine.thy ===== *)
theory Vector_Engine
  imports Zepto_Prelude
begin

text \<open>
  The vectorised sums of \<^verbatim>\<open>src/src/execution/vectorized_engine.cpp\<close>. The SIMD registers belong to
  the Highway library: a register is the list of its lanes and the library's operations are an
  argument of the model, with the behaviour the library documents as the predicate
  \<open>hwy_documented\<close>. Every routine is shown equal to the plain sum of its column modulo
  $2^{64}$, whatever the number of lanes.
\<close>

unbundle bit_operations_syntax

section \<open>Highway\<close>

record hwy_ops =
  hn_Lanes :: nat
  hn_Zero :: "i64 list"
  hn_Add :: "i64 list \<Rightarrow> i64 list \<Rightarrow> i64 list"
  hn_LoadU :: "i64 list \<Rightarrow> nat \<Rightarrow> i64 list"
  hn_ReduceSum :: "i64 list \<Rightarrow> i64"
  hn_Set :: "i64 \<Rightarrow> i64 list"
  hn_Gt :: "i64 list \<Rightarrow> i64 list \<Rightarrow> bool list"
  hn_StoreMaskBits :: "bool list \<Rightarrow> 8 word list"

text \<open>
  The documented behaviour the engine relies on: at least one lane, \<open>Zero\<close> all zero, \<open>Add\<close>
  lane by lane with wrap-around, \<open>LoadU\<close> the \<open>N\<close> elements from an offset when they exist,
  \<open>ReduceSum\<close> the sum of the lanes, \<open>Set\<close> a constant register, \<open>Gt\<close> the lane-wise comparison,
  \<open>StoreMaskBits\<close> the lanes as a bit array, lowest lane in the lowest bit of the first byte, unused
  bits clear. The bound of 64 lanes is the size of the source's buffer \<^verbatim>\<open>uint8_t mask_bytes[8]\<close>.
\<close>

definition hwy_documented :: "hwy_ops \<Rightarrow> bool" where
  "hwy_documented H \<longleftrightarrow>
     0 < hn_Lanes H \<and>
     hn_Zero H = replicate (hn_Lanes H) 0 \<and>
     (\<forall>u v. length u = hn_Lanes H \<and> length v = hn_Lanes H \<longrightarrow>
        hn_Add H u v = map2 (\<lambda>a b. wrap64 (a + b)) u v) \<and>
     (\<forall>data i. i + hn_Lanes H \<le> length data \<longrightarrow>
        hn_LoadU H data i = take (hn_Lanes H) (drop i data)) \<and>
     (\<forall>u. length u = hn_Lanes H \<longrightarrow> hn_ReduceSum H u = wrap64 (sum_list u)) \<and>
     hn_Lanes H \<le> 64 \<and>
     (\<forall>x. hn_Set H x = replicate (hn_Lanes H) x) \<and>
     (\<forall>u v. length u = hn_Lanes H \<and> length v = hn_Lanes H \<longrightarrow> hn_Gt H u v = map2 (\<lambda>a b. b < a) u v) \<and>
     (\<forall>lanes. length lanes = hn_Lanes H \<longrightarrow>
        hn_StoreMaskBits H lanes =
          map (\<lambda>b. horner_sum of_bool 2 (map (\<lambda>j. b * 8 + j < hn_Lanes H \<and> lanes ! (b * 8 + j)) [0..<8]))
            [0..<(hn_Lanes H + 7) div 8])"

section \<open>Sums\<close>

text \<open>
  The unrolled loop \<^verbatim>\<open>for (; i + N*U <= n; i += N*U)\<close> over \<open>U\<close> accumulators, of which the
  source spells out four (\<open>sum_i64_simd\<close>) and eight (\<open>sum_i64_simd_v2_impl\<close>).
\<close>

function simd_acc_loop :: "hwy_ops \<Rightarrow> i64 list \<Rightarrow> nat \<Rightarrow> i64 list list \<Rightarrow> nat \<times> i64 list list" where
  "simd_acc_loop H data i accs =
     (if 0 < hn_Lanes H * length accs \<and> i + hn_Lanes H * length accs \<le> length data
      then simd_acc_loop H data (i + hn_Lanes H * length accs)
             (map (\<lambda>j. hn_Add H (accs ! j) (hn_LoadU H data (i + j * hn_Lanes H))) [0..<length accs])
      else (i, accs))"
  by pat_completeness auto
termination
proof (relation "measure (\<lambda>(H, data, i, accs). length data - i)", goal_cases)
  case (2 H data i accs)
  then have "0 < hn_Lanes H * length accs" "i + hn_Lanes H * length accs \<le> length data" by blast+
  then show ?case by (simp del: length_greater_0_conv nat_0_less_mult_iff)
qed simp

declare simd_acc_loop.simps [simp del]

fun scalar_tail :: "i64 list \<Rightarrow> i64 \<Rightarrow> i64" where
  "scalar_tail [] result = result"
| "scalar_tail (x # xs) result = scalar_tail xs (wrap64 (result + x))"

definition sum_i64_simd :: "hwy_ops \<Rightarrow> i64 list \<Rightarrow> i64" where
  "sum_i64_simd H data =
     (let (i, accs) = simd_acc_loop H data 0 (replicate 4 (hn_Zero H));
          acc0 = hn_Add H (hn_Add H (accs ! 0) (accs ! 1)) (hn_Add H (accs ! 2) (accs ! 3));
          (i, accs) = simd_acc_loop H data i [acc0]
      in scalar_tail (drop i data) (hn_ReduceSum H (accs ! 0)))"

definition sum_i64_simd_v2_impl :: "hwy_ops \<Rightarrow> i64 list \<Rightarrow> i64" where
  "sum_i64_simd_v2_impl H data =
     (let (i, accs) = simd_acc_loop H data 0 (replicate 8 (hn_Zero H));
          acc0 = hn_Add H (hn_Add H (accs ! 0) (accs ! 1)) (hn_Add H (accs ! 2) (accs ! 3));
          acc4 = hn_Add H (hn_Add H (accs ! 4) (accs ! 5)) (hn_Add H (accs ! 6) (accs ! 7));
          acc0 = hn_Add H acc0 acc4;
          (i, accs) = simd_acc_loop H data i [acc0]
      in scalar_tail (drop i data) (hn_ReduceSum H (accs ! 0)))"

definition sum_i64 :: "hwy_ops \<Rightarrow> i64 list \<Rightarrow> i64" where
  "sum_i64 H column_data = sum_i64_simd H column_data"

definition sum_i64_simd_v2 :: "hwy_ops \<Rightarrow> i64 list \<Rightarrow> i64" where
  "sum_i64_simd_v2 H column_data = sum_i64_simd_v2_impl H column_data"

text \<open>The scalar version: sixteen elements a step, spread over four accumulators.\<close>

function fast_loop :: "i64 list \<Rightarrow> nat \<Rightarrow> i64 \<Rightarrow> i64 \<Rightarrow> i64 \<Rightarrow> i64 \<Rightarrow> nat \<times> i64 \<times> i64 \<times> i64 \<times> i64" where
  "fast_loop data i s0 s1 s2 s3 =
     (if i + 16 \<le> length data
      then fast_loop data (i + 16)
             (wrap64 (s0 + wrap64 (wrap64 (wrap64 (data ! i + data ! (i + 4)) + data ! (i + 8)) + data ! (i + 12))))
             (wrap64 (s1 + wrap64 (wrap64 (wrap64 (data ! (i + 1) + data ! (i + 5)) + data ! (i + 9)) + data ! (i + 13))))
             (wrap64 (s2 + wrap64 (wrap64 (wrap64 (data ! (i + 2) + data ! (i + 6)) + data ! (i + 10)) + data ! (i + 14))))
             (wrap64 (s3 + wrap64 (wrap64 (wrap64 (data ! (i + 3) + data ! (i + 7)) + data ! (i + 11)) + data ! (i + 15))))
      else (i, s0, s1, s2, s3))"
  by pat_completeness auto
termination
  by (relation "measure (\<lambda>(data, i, _). length data - i)") auto

declare fast_loop.simps [simp del]

definition sum_i64_fast :: "i64 list \<Rightarrow> i64" where
  "sum_i64_fast data =
     (let (i, s0, s1, s2, s3) = fast_loop data 0 0 0 0 0;
          s0 = scalar_tail (drop i data) s0
      in wrap64 (wrap64 (wrap64 (s0 + s1) + s2) + s3))"

section \<open>Filters\<close>

text \<open>
  A \<open>SelectionVector\<close>: the index array allocated by the constructor and the number of valid
  entries. A \<open>BitMask\<close>: 64-bit words, one bit per row.
\<close>

record selection_vector =
  indices :: "u32 list"
  sel_size :: nat

definition SelectionVector :: "nat \<Rightarrow> selection_vector" where
  "SelectionVector max_size = \<lparr>indices = replicate max_size 0, sel_size = 0\<rparr>"

record bit_mask =
  bits :: "u64 list"
  num_rows :: nat
  num_words :: nat

definition BitMask :: "nat \<Rightarrow> bit_mask" where
  "BitMask n = \<lparr>bits = replicate ((n + 63) div 64) 0, num_rows = n, num_words = (n + 63) div 64\<rparr>"

definition bm_clear :: "bit_mask \<Rightarrow> bit_mask" where
  "bm_clear m = m\<lparr>bits := fill (\<lambda>_. 0) 0 (num_words m) (bits m)\<rparr>"

text \<open>\<^verbatim>\<open>bits[w] |= x\<close>\<close>

definition or_word :: "u64 list \<Rightarrow> nat \<Rightarrow> u64 \<Rightarrow> u64 list option" where
  "or_word bs w x = Option.bind (vec_get bs (int w)) (\<lambda>b. vec_set bs (int w) (b OR x))"

definition bm_set :: "bit_mask \<Rightarrow> nat \<Rightarrow> bit_mask option" where
  "bm_set m i = map_option (\<lambda>bs. m\<lparr>bits := bs\<rparr>) (or_word (bits m) (i div 64) (push_bit (i mod 64) 1))"

definition bm_test :: "bit_mask \<Rightarrow> nat \<Rightarrow> bool option" where
  "bm_test m i = map_option (\<lambda>b. drop_bit (i mod 64) b AND 1 \<noteq> 0) (vec_get (bits m) (int (i div 64)))"

text \<open>\<^verbatim>\<open>__builtin_popcountll\<close>\<close>

definition popcount64 :: "u64 \<Rightarrow> nat" where
  "popcount64 w = length (filter (bit w) [0..<64])"

definition bm_popcount :: "bit_mask \<Rightarrow> nat option" where
  "bm_popcount m = for_range 0 (num_words m)
     (\<lambda>i acc. map_option (\<lambda>w. acc + popcount64 w) (vec_get (bits m) (int i))) 0"

text \<open>The bytes of \<open>StoreMaskBits\<close> assembled to a word, first byte lowest.\<close>

definition gather_mask :: "hwy_ops \<Rightarrow> bool list \<Rightarrow> u64" where
  "gather_mask H lanes =
     fold (\<lambda>b w. w OR push_bit (b * 8) (ucast (hn_StoreMaskBits H lanes ! b))) [0..<(hn_Lanes H + 7) div 8] 0"

text \<open>\<^verbatim>\<open>out_indices[out_count++] = v\<close>\<close>

definition emit :: "u32 \<Rightarrow> u32 list \<times> nat \<Rightarrow> (u32 list \<times> nat) option" where
  "emit v st = map_option (\<lambda>out. (out, Suc (snd st))) (vec_set (fst st) (int (snd st)) v)"

lemma clear_lowest_less: 
  fixes w :: u64
  assumes "w \<noteq> 0"
  shows "unat (w AND (w - 1)) < unat w"
proof -
  have "unat (w AND (w - 1)) \<le> unat (w - 1)" by (simp add: word_and_le1 flip: word_le_nat_alt)
  moreover have "unat (w - 1) = unat w - 1" "0 < unat w"
    using assms by (simp_all add: unat_minus_one unat_gt_0)
  ultimately show ?thesis by linarith
qed

text \<open>The loops \<^verbatim>\<open>while (bits) { k = ctz(bits); ...; bits &= bits - 1; }\<close>\<close>

function each_bit :: "(nat \<Rightarrow> 's \<Rightarrow> 's option) \<Rightarrow> u64 \<Rightarrow> 's \<Rightarrow> 's option" where
  "each_bit body w s =
     (if w = 0 then Some s
      else (case body (ctz64 w) s of None \<Rightarrow> None | Some s' \<Rightarrow> each_bit body (w AND (w - 1)) s'))"
  by pat_completeness auto
termination
  by (relation "measure (\<lambda>(_, w, _). unat w)") (simp_all add: clear_lowest_less)

declare each_bit.simps [simp del]

function filter_gt_vec_loop :: "hwy_ops \<Rightarrow> i64 list \<Rightarrow> i64 \<Rightarrow> nat \<Rightarrow> u32 list \<times> nat \<Rightarrow> (nat \<times> u32 list \<times> nat) option" where
  "filter_gt_vec_loop H data threshold i st =
     (if 0 < hn_Lanes H \<and> i + hn_Lanes H \<le> length data
      then (case each_bit (\<lambda>k. emit (of_nat (i + k)))
                   (gather_mask H (hn_Gt H (hn_LoadU H data i) (hn_Set H threshold))) st of
              None \<Rightarrow> None
            | Some st' \<Rightarrow> filter_gt_vec_loop H data threshold (i + hn_Lanes H) st')
      else Some (i, st))"
  by pat_completeness auto
termination
  by (relation "measure (\<lambda>(H, data, _, i, _). length data - i)") auto

declare filter_gt_vec_loop.simps [simp del]

definition filter_gt_i64_simd :: "hwy_ops \<Rightarrow> i64 list \<Rightarrow> i64 \<Rightarrow> u32 list \<Rightarrow> (u32 list \<times> nat) option" where
  "filter_gt_i64_simd H data threshold out =
     (case filter_gt_vec_loop H data threshold 0 (out, 0) of
        None \<Rightarrow> None
      | Some (i, st) \<Rightarrow>
          for_range i (length data)
            (\<lambda>i st. if threshold < data ! i then emit (of_nat i) st else Some st) st)"

definition filter_gt_i64 :: "hwy_ops \<Rightarrow> i64 list \<Rightarrow> i64 \<Rightarrow> selection_vector \<Rightarrow> selection_vector option" where
  "filter_gt_i64 H data threshold result =
     (let result = result\<lparr>sel_size := 0\<rparr>
      in map_option (\<lambda>(out, cnt). result\<lparr>indices := out, sel_size := cnt\<rparr>)
           (filter_gt_i64_simd H data threshold (indices result)))"

function bitmask_vec_loop :: "hwy_ops \<Rightarrow> i64 list \<Rightarrow> i64 \<Rightarrow> nat \<Rightarrow> nat \<Rightarrow> u64 list \<Rightarrow> (nat \<times> u64 list) option" where
  "bitmask_vec_loop H data threshold i bit_pos out =
     (if 0 < hn_Lanes H \<and> i + hn_Lanes H \<le> length data
      then (let word_idx = bit_pos div 64;
                bit_off = bit_pos mod 64;
                w = gather_mask H (hn_Gt H (hn_LoadU H data i) (hn_Set H threshold));
                w = (if hn_Lanes H < 64 then w AND (push_bit (hn_Lanes H) 1 - 1) else w)
            in (case Option.bind (or_word out word_idx (push_bit bit_off w))
                       (\<lambda>out. if 64 < bit_off + hn_Lanes H
                             then or_word out (word_idx + 1) (drop_bit (64 - bit_off) w)
                             else Some out) of
                  None \<Rightarrow> None
                | Some out \<Rightarrow> bitmask_vec_loop H data threshold (i + hn_Lanes H) (bit_pos + hn_Lanes H) out))
      else Some (i, out))"
  by pat_completeness auto
termination
  by (relation "measure (\<lambda>(H, data, _, i, _). length data - i)") auto

declare bitmask_vec_loop.simps [simp del]

definition filter_gt_i64_bitmask_impl :: "hwy_ops \<Rightarrow> i64 list \<Rightarrow> i64 \<Rightarrow> u64 list \<Rightarrow> u64 list option" where
  "filter_gt_i64_bitmask_impl H data threshold out =
     (case bitmask_vec_loop H data threshold 0 0 out of
        None \<Rightarrow> None
      | Some (i, out) \<Rightarrow>
          for_range i (length data)
            (\<lambda>i out. if threshold < data ! i then or_word out (i div 64) (push_bit (i mod 64) 1) else Some out) out)"

definition filter_gt_i64_bitmask :: "hwy_ops \<Rightarrow> i64 list \<Rightarrow> i64 \<Rightarrow> bit_mask \<Rightarrow> bit_mask option" where
  "filter_gt_i64_bitmask H data threshold result =
     (let result = bm_clear result
      in map_option (\<lambda>bs. result\<lparr>bits := bs\<rparr>) (filter_gt_i64_bitmask_impl H data threshold (bits result)))"

section \<open>Sums over a filter result\<close>

definition sum_i64_selected :: "i64 list \<Rightarrow> selection_vector \<Rightarrow> i64 option" where
  "sum_i64_selected data selection =
     for_range 0 (sel_size selection)
       (\<lambda>i acc. Option.bind (vec_get (indices selection) (int i))
          (\<lambda>k. map_option (\<lambda>x. wrap64 (acc + x)) (vec_get data (int (unat k))))) 0"

definition sum_i64_masked :: "i64 list \<Rightarrow> bit_mask \<Rightarrow> i64 option" where
  "sum_i64_masked data m =
     for_range 0 (num_words m)
       (\<lambda>w acc. Option.bind (vec_get (bits m) (int w))
          (\<lambda>x. each_bit (\<lambda>k acc. map_option (\<lambda>v. wrap64 (acc + v)) (vec_get data (int (w * 64 + k)))) x acc)) 0"

section \<open>Lemmas\<close>

lemma scalar_tail_eq: "scalar_tail xs (wrap64 r) = wrap64 (r + sum_list xs)"
  by (induction xs arbitrary: r) (simp_all add: add.assoc)

lemma sum_list_map2_wrap:
  "length u = length v \<Longrightarrow> wrap64 (c + sum_list (map2 (\<lambda>a b. wrap64 (a + b)) u v)) = wrap64 (c + sum_list u + sum_list v)"
proof (induction u v arbitrary: c rule: list_induct2)
  case (Cons a u b v)
  have "wrap64 (c + sum_list (map2 (\<lambda>a b. wrap64 (a + b)) (a # u) (b # v))) =
    wrap64 (wrap64 (a + b) + (c + sum_list (map2 (\<lambda>a b. wrap64 (a + b)) u v)))"
    by (simp add: algebra_simps)
  also have "\<dots> = wrap64 ((a + b + c) + sum_list (map2 (\<lambda>a b. wrap64 (a + b)) u v))"
    by (simp only: wrap64_add_left add.assoc)
  also have "\<dots> = wrap64 (a + b + c + sum_list u + sum_list v)" by (rule Cons.IH)
  finally show ?case by (simp add: algebra_simps)
qed simp

lemma sum_list_take_add:
  "sum_list (take (i + n) xs) = sum_list (take i xs) + sum_list (take n (drop i (xs :: int list)))"
  by (simp add: take_add)

lemma sum_take_drop: "sum_list (take i xs) + sum_list (drop i xs) = sum_list (xs :: int list)"
  by (metis append_take_drop_id sum_list_append)

definition lane_total :: "i64 list list \<Rightarrow> int" where
  "lane_total accs = sum_list (map sum_list accs)"

definition acc_inv :: "hwy_ops \<Rightarrow> i64 list \<Rightarrow> nat \<Rightarrow> i64 list list \<Rightarrow> bool" where
  "acc_inv H data i accs \<longleftrightarrow>
     i \<le> length data \<and> (\<forall>a \<in> set accs. length a = hn_Lanes H) \<and>
     wrap64 (lane_total accs) = wrap64 (sum_list (take i data))"

lemma hwy_add_sum:
  assumes "hwy_documented H" "length u = hn_Lanes H" "length v = hn_Lanes H"
  shows "length (hn_Add H u v) = hn_Lanes H"
    and "wrap64 (c + sum_list (hn_Add H u v)) = wrap64 (c + sum_list u + sum_list v)"
  using assms by (auto simp: hwy_documented_def sum_list_map2_wrap)

lemma lane_total_add:
  assumes H: "hwy_documented H" and "\<forall>a \<in> set us. length a = hn_Lanes H" "\<forall>a \<in> set vs. length a = hn_Lanes H"
    and "length us = length vs"
  shows "wrap64 (c + lane_total (map2 (hn_Add H) us vs)) = wrap64 (c + lane_total us + lane_total vs)"
  using assms(4,2,3)
proof (induction us vs arbitrary: c rule: list_induct2)
  case (Cons u us v vs)
  have "wrap64 (c + lane_total (map2 (hn_Add H) (u # us) (v # vs))) =
      wrap64 ((c + lane_total (map2 (hn_Add H) us vs)) + sum_list (hn_Add H u v))"
    by (simp add: lane_total_def algebra_simps)
  also have "\<dots> = wrap64 ((c + lane_total (map2 (hn_Add H) us vs)) + sum_list u + sum_list v)"
    using Cons.prems by (intro hwy_add_sum(2) [OF H]) auto
  also have "\<dots> = wrap64 ((c + sum_list u + sum_list v) + lane_total (map2 (hn_Add H) us vs))"
    by (simp add: algebra_simps)
  also have "\<dots> = wrap64 (c + sum_list u + sum_list v + lane_total us + lane_total vs)"
    using Cons.prems by (intro Cons.IH) auto
  finally show ?case by (simp add: lane_total_def algebra_simps)
qed (simp add: lane_total_def)

text \<open>Loading \<open>U\<close> consecutive registers reads the next \<open>U * N\<close> elements.\<close>

lemma lane_total_loads:
  assumes H: "hwy_documented H"
  shows "i + hn_Lanes H * U \<le> length data \<Longrightarrow>
    lane_total (map (\<lambda>j. hn_LoadU H data (i + j * hn_Lanes H)) [0..<U]) =
      sum_list (take (hn_Lanes H * U) (drop i data))"
proof (induction U)
  case (Suc U)
  let ?N = "hn_Lanes H"
  have "hn_LoadU H data (i + U * ?N) = take ?N (drop (?N * U) (drop i data))"
    using H Suc.prems by (auto simp: hwy_documented_def algebra_simps)
  moreover have "?N * Suc U = ?N * U + ?N" by simp
  ultimately show ?case
    using Suc by (simp add: lane_total_def sum_list_take_add [of "?N * U" ?N] del: mult_Suc_right)
qed (simp add: lane_total_def)

lemma simd_acc_loop_inv:
  assumes H: "hwy_documented H" and "acc_inv H data i accs"
  shows "case simd_acc_loop H data i accs of (i', accs') \<Rightarrow> acc_inv H data i' accs' \<and> length accs' = length accs"
  using assms
proof (induction H data i accs rule: simd_acc_loop.induct)
  case (1 H data i accs)
  let ?N = "hn_Lanes H" and ?U = "length accs"
  let ?loads = "map (\<lambda>j. hn_LoadU H data (i + j * ?N)) [0..<?U]"
  let ?accs' = "map (\<lambda>j. hn_Add H (accs ! j) (hn_LoadU H data (i + j * ?N))) [0..<?U]"
  show ?case
  proof (cases "0 < ?N * ?U \<and> i + ?N * ?U \<le> length data")
    case True
    have bound: "i + j * ?N + ?N \<le> length data" if "j < ?U" for j
    proof -
      have "Suc j * ?N \<le> ?U * ?N" using that by (intro mult_le_mono1) simp
      with True show ?thesis by (simp add: algebra_simps)
    qed
    have lens: "length (hn_LoadU H data (i + j * ?N)) = ?N" if "j < ?U" for j
      using bound [OF that] 1(2) by (auto simp: hwy_documented_def)
    have accs: "\<forall>a \<in> set accs. length a = ?N" using 1(3) by (simp add: acc_inv_def)
    have eq: "?accs' = map2 (hn_Add H) accs ?loads" by (rule nth_equalityI) auto
    have "wrap64 (lane_total ?accs') = wrap64 (lane_total accs + lane_total ?loads)"
      using lane_total_add [OF 1(2) accs, of ?loads 0] lens by (simp add: eq)
    also have "\<dots> = wrap64 (wrap64 (lane_total accs) + sum_list (take (?N * ?U) (drop i data)))"
      using True by (simp add: lane_total_loads [OF 1(2)])
    also have "\<dots> = wrap64 (sum_list (take (i + ?N * ?U) data))"
      using 1(3) by (simp add: acc_inv_def sum_list_take_add)
    finally have "acc_inv H data (i + ?N * ?U) ?accs'"
      using True accs lens by (auto simp: acc_inv_def hwy_add_sum(1) [OF 1(2)])
    from 1(1) [OF True 1(2) this] True show ?thesis by (subst simd_acc_loop.simps) simp
  next
    case False
    with 1(3) show ?thesis by (subst simd_acc_loop.simps) auto
  qed
qed

lemma simd_acc_loop_exits:
  assumes "hwy_documented H" "acc_inv H data i accs" "simd_acc_loop H data i accs = (i', accs')"
  shows "acc_inv H data i' accs'" "length accs' = length accs"
  using simd_acc_loop_inv [OF assms(1,2)] assms(3) by simp_all

lemma acc_inv_zero: "hwy_documented H \<Longrightarrow> acc_inv H data 0 (replicate U (hn_Zero H))"
  by (auto simp: acc_inv_def lane_total_def hwy_documented_def sum_list_replicate)

lemma acc_inv_merge:
  assumes H: "hwy_documented H" and inv: "acc_inv H data i (u # v # accs)"
  shows "acc_inv H data i (hn_Add H u v # accs)"
proof -
  have "length u = hn_Lanes H" "length v = hn_Lanes H" using inv by (auto simp: acc_inv_def)
  note add = hwy_add_sum [OF H this]
  have "wrap64 (lane_total (hn_Add H u v # accs)) = wrap64 (lane_total (u # v # accs))"
    using add(2) [of "lane_total accs"] by (simp add: lane_total_def algebra_simps)
  with inv add(1) show ?thesis by (simp add: acc_inv_def)
qed

lemma acc_inv_perm: "mset accs = mset accs' \<Longrightarrow> acc_inv H data i accs = acc_inv H data i accs'"
  unfolding acc_inv_def lane_total_def
  by (metis mset_eq_setD mset_map sum_mset_sum_list)

lemma finish_sum:
  assumes H: "hwy_documented H" and inv: "acc_inv H data i [acc]"
  shows "(case simd_acc_loop H data i [acc] of (i, accs) \<Rightarrow>
           scalar_tail (drop i data) (hn_ReduceSum H (accs ! 0))) = wrap64 (sum_list data)"
proof -
  obtain i' accs' where run: "simd_acc_loop H data i [acc] = (i', accs')" by fastforce
  note ex = simd_acc_loop_exits [OF H inv run]
  then obtain a where a: "accs' = [a]" by (auto simp: length_Suc_conv)
  with ex(1) have "length a = hn_Lanes H" "wrap64 (sum_list a) = wrap64 (sum_list (take i' data))"
    by (auto simp: acc_inv_def lane_total_def)
  with H have "hn_ReduceSum H a = wrap64 (sum_list (take i' data))" by (simp add: hwy_documented_def)
  then show ?thesis by (simp add: run a scalar_tail_eq sum_take_drop)
qed

lemma length_4: "length xs = 4 \<Longrightarrow> xs = [xs ! 0, xs ! 1, xs ! 2, xs ! 3]"
  by (auto simp: numeral_eq_Suc length_Suc_conv)

lemma length_8: "length xs = 8 \<Longrightarrow> xs = [xs ! 0, xs ! 1, xs ! 2, xs ! 3, xs ! 4, xs ! 5, xs ! 6, xs ! 7]"
  by (auto simp: numeral_eq_Suc length_Suc_conv)

lemma merge_four:
  assumes H: "hwy_documented H" and inv: "acc_inv H data i (a # b # c # d # accs)"
  shows "acc_inv H data i (hn_Add H (hn_Add H a b) (hn_Add H c d) # accs)"
proof -
  have "acc_inv H data i (hn_Add H a b # c # d # accs)" by (rule acc_inv_merge [OF H inv])
  then have "acc_inv H data i (c # d # hn_Add H a b # accs)" by (subst acc_inv_perm) simp_all
  then have "acc_inv H data i (hn_Add H c d # hn_Add H a b # accs)" by (rule acc_inv_merge [OF H])
  then have "acc_inv H data i (hn_Add H a b # hn_Add H c d # accs)" by (subst acc_inv_perm) simp_all
  then show ?thesis by (rule acc_inv_merge [OF H])
qed

lemma sum_i64_simd_eq:
  assumes H: "hwy_documented H"
  shows "sum_i64_simd H data = wrap64 (sum_list data)"
proof -
  obtain i accs where run: "simd_acc_loop H data 0 (replicate 4 (hn_Zero H)) = (i, accs)" by fastforce
  note ex = simd_acc_loop_exits [OF H acc_inv_zero [OF H] run]
  have "acc_inv H data i [accs ! 0, accs ! 1, accs ! 2, accs ! 3]"
    using ex length_4 [of accs] by simp
  from finish_sum [OF H merge_four [OF H this]] show ?thesis
    by (simp add: sum_i64_simd_def run)
qed

lemma sum_i64_simd_v2_impl_eq:
  assumes H: "hwy_documented H"
  shows "sum_i64_simd_v2_impl H data = wrap64 (sum_list data)"
proof -
  obtain i accs where run: "simd_acc_loop H data 0 (replicate 8 (hn_Zero H)) = (i, accs)" by fastforce
  note ex = simd_acc_loop_exits [OF H acc_inv_zero [OF H] run]
  have "acc_inv H data i [accs ! 0, accs ! 1, accs ! 2, accs ! 3, accs ! 4, accs ! 5, accs ! 6, accs ! 7]"
    using ex length_8 [of accs] by simp
  from merge_four [OF H this]
  have "acc_inv H data i [accs ! 4, accs ! 5, accs ! 6, accs ! 7,
      hn_Add H (hn_Add H (accs ! 0) (accs ! 1)) (hn_Add H (accs ! 2) (accs ! 3))]"
    by (subst acc_inv_perm) simp_all
  from merge_four [OF H this]
  have "acc_inv H data i [hn_Add H (hn_Add H (accs ! 0) (accs ! 1)) (hn_Add H (accs ! 2) (accs ! 3)),
      hn_Add H (hn_Add H (accs ! 4) (accs ! 5)) (hn_Add H (accs ! 6) (accs ! 7))]"
    by (subst acc_inv_perm) simp_all
  from finish_sum [OF H acc_inv_merge [OF H this]] show ?thesis
    by (simp add: sum_i64_simd_v2_impl_def run)
qed

lemma fast_loop_sum:
  assumes "i \<le> length data" "wrap64 (s0 + s1 + s2 + s3) = wrap64 (sum_list (take i data))"
    and "fast_loop data i s0 s1 s2 s3 = (j, t0, t1, t2, t3)"
  shows "wrap64 (t0 + t1 + t2 + t3) = wrap64 (sum_list (take j data))"
  using assms
proof (induction data i s0 s1 s2 s3 rule: fast_loop.induct)
  case (1 data i s0 s1 s2 s3)
  show ?case
  proof (cases "i + 16 \<le> length data")
    case True
    have chunk: "take (i + 16) data = take i data @ map (\<lambda>k. data ! (i + k)) [0..<16]"
      using True by (auto simp: take_add intro!: nth_equalityI)
    have w4: "wrap64 (wrap64 a + wrap64 b + wrap64 c + wrap64 d) = wrap64 (a + b + c + d)" for a b c d
      by (metis add.assoc wrap64_add_left wrap64_add_right add.commute)
    let ?x = "\<lambda>k. data ! (i + k)"
    let ?c = "\<lambda>k. wrap64 (wrap64 (wrap64 (?x k + ?x (k + 4)) + ?x (k + 8)) + ?x (k + 12))"
    have c: "wrap64 (s + ?c k) = wrap64 (s + (?x k + ?x (k + 4) + ?x (k + 8) + ?x (k + 12)))" for s k
      by simp
    have "wrap64 (wrap64 (s0 + ?c 0) + wrap64 (s1 + ?c 1) + wrap64 (s2 + ?c 2) + wrap64 (s3 + ?c 3)) =
        wrap64 ((s0 + s1 + s2 + s3) + sum_list (map ?x [0..<16]))"
      unfolding c w4 by (simp add: upt_rec eval_nat_numeral add_ac)
    also have "\<dots> = wrap64 (wrap64 (s0 + s1 + s2 + s3) + sum_list (map ?x [0..<16]))" by simp
    also have "\<dots> = wrap64 (sum_list (take (i + 16) data))" by (simp only: 1(3) chunk wrap64_add_left sum_list_append)
    finally show ?thesis
      using 1(1) [OF True] 1(4) True by (simp add: fast_loop.simps [of data i] add_ac)
  next
    case False
    with 1(3,4) show ?thesis by (simp add: fast_loop.simps [of data i])
  qed
qed

lemma sum_i64_fast_eq: "sum_i64_fast data = wrap64 (sum_list data)"
proof -
  obtain i t0 t1 t2 t3 where run: "fast_loop data 0 0 0 0 0 = (i, t0, t1, t2, t3)"
    by (metis prod_cases5)
  have tail: "wrap64 (scalar_tail xs r + c) = wrap64 (r + sum_list xs + c)" for xs r c
  proof (induction xs arbitrary: r)
    case (Cons x xs)
    have "wrap64 (scalar_tail (x # xs) r + c) = wrap64 (wrap64 (r + x) + (sum_list xs + c))"
      by (simp only: scalar_tail.simps Cons.IH add.assoc)
    then show ?case by (simp only: wrap64_add_left add.assoc sum_list.Cons)
  qed simp
  have "sum_i64_fast data = wrap64 (scalar_tail (drop i data) t0 + (t1 + t2 + t3))"
    by (simp add: sum_i64_fast_def run add.assoc [symmetric])
  also have "\<dots> = wrap64 (wrap64 (t0 + t1 + t2 + t3) + sum_list (drop i data))"
    unfolding tail by (simp add: add_ac)
  also have "\<dots> = wrap64 (sum_list (take i data) + sum_list (drop i data))"
    using fast_loop_sum [OF _ _ run] by simp
  finally show ?thesis by (simp add: sum_take_drop)
qed

section \<open>Bits\<close>

text \<open>The positions the loop visits: the set bits, lowest first.\<close>

definition bit_positions :: "u64 \<Rightarrow> nat list" where
  "bit_positions w = filter (bit w) [0..<64]"

lemma bit_positions_0 [simp]: "bit_positions 0 = []"
  unfolding bit_positions_def by (rule filter_False) (auto simp del: upt_rec_numeral set_upt)

lemma bit_positions_step:
  assumes "w \<noteq> 0"
  shows "bit_positions w = ctz64 w # bit_positions (w AND (w - 1))"
proof -
  have "bit (w AND (w - 1)) = (\<lambda>k. bit w k \<and> k \<noteq> ctz64 w)"
    by (rule ext) (rule bit_clear_lowest [OF assms])
  then show ?thesis
    unfolding bit_positions_def
    using filter_first [of "ctz64 w" 64 "bit w"] ctz64_least [OF assms] by metis
qed

lemma each_bit_eq: "each_bit body w s = run_list body (bit_positions w) s"
proof (induction body w s rule: each_bit.induct)
  case (1 body w s)
  show ?case
  proof (cases "w = 0")
    case True
    then show ?thesis by (simp add: each_bit.simps)
  next
    case False
    then show ?thesis
      unfolding bit_positions_step [OF False] each_bit.simps [of body w]
      using 1 [OF False] by (simp split: option.split)
  qed
qed

lemma bit_fold_or: "bit (fold (\<lambda>b w. w OR f b) bs w) k \<longleftrightarrow> bit w k \<or> (\<exists>b \<in> set bs. bit (f b) k)"
  by (induction bs arbitrary: w) (auto simp: bit_simps)

lemma bit_gather_mask:
  assumes H: "hwy_documented H" and m: "length m = hn_Lanes H"
  shows "bit (gather_mask H m) k \<longleftrightarrow> k < hn_Lanes H \<and> m ! k"
proof -
  let ?nb = "(hn_Lanes H + 7) div 8"
  have N: "hn_Lanes H \<le> 64" using H by (simp add: hwy_documented_def)
  have byte: "bit (hn_StoreMaskBits H m ! b) j \<longleftrightarrow> j < 8 \<and> b * 8 + j < hn_Lanes H \<and> m ! (b * 8 + j)"
    if "b < ?nb" for b j
    using H m that by (auto simp: hwy_documented_def bit_horner_sum_bit_word_iff simp del: upt_rec_numeral)
  have "bit (gather_mask H m) k \<longleftrightarrow>
      (\<exists>b < ?nb. k < 64 \<and> b * 8 \<le> k \<and> bit (hn_StoreMaskBits H m ! b) (k - b * 8))"
    unfolding gather_mask_def bit_fold_or by (auto simp: bit_simps)
  also have "\<dots> \<longleftrightarrow> (\<exists>b < ?nb. k < 64 \<and> b * 8 \<le> k \<and> k - b * 8 < 8 \<and> k < hn_Lanes H \<and> m ! k)"
    using byte by (intro ex_cong1) auto
  also have "\<dots> \<longleftrightarrow> k < hn_Lanes H \<and> m ! k"
  proof (intro iffI)
    assume k: "k < hn_Lanes H \<and> m ! k"
    then have "k div 8 < ?nb" "k div 8 * 8 \<le> k" "k - k div 8 * 8 < 8" "k < 64" using N by linarith+
    with k show "\<exists>b < ?nb. k < 64 \<and> b * 8 \<le> k \<and> k - b * 8 < 8 \<and> k < hn_Lanes H \<and> m ! k" by blast
  qed blast
  finally show ?thesis .
qed

lemma bit_gt_mask:
  assumes H: "hwy_documented H" and i: "i + hn_Lanes H \<le> length data"
  shows "bit (gather_mask H (hn_Gt H (hn_LoadU H data i) (hn_Set H thr))) k \<longleftrightarrow>
           k < hn_Lanes H \<and> thr < data ! (i + k)"
proof -
  have "hn_Gt H (hn_LoadU H data i) (hn_Set H thr) = map (\<lambda>x. thr < x) (take (hn_Lanes H) (drop i data))"
    using H i by (auto simp: hwy_documented_def intro!: nth_equalityI)
  with i show ?thesis by (auto simp: bit_gather_mask [OF H])
qed

lemma gt_mask_positions:
  assumes H: "hwy_documented H" and i: "i + hn_Lanes H \<le> length data"
  shows "map ((+) i) (bit_positions (gather_mask H (hn_Gt H (hn_LoadU H data i) (hn_Set H thr)))) =
           filter (\<lambda>k. thr < data ! k) [i..<i + hn_Lanes H]"
proof -
  have "hn_Lanes H \<le> 64" using H by (simp add: hwy_documented_def)
  then show ?thesis
    unfolding bit_positions_def bit_gt_mask [OF assms, abs_def]
    by (simp only: filter_upt_bound map_filter_upt_shift [of i "\<lambda>k. thr < data ! k"])
qed

section \<open>The selection vector filter\<close>

text \<open>The passing rows, the reference both filters are compared with.\<close>

definition passing_rows :: "i64 list \<Rightarrow> i64 \<Rightarrow> nat list" where
  "passing_rows data threshold = filter (\<lambda>k. threshold < data ! k) [0..<length data]"

lemma filter_gt_vec_loop_eq:
  assumes "hwy_documented H" "i \<le> length data"
  shows "\<exists>j. i \<le> j \<and> j \<le> length data \<and>
    filter_gt_vec_loop H data thr i st =
      map_option (Pair j) (run_list (\<lambda>k. emit (of_nat k)) (filter (\<lambda>k. thr < data ! k) [i..<j]) st)"
  using assms
proof (induction H data thr i st rule: filter_gt_vec_loop.induct)
  case (1 H data thr i st)
  let ?N = "hn_Lanes H" and ?e = "\<lambda>k. emit (of_nat k)"
  let ?w = "gather_mask H (hn_Gt H (hn_LoadU H data i) (hn_Set H thr))"
  show ?case
  proof (cases "0 < ?N \<and> i + ?N \<le> length data")
    case True
    have "each_bit (\<lambda>k. emit (of_nat (i + k))) ?w st = run_list ?e (map ((+) i) (bit_positions ?w)) st"
      unfolding each_bit_eq run_list_map ..
    then have step: "each_bit (\<lambda>k. emit (of_nat (i + k))) ?w st =
        run_list ?e (filter (\<lambda>k. thr < data ! k) [i..<i + ?N]) st"
      using True by (simp only: gt_mask_positions [OF 1(2)])
    show ?thesis
    proof (cases "run_list ?e (filter (\<lambda>k. thr < data ! k) [i..<i + ?N]) st")
      case None
      then show ?thesis
        using True 1(3) step by (intro exI [of _ "i + ?N"]) (subst filter_gt_vec_loop.simps, simp)
    next
      case (Some st')
      obtain j where j: "i + ?N \<le> j" "j \<le> length data"
        "filter_gt_vec_loop H data thr (i + ?N) st' =
           map_option (Pair j) (run_list ?e (filter (\<lambda>k. thr < data ! k) [i + ?N..<j]) st')"
        using 1(1) [OF True _ 1(2), of st'] True Some step by auto
      have "[i..<j] = [i..<i + ?N] @ [i + ?N..<j]" using j by (intro upt_split) auto
      then show ?thesis
        using True j Some step
        by (intro exI [of _ j]) (subst filter_gt_vec_loop.simps, simp add: run_list_append)
    qed
  next
    case False
    then show ?thesis using 1(3)
      by (intro exI [of _ i]) (subst filter_gt_vec_loop.simps, auto)
  qed
qed

lemma run_list_filter:
  "run_list (\<lambda>x s. if P x then body x s else Some s) xs s = run_list body (filter P xs) s"
  by (induction xs arbitrary: s) (auto split: option.splits)

lemma filter_gt_i64_simd_eq:
  assumes "hwy_documented H"
  shows "filter_gt_i64_simd H data thr out = run_list (\<lambda>k. emit (of_nat k)) (passing_rows data thr) (out, 0)"
proof -
  obtain j where j: "j \<le> length data" "filter_gt_vec_loop H data thr 0 (out, 0) =
      map_option (Pair j) (run_list (\<lambda>k. emit (of_nat k)) (filter (\<lambda>k. thr < data ! k) [0..<j]) (out, 0))"
    using filter_gt_vec_loop_eq [OF assms, of 0 data thr "(out, 0)"] by auto
  have split: "[0..<length data] = [0..<j] @ [j..<length data]" using j by (intro upt_split) auto
  show ?thesis
    unfolding filter_gt_i64_simd_def passing_rows_def split j(2) for_range_run_list run_list_filter
    by (simp add: run_list_append split: option.splits)
qed

lemma run_emit:
  assumes "cnt + length vs \<le> length out"
  shows "run_list emit vs (out, cnt) =
    Some (take cnt out @ vs @ drop (cnt + length vs) out, cnt + length vs)"
  using assms
proof (induction vs arbitrary: out cnt)
  case (Cons v vs)
  have "emit v (out, cnt) = Some (out[cnt := v], Suc cnt)" using Cons.prems by (simp add: emit_def)
  moreover have "take (Suc cnt) (out[cnt := v]) = take cnt out @ [v]"
    using Cons.prems by (simp add: take_Suc_conv_app_nth)
  moreover have "drop (Suc cnt + length vs) (out[cnt := v]) = drop (Suc cnt + length vs) out"
    by simp
  ultimately show ?case using Cons.IH [of "Suc cnt" "out[cnt := v]"] Cons.prems by simp
qed simp

lemma filter_gt_i64_eq:
  assumes "hwy_documented H" "length (passing_rows data thr) \<le> length (indices sv)"
  shows "filter_gt_i64 H data thr sv = Some (sv\<lparr>
    indices := map of_nat (passing_rows data thr) @ drop (length (passing_rows data thr)) (indices sv),
    sel_size := length (passing_rows data thr)\<rparr>)"
proof -
  have "run_list (\<lambda>k. emit (of_nat k)) (passing_rows data thr) (indices sv, 0) =
      run_list emit (map of_nat (passing_rows data thr)) (indices sv, 0)"
    by (simp add: run_list_map)
  with assms show ?thesis
    by (simp add: filter_gt_i64_def filter_gt_i64_simd_eq run_emit)
qed

lemma length_passing_rows: "length (passing_rows data thr) \<le> length data"
  unfolding passing_rows_def by (metis length_filter_le length_upt diff_zero)

lemma map_passing_rows: "map ((!) data) (passing_rows data thr) = filter (\<lambda>x. thr < x) data"
proof -
  have "filter (\<lambda>x. thr < x) (map ((!) data) [0..<length data]) = map ((!) data) (passing_rows data thr)"
    by (simp add: filter_map passing_rows_def comp_def)
  then show ?thesis by (simp add: map_nth)
qed

lemma run_sum:
  assumes "\<And>k. k \<in> set ks \<Longrightarrow> get k = Some (f k)"
  shows "run_list (\<lambda>k acc. map_option (\<lambda>x. wrap64 (acc + x)) (get k)) ks (wrap64 a) = Some (wrap64 (a + sum_list (map f ks)))"
  using assms by (induction ks arbitrary: a) (simp_all add: add.assoc)

lemma sum_i64_selected_eq:
  assumes "sel_size sv \<le> length (indices sv)"
    and "\<And>k. k \<in> set (take (sel_size sv) (indices sv)) \<Longrightarrow> unat k < length data"
  shows "sum_i64_selected data sv =
    Some (wrap64 (sum_list (map (\<lambda>k. data ! unat k) (take (sel_size sv) (indices sv)))))"
proof -
  let ?n = "sel_size sv" and ?ix = "indices sv"
  let ?get = "\<lambda>i. Option.bind (vec_get ?ix (int i)) (\<lambda>k. vec_get data (int (unat k)))"
  have "sum_i64_selected data sv =
      run_list (\<lambda>i acc. map_option (\<lambda>x. wrap64 (acc + x)) (?get i)) [0..<?n] (wrap64 0)"
    unfolding sum_i64_selected_def for_range_run_list
    by (rule arg_cong3 [where f = run_list]) (auto split: bind_splits)
  also have "\<dots> = Some (wrap64 (0 + sum_list (map (\<lambda>i. data ! unat (?ix ! i)) [0..<?n])))"
  proof (rule run_sum)
    fix i assume "i \<in> set [0..<?n]"
    then have "i < ?n" "i < length ?ix" using assms(1) by auto
    then have "?ix ! i \<in> set (take ?n ?ix)" by (metis in_set_conv_nth length_take min_less_iff_conj nth_take)
    then have "vec_get data (int (unat (?ix ! i))) = Some (data ! unat (?ix ! i))"
      by (intro vec_get_nat assms(2))
    with \<open>i < length ?ix\<close> show "?get i = Some (data ! unat (?ix ! i))" by simp
  qed
  also have "map (\<lambda>i. data ! unat (?ix ! i)) [0..<?n] = map (\<lambda>k. data ! unat k) (take ?n ?ix)"
    using assms(1) by (auto intro!: nth_equalityI)
  finally show ?thesis by simp
qed

section \<open>The bit mask filter\<close>

definition bits_bit :: "u64 list \<Rightarrow> nat \<Rightarrow> bool" where
  "bits_bit bs k \<longleftrightarrow> bit (bs ! (k div 64)) (k mod 64)"

lemma or_word_bits:
  assumes "w < length bs"
  shows "\<exists>bs'. or_word bs w x = Some bs' \<and> length bs' = length bs \<and>
    (\<forall>k < 64 * length bs. bits_bit bs' k \<longleftrightarrow> bits_bit bs k \<or> (k div 64 = w \<and> bit x (k mod 64)))"
  using assms by (auto simp: or_word_def bits_bit_def nth_list_update bit_or_iff)

lemma single_bit:
  "k div 64 = i div 64 \<and> bit (push_bit (i mod 64) 1 :: u64) (k mod 64) \<longleftrightarrow> k = i"
  by (auto simp: bit_simps) (metis div_mult_mod_eq)

lemma or_word_single:
  assumes "i < 64 * length bs"
  shows "\<exists>bs'. or_word bs (i div 64) (push_bit (i mod 64) 1) = Some bs' \<and> length bs' = length bs \<and>
    (\<forall>k < 64 * length bs. bits_bit bs' k \<longleftrightarrow> bits_bit bs k \<or> k = i)"
proof -
  have "i div 64 < length bs" using assms by (simp add: less_mult_imp_div_less mult.commute)
  from or_word_bits [OF this, of "push_bit (i mod 64) 1"] show ?thesis unfolding single_bit .
qed

definition mask_inv :: "i64 list \<Rightarrow> i64 \<Rightarrow> nat \<Rightarrow> nat \<Rightarrow> u64 list \<Rightarrow> bool" where
  "mask_inv data thr nw i bs \<longleftrightarrow> length bs = nw \<and>
     (\<forall>k < 64 * nw. bits_bit bs k \<longleftrightarrow> k < i \<and> thr < data ! k)"

lemma mask_inv_tail:
  assumes "mask_inv data thr nw i bs" "i < length data" "length data \<le> 64 * nw"
  shows "\<exists>bs'. (if thr < data ! i then or_word bs (i div 64) (push_bit (i mod 64) 1) else Some bs) = Some bs'
    \<and> mask_inv data thr nw (Suc i) bs'"
proof (cases "thr < data ! i")
  case True
  have "i < 64 * length bs" using assms by (simp add: mask_inv_def)
  from or_word_single [OF this] obtain bs' where bs':
    "or_word bs (i div 64) (push_bit (i mod 64) 1) = Some bs'" "length bs' = length bs"
    "\<And>k. k < 64 * length bs \<Longrightarrow> bits_bit bs' k \<longleftrightarrow> bits_bit bs k \<or> k = i" by blast
  have "mask_inv data thr nw (Suc i) bs'"
    using assms(1) True bs' by (auto simp: mask_inv_def less_Suc_eq)
  with True bs'(1) show ?thesis by auto
next
  case False
  with assms show ?thesis by (auto simp: mask_inv_def less_Suc_eq)
qed

text \<open>One register of the bit mask filter: \<open>N\<close> bits stored at \<open>i\<close>, over one or two words.\<close>

lemma store_lanes:
  assumes N: "0 < N" "N \<le> 64" and fit: "i + N \<le> 64 * length bs"
    and x: "\<And>k. bit (x :: u64) k \<longleftrightarrow> k < N \<and> P (i + k)"
  shows "\<exists>bs'. Option.bind (or_word bs (i div 64) (push_bit (i mod 64) x))
       (\<lambda>bs. if 64 < i mod 64 + N then or_word bs (i div 64 + 1) (drop_bit (64 - i mod 64) x) else Some bs) = Some bs'
    \<and> length bs' = length bs
    \<and> (\<forall>k < 64 * length bs. bits_bit bs' k \<longleftrightarrow> bits_bit bs k \<or> (i \<le> k \<and> k < i + N \<and> P k))"
proof -
  let ?w = "i div 64" and ?o = "i mod 64"
  have i: "i = 64 * ?w + ?o" "?o < 64" by simp_all
  have "?w < length bs" using fit N by auto
  from or_word_bits [OF this, of "push_bit ?o x"] obtain b1 where b1:
    "or_word bs ?w (push_bit ?o x) = Some b1" "length b1 = length bs"
    "\<And>k. k < 64 * length bs \<Longrightarrow> bits_bit b1 k \<longleftrightarrow>
       bits_bit bs k \<or> (k div 64 = ?w \<and> bit (push_bit ?o x) (k mod 64))" by blast
  have low: "k div 64 = ?w \<and> bit (push_bit ?o x) (k mod 64) \<longleftrightarrow> k div 64 = ?w \<and> i \<le> k \<and> k < i + N \<and> P k" for k
  proof (cases "k div 64 = ?w \<and> ?o \<le> k mod 64")
    case True
    then have "i \<le> k" "k mod 64 - ?o = k - i" "k < i + 64"
      using div_mult_mod_eq [of k 64] div_mult_mod_eq [of i 64] by linarith+
    with True show ?thesis by (auto simp: bit_simps x)
  next
    case False
    then have "\<not> (k div 64 = ?w \<and> i \<le> k)"
      using div_mult_mod_eq [of k 64] div_mult_mod_eq [of i 64] by linarith
    with False show ?thesis by (auto simp: bit_simps)
  qed
  show ?thesis
  proof (cases "64 < ?o + N")
    case True
    have "?w + 1 < length b1" using True fit i(1) b1(2) by linarith
    from or_word_bits [OF this, of "drop_bit (64 - ?o) x"] obtain b2 where b2:
      "or_word b1 (?w + 1) (drop_bit (64 - ?o) x) = Some b2" "length b2 = length b1"
      "\<And>k. k < 64 * length b1 \<Longrightarrow> bits_bit b2 k \<longleftrightarrow>
         bits_bit b1 k \<or> (k div 64 = ?w + 1 \<and> bit (drop_bit (64 - ?o) x) (k mod 64))" by blast
    have high: "k div 64 = ?w + 1 \<and> bit (drop_bit (64 - ?o) x) (k mod 64) \<longleftrightarrow>
        k div 64 = ?w + 1 \<and> i \<le> k \<and> k < i + N \<and> P k" for k
    proof (cases "k div 64 = ?w + 1")
      case True
      then have "i \<le> k" "64 - ?o + k mod 64 = k - i"
        using div_mult_mod_eq [of k 64] div_mult_mod_eq [of i 64] i(2) by linarith+
      with True show ?thesis by (auto simp: bit_simps x)
    qed auto
    have mid: "k div 64 = ?w \<or> k div 64 = ?w + 1" if "i \<le> k" "k < i + N" for k
    proof -
      have "k < 64 * ?w + 128" using that i N by linarith
      with that show ?thesis by (simp add: div_le_mono less_mult_imp_div_less) linarith
    qed
    have "bits_bit b2 k \<longleftrightarrow> bits_bit bs k \<or> (i \<le> k \<and> k < i + N \<and> P k)" if "k < 64 * length bs" for k
      using that b1(2) b1(3) [OF that] b2(3) [of k] low [of k] high [of k] mid [of k] by metis
    then show ?thesis using True b1(1,2) b2(1,2) by auto
  next
    case False
    have mid: "k div 64 = ?w" if "i \<le> k" "k < i + N" for k
    proof -
      have "64 * ?w \<le> k" "k < 64 * ?w + 64" using that i False by linarith+
      then show ?thesis by linarith
    qed
    have "bits_bit b1 k \<longleftrightarrow> bits_bit bs k \<or> (i \<le> k \<and> k < i + N \<and> P k)" if "k < 64 * length bs" for k
      using b1(3) [OF that] low [of k] mid [of k] by metis
    then show ?thesis using False b1(1,2) by auto
  qed
qed

lemma bitmask_vec_loop_inv:
  assumes "hwy_documented H" "i \<le> length data" "length data \<le> 64 * nw" "mask_inv data thr nw i bs"
  shows "\<exists>j bs'. bitmask_vec_loop H data thr i i bs = Some (j, bs') \<and> j \<le> length data \<and> mask_inv data thr nw j bs'"
  using assms(2,4)
proof (induction "length data - i" arbitrary: i bs rule: less_induct)
  case less
  let ?N = "hn_Lanes H"
  let ?w = "gather_mask H (hn_Gt H (hn_LoadU H data i) (hn_Set H thr))"
  let ?x = "if ?N < 64 then ?w AND (push_bit ?N 1 - 1) else ?w"
  note H = assms(1)
  have N: "0 < ?N" "?N \<le> 64" using H by (simp_all add: hwy_documented_def)
  show ?case
  proof (cases "i + ?N \<le> length data")
    case True
    have x: "bit ?x k \<longleftrightarrow> k < ?N \<and> thr < data ! (i + k)" for k
      using bit_gt_mask [OF H True, of thr k] N
      by (auto simp: push_bit_of_1 bit_simps simp flip: mask_eq_exp_minus_1)
    have "i + ?N \<le> 64 * length bs" using True assms(3) less.prems(2) by (simp add: mask_inv_def)
    from store_lanes [OF N this, of ?x "\<lambda>k. thr < data ! k"] x obtain bs' where bs':
      "Option.bind (or_word bs (i div 64) (push_bit (i mod 64) ?x))
       (\<lambda>bs. if 64 < i mod 64 + ?N then or_word bs (i div 64 + 1) (drop_bit (64 - i mod 64) ?x) else Some bs) = Some bs'"
      "length bs' = length bs"
      "\<And>k. k < 64 * length bs \<Longrightarrow> bits_bit bs' k \<longleftrightarrow> bits_bit bs k \<or> (i \<le> k \<and> k < i + ?N \<and> thr < data ! k)"
      by blast
    have "mask_inv data thr nw (i + ?N) bs'"
      using less.prems(2) bs'(2,3) by (auto simp: mask_inv_def)
    moreover have "length data - (i + ?N) < length data - i" using N True by linarith
    ultimately obtain j b where
      "bitmask_vec_loop H data thr (i + ?N) (i + ?N) bs' = Some (j, b)" "j \<le> length data" "mask_inv data thr nw j b"
      using less.hyps True by blast
    with True N bs'(1) show ?thesis by (subst bitmask_vec_loop.simps) (simp add: Let_def)
  next
    case False
    with less.prems show ?thesis by (subst bitmask_vec_loop.simps) auto
  qed
qed

lemma filter_gt_i64_bitmask_impl_inv:
  assumes "hwy_documented H" "length data \<le> 64 * nw" "mask_inv data thr nw 0 bs"
  shows "\<exists>bs'. filter_gt_i64_bitmask_impl H data thr bs = Some bs' \<and> mask_inv data thr nw (length data) bs'"
proof -
  obtain j b where j: "bitmask_vec_loop H data thr 0 0 bs = Some (j, b)" "j \<le> length data" "mask_inv data thr nw j b"
    using bitmask_vec_loop_inv [OF assms(1) _ assms(2,3)] by blast
  have "\<exists>bs'. for_range j (length data)
      (\<lambda>i out. if thr < data ! i then or_word out (i div 64) (push_bit (i mod 64) 1) else Some out) b = Some bs'
    \<and> mask_inv data thr nw (length data) bs'"
    by (rule for_range_inv [where I = "mask_inv data thr nw"]) (use j assms(2) mask_inv_tail in auto)
  with j(1) show ?thesis by (simp add: filter_gt_i64_bitmask_impl_def)
qed

text \<open>A mask is well formed when its word array has the length its row count asks for.\<close>

definition bm_ok :: "bit_mask \<Rightarrow> bool" where
  "bm_ok m \<longleftrightarrow> num_words m = (num_rows m + 63) div 64 \<and> length (bits m) = num_words m"

lemma bm_ok_rows: "bm_ok m \<Longrightarrow> num_rows m \<le> 64 * num_words m"
  unfolding bm_ok_def by linarith

lemma bm_ok_BitMask [simp]: "bm_ok (BitMask n)"
  by (simp add: bm_ok_def BitMask_def)

lemma bm_clear_inv: "bm_ok m \<Longrightarrow> mask_inv data thr (num_words m) 0 (bits (bm_clear m))"
proof -
  assume m: "bm_ok m"
  then have "bits (bm_clear m) = map (\<lambda>_. 0) [0..<num_words m]"
    by (simp add: bm_clear_def bm_ok_def fill_all)
  then show ?thesis by (auto simp: mask_inv_def bits_bit_def less_mult_imp_div_less mult.commute)
qed

lemma filter_gt_i64_bitmask_inv:
  assumes "hwy_documented H" "bm_ok m" "length data \<le> num_rows m"
  shows "\<exists>bs. filter_gt_i64_bitmask H data thr m = Some (m\<lparr>bits := bs\<rparr>) \<and>
    mask_inv data thr (num_words m) (length data) bs"
  using filter_gt_i64_bitmask_impl_inv [OF assms(1) _ bm_clear_inv [OF assms(2)], of data thr]
    bm_ok_rows [OF assms(2)] assms(3)
  by (auto simp: filter_gt_i64_bitmask_def bm_clear_def)

text \<open>The rows of a mask in the order \<open>sum_i64_masked\<close> visits them.\<close>

lemma word_rows:
  "map (\<lambda>k. n * 64 + k) (bit_positions (bs ! n)) = filter (bits_bit bs) [64 * n..<64 * n + 64]"
proof -
  have "bit_positions (bs ! n) = filter (\<lambda>k. bits_bit bs (64 * n + k)) [0..<64]"
    unfolding bit_positions_def by (rule filter_cong) (auto simp: bits_bit_def simp del: upt_rec_numeral)
  moreover have "(\<lambda>k. n * 64 + k) = (+) (64 * n)" by (auto simp: mult.commute)
  ultimately show ?thesis by (simp only: map_filter_upt_shift)
qed

lemma upt_words: "[0..<64 * Suc n] = [0..<64 * n] @ [64 * n..<64 * n + 64]"
  using upt_split [of 0 "64 * n" "64 * n + 64"] by (simp add: add.commute)

lemma mask_rows:
  "concat (map (\<lambda>w. map (\<lambda>k. w * 64 + k) (bit_positions (bs ! w))) [0..<n]) = filter (bits_bit bs) [0..<64 * n]"
proof (induction n)
  case (Suc n)
  then show ?case by (simp add: word_rows upt_words del: mult_Suc_right)
qed simp

lemma run_list_concat:
  "run_list body (concat (map f xs)) s = run_list (\<lambda>x. run_list body (f x)) xs s"
  by (induction xs arbitrary: s) (auto simp: run_list_append split: option.splits bind_splits)

lemma run_list_cong:
  "(\<And>x s. x \<in> set xs \<Longrightarrow> f x s = g x s) \<Longrightarrow> run_list f xs s = run_list g xs s"
  by (induction xs arbitrary: s) (auto split: option.splits)

lemma sum_i64_masked_eq:
  assumes "length (bits m) = num_words m"
    and "\<And>k. k < 64 * num_words m \<Longrightarrow> bits_bit (bits m) k \<Longrightarrow> k < length data"
  shows "sum_i64_masked data m = Some (wrap64 (sum_list (map ((!) data) (filter (bits_bit (bits m)) [0..<64 * num_words m]))))"
proof -
  let ?add = "\<lambda>k acc. map_option (\<lambda>v. wrap64 (acc + v)) (vec_get data (int k))"
  have "sum_i64_masked data m =
      run_list (\<lambda>w. run_list ?add (map (\<lambda>k. w * 64 + k) (bit_positions (bits m ! w)))) [0..<num_words m] (wrap64 0)"
    unfolding sum_i64_masked_def for_range_run_list wrap64_0
    by (rule run_list_cong) (use assms(1) in \<open>simp add: each_bit_eq run_list_map\<close>)
  also have "\<dots> = run_list ?add (filter (bits_bit (bits m)) [0..<64 * num_words m]) (wrap64 0)"
    by (simp only: run_list_concat [symmetric] mask_rows)
  also have "\<dots> = Some (wrap64 (0 + sum_list (map ((!) data) (filter (bits_bit (bits m)) [0..<64 * num_words m]))))"
    by (rule run_sum) (use assms(2) in auto)
  finally show ?thesis by simp
qed

lemma mask_inv_rows:
  assumes "mask_inv data thr nw (length data) bs" "length data \<le> 64 * nw"
  shows "filter (bits_bit bs) [0..<64 * nw] = passing_rows data thr"
proof -
  have "filter (bits_bit bs) [0..<64 * nw] = filter (\<lambda>k. k < length data \<and> thr < data ! k) [0..<64 * nw]"
    using assms(1) by (intro filter_cong) (auto simp: mask_inv_def)
  with assms(2) show ?thesis by (simp add: filter_upt_bound passing_rows_def)
qed

lemma bm_popcount_eq:
  assumes "length (bits m) = num_words m"
  shows "bm_popcount m = Some (length (filter (bits_bit (bits m)) [0..<64 * num_words m]))"
  unfolding bm_popcount_def
proof (rule for_range_eq [where f = "\<lambda>n. length (filter (bits_bit (bits m)) [0..<64 * n])"])
  fix i assume i: "i < num_words m"
  have "popcount64 (bits m ! i) = length (map (\<lambda>k. i * 64 + k) (bit_positions (bits m ! i)))"
    by (simp only: popcount64_def bit_positions_def length_map)
  then show "map_option (\<lambda>w. length (filter (bits_bit (bits m)) [0..<64 * i]) + popcount64 w) (vec_get (bits m) (int i))
      = Some (length (filter (bits_bit (bits m)) [0..<64 * Suc i]))"
    using i assms by (simp add: word_rows upt_words del: mult_Suc_right)
qed simp_all

lemma bm_test_eq: "k < 64 * length (bits m) \<Longrightarrow> bm_test m k = Some (bits_bit (bits m) k)"
  by (auto simp: bm_test_def bits_bit_def bit_iff_odd_drop_bit and_one_eq odd_iff_mod_2_eq_one)

lemma bm_set_eq:
  assumes "bm_ok m" "i < num_rows m"
  shows "\<exists>m'. bm_set m i = Some m' \<and> bm_ok m' \<and> num_rows m' = num_rows m \<and>
    (\<forall>k < num_rows m. bm_test m' k = (if k = i then Some True else bm_test m k))"
proof -
  have rows: "num_rows m \<le> 64 * length (bits m)" using assms bm_ok_rows by (simp add: bm_ok_def)
  with assms have "i < 64 * length (bits m)" by simp
  from or_word_single [OF this] obtain bs where bs:
    "or_word (bits m) (i div 64) (push_bit (i mod 64) 1) = Some bs" "length bs = length (bits m)"
    "\<And>k. k < 64 * length (bits m) \<Longrightarrow> bits_bit bs k \<longleftrightarrow> bits_bit (bits m) k \<or> k = i" by blast
  with rows assms show ?thesis by (auto simp: bm_set_def bm_ok_def bm_test_eq)
qed

section \<open>A reference instance of Highway\<close>

text \<open>Registers of \<open>N\<close> lanes computed with lists, which shows that the documented behaviour is consistent.\<close>

definition hwy_reference :: "nat \<Rightarrow> hwy_ops" where
  "hwy_reference N = \<lparr>
     hn_Lanes = N,
     hn_Zero = replicate N 0,
     hn_Add = map2 (\<lambda>a b. wrap64 (a + b)),
     hn_LoadU = (\<lambda>data i. take N (drop i data)),
     hn_ReduceSum = (\<lambda>u. wrap64 (sum_list u)),
     hn_Set = replicate N,
     hn_Gt = map2 (\<lambda>a b. b < a),
     hn_StoreMaskBits = (\<lambda>m. map (\<lambda>b. horner_sum of_bool 2 (map (\<lambda>j. b * 8 + j < N \<and> m ! (b * 8 + j)) [0..<8]))
        [0..<(N + 7) div 8])\<rparr>"

lemma hwy_reference_documented: "0 < N \<Longrightarrow> N \<le> 64 \<Longrightarrow> hwy_documented (hwy_reference N)"
  by (simp add: hwy_documented_def hwy_reference_def del: upt_rec_numeral)

section \<open>Properties\<close>

text \<open>
  C19. The three implementations of the column sum, with four SIMD accumulators, with eight, and the
  unrolled scalar one, return the sum of the column modulo two to the 64, for every column length and
  every register width.
\<close>

theorem sums_agree:
  assumes "hwy_documented H"
  shows "sum_i64 H data = wrap64 (sum_list data) \<and> sum_i64_simd_v2 H data = wrap64 (sum_list data) \<and>
    sum_i64_fast data = wrap64 (sum_list data)"
  using assms
  by (simp add: sum_i64_def sum_i64_simd_v2_def sum_i64_simd_eq sum_i64_simd_v2_impl_eq sum_i64_fast_eq)

theorem sums_agree_witness:
  "sum_i64 (hwy_reference 2) [5, 7, -3, 9, 1, 1, 1, 1, 1, 100, 1000] = 1123 \<and>
   sum_i64_simd_v2 (hwy_reference 4) [9223372036854775807, 1] = - 9223372036854775808"
  using sums_agree [OF hwy_reference_documented [of 2], of "[5, 7, -3, 9, 1, 1, 1, 1, 1, 100, 1000]"]
    sums_agree [OF hwy_reference_documented [of 4], of "[9223372036854775807, 1]"]
  by (simp add: wrap64_def)

text \<open>
  C20. \<open>filter_gt_i64\<close> into a selection vector that has room for the column never writes out of
  bounds and leaves exactly the passing rows in ascending order; \<open>sum_i64_selected\<close> over that
  selection is then the sum of the values above the threshold.
\<close>

theorem filter_selection_correct:
  assumes "hwy_documented H" "length data \<le> length (indices sv)" "length data \<le> 4294967296"
  shows "\<exists>sv'. filter_gt_i64 H data threshold sv = Some sv' \<and>
    map unat (take (sel_size sv') (indices sv')) = passing_rows data threshold \<and>
    sum_i64_selected data sv' = Some (wrap64 (sum_list (filter (\<lambda>x. threshold < x) data)))"
proof -
  let ?rows = "passing_rows data threshold"
  have fit: "length ?rows \<le> length (indices sv)"
    using length_passing_rows [of data threshold] assms(2) by simp
  let ?sv = "sv\<lparr>indices := map of_nat ?rows @ drop (length ?rows) (indices sv), sel_size := length ?rows\<rparr>"
  have row: "unat (of_nat k :: u32) = k \<and> k < length data" if "k \<in> set ?rows" for k
    using that assms(3) by (auto simp: passing_rows_def unat_of_nat)
  have "map (unat \<circ> (of_nat :: nat \<Rightarrow> u32)) ?rows = ?rows" by (rule map_idI) (simp add: row)
  then have rows: "map unat (take (sel_size ?sv) (indices ?sv)) = ?rows" by simp
  have "map (\<lambda>k. data ! unat (of_nat k :: u32)) ?rows = filter (\<lambda>x. threshold < x) data"
    using row by (simp add: map_passing_rows [symmetric] cong: map_cong)
  moreover have "sum_i64_selected data ?sv =
      Some (wrap64 (sum_list (map (\<lambda>k. data ! unat k) (take (sel_size ?sv) (indices ?sv)))))"
    by (rule sum_i64_selected_eq) (use row in auto)
  ultimately have "sum_i64_selected data ?sv = Some (wrap64 (sum_list (filter (\<lambda>x. threshold < x) data)))"
    by (simp add: comp_def)
  with rows filter_gt_i64_eq [OF assms(1) fit] show ?thesis by blast
qed

theorem filter_selection_correct_witness:
  "\<exists>sv'. filter_gt_i64 (hwy_reference 2) [4, 12, 8, 30, 11] 10 (SelectionVector 8) = Some sv' \<and>
    map unat (take (sel_size sv') (indices sv')) = [1, 3, 4] \<and>
    sum_i64_selected [4, 12, 8, 30, 11] sv' = Some 53"
proof -
  have "passing_rows [4, 12, 8, 30, 11] 10 = [1, 3, 4]" by (simp add: passing_rows_def)
  moreover have "wrap64 (sum_list (filter (\<lambda>x. 10 < x) [4, 12, 8, 30, 11])) = 53" by (simp add: wrap64_def)
  ultimately show ?thesis
    using filter_selection_correct [OF hwy_reference_documented [of 2],
        of "[4, 12, 8, 30, 11]" "SelectionVector 8" 10]
    by (simp add: SelectionVector_def)
qed

text \<open>
  C18. \<open>filter_gt_i64_bitmask\<close> into a mask with a bit for every row never writes outside the word
  array, whatever the register width and even where a register's bits straddle two words: bit \<open>k\<close> is
  set exactly when row \<open>k\<close> exceeds the threshold. \<open>popcount\<close> is then the number of such rows and
  \<open>sum_i64_masked\<close> their sum.
\<close>

theorem filter_bitmask_correct:
  assumes "hwy_documented H" "bm_ok m" "length data \<le> num_rows m"
  shows "\<exists>m'. filter_gt_i64_bitmask H data threshold m = Some m' \<and> bm_ok m' \<and>
    (\<forall>k < num_rows m. bm_test m' k = Some (k < length data \<and> threshold < data ! k)) \<and>
    bm_popcount m' = Some (length (filter (\<lambda>x. threshold < x) data)) \<and>
    sum_i64_masked data m' = Some (wrap64 (sum_list (filter (\<lambda>x. threshold < x) data)))"
proof -
  obtain bs where run: "filter_gt_i64_bitmask H data threshold m = Some (m\<lparr>bits := bs\<rparr>)"
    and inv: "mask_inv data threshold (num_words m) (length data) bs"
    using filter_gt_i64_bitmask_inv [OF assms] by blast
  let ?m = "m\<lparr>bits := bs\<rparr>"
  have len: "length bs = num_words m" using inv by (simp add: mask_inv_def)
  have fits: "num_rows m \<le> 64 * num_words m" using bm_ok_rows [OF assms(2)] .
  have rows: "filter (bits_bit bs) [0..<64 * num_words m] = passing_rows data threshold"
    by (rule mask_inv_rows [OF inv]) (use fits assms(3) in simp)
  have "bm_test ?m k = Some (k < length data \<and> threshold < data ! k)" if "k < num_rows m" for k
    using that fits inv len by (simp add: bm_test_eq mask_inv_def)
  moreover have "bm_popcount ?m = Some (length (filter (\<lambda>x. threshold < x) data))"
    using bm_popcount_eq [of ?m] len by (simp add: rows flip: map_passing_rows)
  moreover have "sum_i64_masked data ?m = Some (wrap64 (sum_list (filter (\<lambda>x. threshold < x) data)))"
    using sum_i64_masked_eq [of ?m data] len inv by (simp add: rows map_passing_rows mask_inv_def)
  moreover have "bm_ok ?m" using assms(2) len by (simp add: bm_ok_def)
  ultimately show ?thesis using run by blast
qed

theorem filter_bitmask_correct_witness:
  "\<exists>m'. filter_gt_i64_bitmask (hwy_reference 3) [4, 12, 8, 30, 11] 10 (BitMask 5) = Some m' \<and>
    bm_test m' 3 = Some True \<and> bm_test m' 2 = Some False \<and>
    bm_popcount m' = Some 3 \<and> sum_i64_masked [4, 12, 8, 30, 11] m' = Some 53"
proof -
  have rows: "num_rows (BitMask 5) = 5" by (simp add: BitMask_def)
  have "wrap64 (sum_list (filter (\<lambda>x. 10 < x) [4, 12, 8, 30, 11])) = 53" by (simp add: wrap64_def)
  with filter_bitmask_correct [OF hwy_reference_documented [of 3] bm_ok_BitMask [of 5],
      of "[4, 12, 8, 30, 11]" 10] rows
  obtain m' where "filter_gt_i64_bitmask (hwy_reference 3) [4, 12, 8, 30, 11] 10 (BitMask 5) = Some m'"
    "\<forall>k < 5. bm_test m' k = Some (k < 5 \<and> (10 :: int) < [4, 12, 8, 30, 11] ! k)"
    "bm_popcount m' = Some 3" "sum_i64_masked [4, 12, 8, 30, 11] m' = Some 53" by auto
  then show ?thesis by (intro exI [of _ m']) simp
qed

text \<open>
  C40. \<open>BitMask::set\<close> on a row of the mask stays within the word array and changes the answer of
  \<open>test\<close> for that row only.
\<close>

theorem bit_mask_set_test:
  assumes "bm_ok m" "i < num_rows m"
  shows "\<exists>m'. bm_set m i = Some m' \<and> bm_ok m' \<and> num_rows m' = num_rows m \<and>
    (\<forall>k < num_rows m. bm_test m' k = (if k = i then Some True else bm_test m k))"
  using bm_set_eq [OF assms] .

theorem bit_mask_set_test_witness:
  "\<exists>m'. bm_set (BitMask 70) 66 = Some m' \<and> bm_test m' 66 = Some True \<and> bm_test m' 2 = Some False"
proof -
  have "num_rows (BitMask 70) = 70" "bm_test (BitMask 70) 2 = Some False"
    by (simp_all add: BitMask_def bm_test_def vec_get_def)
  with bit_mask_set_test [OF bm_ok_BitMask [of 70], of 66] show ?thesis by auto
qed

end
