(* ===== verification/Join_Operator.thy ===== *)
theory Join_Operator
  imports Flat_Hash_Map Vector_Engine
begin

text \<open>
  The join operators of \<^verbatim>\<open>src/src/execution/join_operator.cpp\<close>: the hash join in its four types, the
  as-of join by sorting and binary search, its two-pointer variant, and the window join with its
  vectorised aggregation. The build and probe phases run on the model of the flat hash map through
  the contract \<open>group_map\<close>.

  \<^verbatim>\<open>std::sort\<close> is not stable, so the order it gives to equal keys is open: the sort is an argument,
  and \<open>std_sorts\<close> is what the standard promises of it. \<^verbatim>\<open>std::lower_bound\<close> and \<^verbatim>\<open>std::upper_bound\<close> are
  the partition point of a partitioned range.
\<close>

section \<open>Results\<close>

datatype JoinType = INNER | LEFT | RIGHT | FULL

datatype WJAggType = WJ_AVG | WJ_SUM | WJ_COUNT | WJ_MIN | WJ_MAX

record join_result =
  left_indices :: "i64 list"
  right_indices :: "i64 list"
  match_count :: nat

record window_join_result =
  wj_left_indices :: "i64 list"
  agg_values :: "i64 list"
  match_counts :: "i64 list"

definition empty_result :: join_result where
  "empty_result = \<lparr>left_indices = [], right_indices = [], match_count = 0\<rparr>"

definition push_pair :: "i64 \<Rightarrow> i64 \<Rightarrow> join_result \<Rightarrow> join_result" where
  "push_pair li ri r =
     r\<lparr>left_indices := left_indices r @ [li], right_indices := right_indices r @ [ri],
       match_count := match_count r + 1\<rparr>"

section \<open>Standard library\<close>

definition std_sorts :: "(('a \<Rightarrow> i64) \<Rightarrow> 'a list \<Rightarrow> 'a list) \<Rightarrow> bool" where
  "std_sorts srt \<longleftrightarrow> (\<forall>key xs. mset (srt key xs) = mset xs \<and> sorted (map key (srt key xs)))"

definition std_upper_bound :: "('a \<Rightarrow> i64) \<Rightarrow> 'a list \<Rightarrow> i64 \<Rightarrow> nat" where
  "std_upper_bound key xs v = length (takeWhile (\<lambda>x. \<not> v < key x) xs)"

definition std_lower_bound :: "('a \<Rightarrow> i64) \<Rightarrow> 'a list \<Rightarrow> i64 \<Rightarrow> nat" where
  "std_lower_bound key xs v = length (takeWhile (\<lambda>x. key x < v) xs)"

section \<open>Hash join\<close>

definition build_map :: "(i64 \<Rightarrow> u64) \<Rightarrow> (nat \<Rightarrow> 'a) \<Rightarrow> i64 list \<Rightarrow> 'a list flat_hash_map option" where
  "build_map hash f ks = for_range 0 (length ks) (\<lambda>i m. fhm_push hash m (ks ! i) (f i)) (fhm_new [] (length ks))"

definition hash_join_right :: "(i64 \<Rightarrow> u64) \<Rightarrow> i64 list \<Rightarrow> i64 list \<Rightarrow> join_result option" where
  "hash_join_right hash lk rk =
     Option.bind (build_map hash int lk) (\<lambda>hash_map.
       for_range 0 (length rk)
         (\<lambda>ri r. case fhm_find hash hash_map (rk ! ri) of
             None \<Rightarrow> None
           | Some None \<Rightarrow> Some (push_pair (- 1) (int ri) r)
           | Some (Some bucket) \<Rightarrow> Some (fold (\<lambda>li. push_pair li (int ri)) bucket r))
         empty_result)"

definition hash_join_full :: "(i64 \<Rightarrow> u64) \<Rightarrow> i64 list \<Rightarrow> i64 list \<Rightarrow> join_result option" where
  "hash_join_full hash lk rk =
     Option.bind (build_map hash int rk) (\<lambda>hash_map.
     Option.bind
       (for_range 0 (length lk)
         (\<lambda>li (r, right_matched). case fhm_find hash hash_map (lk ! li) of
             None \<Rightarrow> None
           | Some None \<Rightarrow> Some (push_pair (int li) (- 1) r, right_matched)
           | Some (Some bucket) \<Rightarrow>
               Some (fold (\<lambda>ri (r, right_matched). (push_pair (int li) ri r, right_matched[nat ri := True]))
                       bucket (r, right_matched)))
         (empty_result, replicate (length rk) False)) (\<lambda>(r, right_matched).
       for_range 0 (length rk)
         (\<lambda>ri r. if \<not> right_matched ! ri then Some (push_pair (- 1) (int ri) r) else Some r) r))"

definition hash_join_left :: "(i64 \<Rightarrow> u64) \<Rightarrow> JoinType \<Rightarrow> i64 list \<Rightarrow> i64 list \<Rightarrow> join_result option" where
  "hash_join_left hash join_type lk rk =
     Option.bind (build_map hash int rk) (\<lambda>hash_map.
       for_range 0 (length lk)
         (\<lambda>li r. case fhm_find hash hash_map (lk ! li) of
             None \<Rightarrow> None
           | Some None \<Rightarrow> if join_type = LEFT then Some (push_pair (int li) (- 1) r) else Some r
           | Some (Some bucket) \<Rightarrow> Some (fold (\<lambda>ri. push_pair (int li) ri) bucket r))
         empty_result)"

definition hash_join_execute :: "(i64 \<Rightarrow> u64) \<Rightarrow> JoinType \<Rightarrow> i64 list \<Rightarrow> i64 list \<Rightarrow> join_result option" where
  "hash_join_execute hash join_type lk rk =
     (if join_type = RIGHT then hash_join_right hash lk rk
      else if join_type = FULL then hash_join_full hash lk rk
      else hash_join_left hash join_type lk rk)"

section \<open>As-of join\<close>

text \<open>The left value is the message of the exception thrown for a missing time column.\<close>

definition asof_execute ::
  "(i64 \<Rightarrow> u64) \<Rightarrow> ((i64 \<Rightarrow> i64) \<Rightarrow> i64 list \<Rightarrow> i64 list) \<Rightarrow> i64 list \<Rightarrow> i64 list \<Rightarrow> i64 list option \<Rightarrow> i64 list option
     \<Rightarrow> (string + join_result) option" where
  "asof_execute hash std_sort lk rk left_time right_time =
     (case (left_time, right_time) of
        (Some lt, Some rt) \<Rightarrow>
          Option.bind (build_map hash int rk) (\<lambda>groups.
            let right_groups = fhm_for_each (\<lambda>symb indices. std_sort (\<lambda>i. rt ! nat i) indices) groups
            in map_option Inr
              (for_range 0 (length lk)
                (\<lambda>li r. Option.bind (vec_get lt (int li)) (\<lambda>l_ts.
                   case fhm_find hash right_groups (lk ! li) of
                     None \<Rightarrow> None
                   | Some None \<Rightarrow> Some r
                   | Some (Some rindices) \<Rightarrow>
                       let pos = std_upper_bound (\<lambda>i. rt ! nat i) rindices l_ts
                       in if pos \<noteq> 0 then Some (push_pair (int li) (rindices ! (pos - 1)) r) else Some r))
                empty_result))
      | _ \<Rightarrow> Some (Inl ''AsofJoinOperator: left_time and right_time are required''))"

definition SIZE_MAX :: nat where
  "SIZE_MAX = 18446744073709551615"

function asof_advance :: "i64 list \<Rightarrow> i64 \<Rightarrow> nat \<Rightarrow> nat \<Rightarrow> nat \<times> nat" where
  "asof_advance r_times l_ts ri last_valid_ri =
     (if ri < length r_times \<and> r_times ! ri \<le> l_ts
      then asof_advance r_times l_ts (Suc ri) ri
      else (ri, last_valid_ri))"
  by pat_completeness auto
termination
  by (relation "measure (\<lambda>(r_times, _, ri, _). length r_times - ri)") auto

declare asof_advance.simps [simp del]

definition asof_match_symbol :: "i64 list \<Rightarrow> i64 list \<Rightarrow> join_result \<Rightarrow> join_result option" where
  "asof_match_symbol l_times r_times result =
     map_option (\<lambda>(ri, last, r). r)
       (for_range 0 (length l_times)
         (\<lambda>li (ri, last_valid_ri, r).
            let (ri, last_valid_ri) = asof_advance r_times (l_times ! li) ri last_valid_ri
            in Some (ri, last_valid_ri,
                 if last_valid_ri \<noteq> SIZE_MAX then push_pair (int li) (int last_valid_ri) r else r))
         (0, SIZE_MAX, result))"

section \<open>Window join\<close>

definition window_contiguous :: "nat list \<Rightarrow> nat \<Rightarrow> nat \<Rightarrow> bool" where
  "window_contiguous rg b e = list_all (\<lambda>i. rg ! i = rg ! b + (i - b)) [b + 1..<e]"

definition aggregate_window ::
  "hwy_ops \<Rightarrow> 'f fp_ops \<Rightarrow> WJAggType \<Rightarrow> i64 list \<Rightarrow> nat list \<Rightarrow> nat \<Rightarrow> nat \<Rightarrow> i64 \<times> i64" where
  "aggregate_window H fp agg right_val rg b e =
     (let out_count = int e - int b in
      if out_count = 0 then (0, out_count)
      else if agg = WJ_COUNT then (out_count, out_count)
      else
        let n = nat out_count;
            base_idx = rg ! b;
            vals = (if window_contiguous rg b e then Some (take n (drop base_idx right_val))
                    else if 32 \<le> n then Some (map (\<lambda>i. right_val ! (rg ! (b + i))) [0..<n])
                    else None);
            direct = map (\<lambda>i. right_val ! (rg ! i)) [b..<e]
        in ((case agg of
               WJ_SUM \<Rightarrow> (case vals of
                   Some v \<Rightarrow> sum_i64 H v
                 | None \<Rightarrow> fold (\<lambda>x acc. wrap64 (acc + x)) direct 0)
             | WJ_AVG \<Rightarrow> fp_to_int fp (fp_div fp
                 (case vals of
                    Some v \<Rightarrow> fp_of_int fp (sum_i64 H v)
                  | None \<Rightarrow> fold (\<lambda>x acc. fp_add fp acc (fp_of_int fp x)) direct (fp_of_int fp 0))
                 (fp_of_int fp out_count))
             | WJ_MIN \<Rightarrow>
                 (let minv = fold (\<lambda>x acc. min acc x) (case vals of Some v \<Rightarrow> v | None \<Rightarrow> direct) INT64_MAX
                  in if minv = INT64_MAX then 0 else minv)
             | WJ_MAX \<Rightarrow>
                 (let maxv = fold (\<lambda>x acc. max acc x) (case vals of Some v \<Rightarrow> v | None \<Rightarrow> direct) INT64_MIN
                  in if maxv = INT64_MIN then 0 else maxv)
             | WJ_COUNT \<Rightarrow> out_count), out_count))"

record window_join_operator =
  agg_type :: WJAggType
  window_before :: i64
  window_after :: i64

definition window_join_execute ::
  "(i64 \<Rightarrow> u64) \<Rightarrow> ((nat \<Rightarrow> i64) \<Rightarrow> nat list \<Rightarrow> nat list) \<Rightarrow> hwy_ops \<Rightarrow> 'f fp_ops \<Rightarrow> window_join_operator
     \<Rightarrow> i64 list \<Rightarrow> i64 list \<Rightarrow> i64 list \<Rightarrow> i64 list \<Rightarrow> i64 list \<Rightarrow> window_join_result option" where
  "window_join_execute hash std_sort H fp wj left_key right_key left_time right_time right_val =
     (let ln = length left_key;
          result = \<lparr>wj_left_indices = replicate ln 0, agg_values = replicate ln 0, match_counts = replicate ln 0\<rparr>
      in Option.bind (build_map hash id right_key) (\<lambda>groups.
           let right_groups = fhm_for_each (\<lambda>symb indices. std_sort (\<lambda>i. right_time ! i) indices) groups
           in for_range 0 ln
             (\<lambda>li r.
                let r = r\<lparr>wj_left_indices := (wj_left_indices r)[li := int li]\<rparr>
                in case fhm_find hash right_groups (left_key ! li) of
                     None \<Rightarrow> None
                   | Some None \<Rightarrow> Some r
                   | Some (Some rg) \<Rightarrow>
                       Option.bind (vec_get left_time (int li)) (\<lambda>t.
                         let t_lo = wrap64 (t - window_before wj);
                             t_hi = wrap64 (t + window_after wj);
                             b = std_lower_bound (\<lambda>i. right_time ! i) rg t_lo;
                             e = std_upper_bound (\<lambda>i. right_time ! i) rg t_hi
                         in if e \<le> b then Some r
                            else let (v, cnt) = aggregate_window H fp (agg_type wj) right_val rg b e
                                 in Some (r\<lparr>agg_values := (agg_values r)[li := v],
                                           match_counts := (match_counts r)[li := cnt]\<rparr>)))
             result))"

section \<open>Lemmas: hash join\<close>

definition of_pairs :: "(i64 \<times> i64) list \<Rightarrow> join_result" where
  "of_pairs ps = \<lparr>left_indices = map fst ps, right_indices = map snd ps, match_count = length ps\<rparr>"

lemma of_pairs_Nil [simp]: "empty_result = of_pairs []"
  by (simp add: empty_result_def of_pairs_def)

lemma push_pair_of_pairs [simp]: "push_pair a b (of_pairs ps) = of_pairs (ps @ [(a, b)])"
  by (simp add: push_pair_def of_pairs_def)

lemma fold_push_left [simp]:
  "fold (\<lambda>li. push_pair li c) xs (of_pairs ps) = of_pairs (ps @ map (\<lambda>x. (x, c)) xs)"
  by (induction xs arbitrary: ps) simp_all

lemma fold_push_right [simp]:
  "fold (push_pair c) xs (of_pairs ps) = of_pairs (ps @ map (\<lambda>x. (c, x)) xs)"
  by (induction xs arbitrary: ps) simp_all

lemma for_range_pairs:
  assumes "\<And>i ps. i < n \<Longrightarrow> body i (of_pairs ps) = Some (of_pairs (ps @ g i))"
  shows "for_range 0 n body (of_pairs ps) = Some (of_pairs (ps @ concat (map g [0..<n])))"
proof -
  have "for_range 0 n body (of_pairs ps) = Some ((\<lambda>k. of_pairs (ps @ concat (map g [0..<k]))) n)"
    by (rule for_range_eq) (use assms in auto)
  then show ?thesis by simp
qed

lemma build_map_find:
  "\<exists>m. build_map hash f ks = Some m \<and> fhm_repr hash [] (length ks) m (group_of f ks) \<and>
     (\<forall>key. fhm_find hash m key = Some (group_of f ks key))"
  unfolding build_map_def using fhm.build_groups [where ks = ks and f = f and hash = hash] fhm.find_repr by blast

text \<open>The relational specification: pairs in probe order, each bucket in row order.\<close>

definition probe_left :: "i64 list \<Rightarrow> i64 list \<Rightarrow> bool \<Rightarrow> nat \<Rightarrow> (i64 \<times> i64) list" where
  "probe_left lk rk outer li =
     (if rows_of rk (lk ! li) = [] then (if outer then [(int li, - 1)] else [])
      else map (\<lambda>ri. (int li, int ri)) (rows_of rk (lk ! li)))"

definition probe_right :: "i64 list \<Rightarrow> i64 list \<Rightarrow> nat \<Rightarrow> (i64 \<times> i64) list" where
  "probe_right lk rk ri =
     (if rows_of lk (rk ! ri) = [] then [(- 1, int ri)]
      else map (\<lambda>li. (int li, int ri)) (rows_of lk (rk ! ri)))"

definition join_spec :: "JoinType \<Rightarrow> i64 list \<Rightarrow> i64 list \<Rightarrow> (i64 \<times> i64) list" where
  "join_spec t lk rk =
     (case t of
        INNER \<Rightarrow> concat (map (probe_left lk rk False) [0..<length lk])
      | LEFT \<Rightarrow> concat (map (probe_left lk rk True) [0..<length lk])
      | RIGHT \<Rightarrow> concat (map (probe_right lk rk) [0..<length rk])
      | FULL \<Rightarrow> concat (map (probe_left lk rk True) [0..<length lk]) @
          map (\<lambda>ri. (- 1, int ri)) (filter (\<lambda>ri. rk ! ri \<notin> set lk) [0..<length rk]))"

lemma hash_join_left_eq:
  assumes "t = INNER \<or> t = LEFT"
  shows "hash_join_left hash t lk rk = Some (of_pairs (join_spec t lk rk))"
proof -
  obtain m where m: "build_map hash int rk = Some m" "\<And>key. fhm_find hash m key = Some (group_of int rk key)"
    using build_map_find by blast
  have "for_range 0 (length lk)
         (\<lambda>li r. case fhm_find hash m (lk ! li) of
             None \<Rightarrow> None
           | Some None \<Rightarrow> if t = LEFT then Some (push_pair (int li) (- 1) r) else Some r
           | Some (Some bucket) \<Rightarrow> Some (fold (\<lambda>ri. push_pair (int li) ri) bucket r)) (of_pairs [])
      = Some (of_pairs ([] @ concat (map (probe_left lk rk (t = LEFT)) [0..<length lk])))"
    by (rule for_range_pairs) (simp add: m(2) group_of_def probe_left_def comp_def)
  with m(1) assms show ?thesis by (auto simp: hash_join_left_def join_spec_def)
qed

lemma hash_join_right_eq: "hash_join_right hash lk rk = Some (of_pairs (join_spec RIGHT lk rk))"
proof -
  obtain m where m: "build_map hash int lk = Some m" "\<And>key. fhm_find hash m key = Some (group_of int lk key)"
    using build_map_find by blast
  have "for_range 0 (length rk)
         (\<lambda>ri r. case fhm_find hash m (rk ! ri) of
             None \<Rightarrow> None
           | Some None \<Rightarrow> Some (push_pair (- 1) (int ri) r)
           | Some (Some bucket) \<Rightarrow> Some (fold (\<lambda>li. push_pair li (int ri)) bucket r)) (of_pairs [])
      = Some (of_pairs ([] @ concat (map (probe_right lk rk) [0..<length rk])))"
    by (rule for_range_pairs) (simp add: m(2) group_of_def probe_right_def comp_def)
  with m(1) show ?thesis by (simp add: hash_join_right_def join_spec_def)
qed

lemma nth_update_True: "k < length rm \<Longrightarrow> rm[a := True] ! k \<longleftrightarrow> a = k \<or> rm ! k"
  by (cases "a = k") auto

lemma fold_set_true:
  "length (fold (\<lambda>x rm. rm[x := True]) xs rm) = length rm"
  "k < length rm \<Longrightarrow> fold (\<lambda>x rm. rm[x := True]) xs rm ! k \<longleftrightarrow> k \<in> set xs \<or> rm ! k"
  by (induction xs arbitrary: rm) (auto simp: nth_update_True)

lemma fold_full_bucket:
  "fold (\<lambda>ri (r, rm). (push_pair c ri r, rm[nat ri := True])) (map int xs) (of_pairs ps, rm) =
     (of_pairs (ps @ map (\<lambda>x. (c, int x)) xs), fold (\<lambda>x rm. rm[x := True]) xs rm)"
  by (induction xs arbitrary: ps rm) simp_all

lemma mark_bucket:
  assumes "li < length lk"
  shows "fold (\<lambda>x rm. rm[x := True]) (rows_of rk (lk ! li)) (map (\<lambda>ri. rk ! ri \<in> set (take li lk)) [0..<length rk]) =
    map (\<lambda>ri. rk ! ri \<in> set (take (Suc li) lk)) [0..<length rk]"
  by (rule nth_equalityI) (use assms in \<open>auto simp: fold_set_true take_Suc_conv_app_nth\<close>)

lemma hash_join_full_eq: "hash_join_full hash lk rk = Some (of_pairs (join_spec FULL lk rk))"
proof -
  obtain m where m: "build_map hash int rk = Some m" "\<And>key. fhm_find hash m key = Some (group_of int rk key)"
    using build_map_find by blast
  let ?matched = "\<lambda>k. map (\<lambda>ri. rk ! ri \<in> set (take k lk)) [0..<length rk]"
  let ?ps = "\<lambda>k. concat (map (probe_left lk rk True) [0..<k])"
  let ?body = "\<lambda>li (r, right_matched). case fhm_find hash m (lk ! li) of
             None \<Rightarrow> None
           | Some None \<Rightarrow> Some (push_pair (int li) (- 1) r, right_matched)
           | Some (Some bucket) \<Rightarrow>
               Some (fold (\<lambda>ri (r, right_matched). (push_pair (int li) ri r, right_matched[nat ri := True]))
                       bucket (r, right_matched))"
  have "for_range 0 (length lk) ?body (empty_result, replicate (length rk) False) =
      Some ((\<lambda>k. (of_pairs (?ps k), ?matched k)) (length lk))"
  proof (rule for_range_eq)
    show "(empty_result, replicate (length rk) False) = (of_pairs (?ps 0), ?matched 0)"
      by (simp add: map_replicate_const)
  next
    fix li assume li: "li < length lk"
    then show "?body li (of_pairs (?ps li), ?matched li) = Some (of_pairs (?ps (Suc li)), ?matched (Suc li))"
      using mark_bucket [OF li, of rk]
      by (auto simp: m(2) group_of_def probe_left_def fold_full_bucket)
  qed simp
  moreover have "for_range 0 (length rk)
      (\<lambda>ri r. if \<not> ?matched (length lk) ! ri then Some (push_pair (- 1) (int ri) r) else Some r) (of_pairs (?ps (length lk)))
    = Some (of_pairs (?ps (length lk) @ concat (map (\<lambda>ri. if rk ! ri \<in> set lk then [] else [(- 1, int ri)]) [0..<length rk])))"
    by (rule for_range_pairs) simp
  moreover have "concat (map (\<lambda>ri. if P ri then [] else [f ri]) xs) = map f (filter (\<lambda>ri. \<not> P ri) xs)"
    for P and f :: "nat \<Rightarrow> i64 \<times> i64" and xs by (induction xs) auto
  ultimately show ?thesis using m(1) by (simp add: hash_join_full_def join_spec_def)
qed

lemma hash_join_execute_eq: "hash_join_execute hash t lk rk = Some (of_pairs (join_spec t lk rk))"
  by (cases t) (simp_all add: hash_join_execute_def hash_join_left_eq hash_join_right_eq hash_join_full_eq)

section \<open>Lemmas: sorted groups\<close>

lemma takeWhile_sorted:
  "sorted (map key g) \<Longrightarrow> takeWhile (\<lambda>x. \<not> v < key x) g = filter (\<lambda>x. key x \<le> (v :: i64)) g"
proof (induction g)
  case (Cons x xs)
  then have "v < key x \<Longrightarrow> filter (\<lambda>y. key y \<le> v) xs = []" by (auto simp: filter_empty_conv)
  with Cons show ?case by (simp add: not_le [symmetric])
qed simp

lemma std_upper_bound_last:
  assumes "sorted (map key g)"
  shows "std_upper_bound key g v = 0 \<longleftrightarrow> (\<forall>x \<in> set g. v < key x)"
    and "std_upper_bound key g v \<noteq> 0 \<Longrightarrow>
      (let x = g ! (std_upper_bound key g v - 1) in x \<in> set g \<and> key x \<le> v \<and> (\<forall>y \<in> set g. key y \<le> v \<longrightarrow> key y \<le> key x))"
proof -
  let ?f = "filter (\<lambda>x. key x \<le> v) g"
  have tw: "takeWhile (\<lambda>x. \<not> v < key x) g = ?f" using takeWhile_sorted [OF assms] .
  then show "std_upper_bound key g v = 0 \<longleftrightarrow> (\<forall>x \<in> set g. v < key x)"
    by (auto simp: std_upper_bound_def filter_empty_conv not_le)
  assume ne: "std_upper_bound key g v \<noteq> 0"
  then have f: "?f \<noteq> []" "std_upper_bound key g v = length ?f" by (auto simp: std_upper_bound_def tw)
  have "g ! (length ?f - 1) = ?f ! (length ?f - 1)"
    using f(1) takeWhile_nth [of "length ?f - 1" "\<lambda>x. \<not> v < key x" g] by (simp add: tw)
  also have "\<dots> = last ?f" using f(1) by (simp add: last_conv_nth)
  finally have last: "g ! (std_upper_bound key g v - 1) = last ?f" using f(2) by simp
  have mem: "last ?f \<in> set ?f" using f(1) last_in_set by blast
  have "sorted (map key ?f)" using assms by (rule sorted_filter)
  moreover have "?f = butlast ?f @ [last ?f]" using f(1) by simp
  ultimately have "sorted (map key (butlast ?f @ [last ?f]))" by metis
  then have "\<forall>y \<in> set (butlast ?f). key y \<le> key (last ?f)" by (simp add: sorted_append)
  moreover have "set ?f = insert (last ?f) (set (butlast ?f))"
    using f(1) by (metis append_butlast_last_id list.set(1) list.set(2) set_append Un_insert_right sup_bot.right_neutral)
  ultimately have "\<forall>y \<in> set ?f. key y \<le> key (last ?f)" by auto
  with last mem show "let x = g ! (std_upper_bound key g v - 1) in
      x \<in> set g \<and> key x \<le> v \<and> (\<forall>y \<in> set g. key y \<le> v \<longrightarrow> key y \<le> key x)"
    by (simp add: Let_def)
qed

text \<open>Two binary searches on a sorted group cut out exactly the rows of the window.\<close>

lemma window_slice:
  "sorted (map key g) \<Longrightarrow>
    take (std_upper_bound key g hi - std_lower_bound key g lo) (drop (std_lower_bound key g lo) g) =
      filter (\<lambda>x. lo \<le> key x \<and> key x \<le> hi) g"
proof (induction g)
  case (Cons x xs)
  consider (low) "key x < lo" "key x \<le> hi" | (empty) "key x < lo" "hi < key x" | (inside) "lo \<le> key x" by linarith
  then show ?case
  proof cases
    case low
    with Cons show ?thesis by (simp add: std_upper_bound_def std_lower_bound_def)
  next
    case empty
    with Cons.prems have "\<forall>y \<in> set xs. hi < key y" by auto
    with empty show ?thesis by (auto simp: std_upper_bound_def filter_empty_conv)
  next
    case inside
    with Cons.prems have "\<forall>y \<in> set (x # xs). lo \<le> key y" by auto
    then have "filter (\<lambda>y. lo \<le> key y \<and> key y \<le> hi) (x # xs) = filter (\<lambda>y. key y \<le> hi) (x # xs)"
      by (intro filter_cong) auto
    also have "\<dots> = takeWhile (\<lambda>y. \<not> hi < key y) (x # xs)"
      by (rule takeWhile_sorted [OF Cons.prems, symmetric])
    also have "\<dots> = take (std_upper_bound key (x # xs) hi) (x # xs)"
      unfolding std_upper_bound_def by (rule takeWhile_eq_take)
    finally show ?thesis using inside by (simp add: std_lower_bound_def)
  qed
qed (simp add: std_upper_bound_def)

section \<open>Lemmas: as-of join\<close>

text \<open>The rows a left row may match: same key, not later.\<close>

definition asof_rows :: "i64 list \<Rightarrow> i64 list \<Rightarrow> i64 \<Rightarrow> i64 \<Rightarrow> nat set" where
  "asof_rows rk rt symb ts = {ri. ri < length rk \<and> rk ! ri = symb \<and> rt ! ri \<le> ts}"

lemma sorted_group:
  assumes "std_sorts srt" "rows_of rk symb \<noteq> []"
  shows "set (srt key (map f (rows_of rk symb))) = f ` {ri. ri < length rk \<and> rk ! ri = symb}"
    and "sorted (map key (srt key (map f (rows_of rk symb))))"
    and "mset (srt key (map f (rows_of rk symb))) = mset (map f (rows_of rk symb))"
proof -
  show sorted: "sorted (map key (srt key (map f (rows_of rk symb))))"
    and mset: "mset (srt key (map f (rows_of rk symb))) = mset (map f (rows_of rk symb))"
    using assms(1) unfolding std_sorts_def by blast+
  have "set (srt key (map f (rows_of rk symb))) = set (map f (rows_of rk symb))"
    using mset by (rule mset_eq_setD)
  then show "set (srt key (map f (rows_of rk symb))) = f ` {ri. ri < length rk \<and> rk ! ri = symb}" by simp
qed

definition asof_choice :: "(i64 list \<Rightarrow> i64 list) \<Rightarrow> i64 list \<Rightarrow> i64 list \<Rightarrow> i64 \<Rightarrow> i64 \<Rightarrow> i64 list" where
  "asof_choice srt rk rt symb ts =
     (let g = srt (map int (rows_of rk symb)); pos = std_upper_bound (\<lambda>i. rt ! nat i) g ts
      in if rows_of rk symb = [] \<or> pos = 0 then [] else [g ! (pos - 1)])"

lemma asof_choice_spec:
  assumes "std_sorts srt"
  shows "asof_choice (srt (\<lambda>i. rt ! nat i)) rk rt symb ts = [] \<longleftrightarrow> asof_rows rk rt symb ts = {}"
    and "asof_choice (srt (\<lambda>i. rt ! nat i)) rk rt symb ts = [x] \<Longrightarrow>
      \<exists>ri. x = int ri \<and> ri \<in> asof_rows rk rt symb ts \<and> (\<forall>rj \<in> asof_rows rk rt symb ts. rt ! rj \<le> rt ! ri)"
proof -
  let ?key = "\<lambda>i. rt ! nat i" and ?g = "srt (\<lambda>i. rt ! nat i) (map int (rows_of rk symb))"
  have none: "rows_of rk symb = [] \<Longrightarrow> asof_rows rk rt symb ts = {}"
    using set_rows_of [of rk symb] by (auto simp: asof_rows_def)
  note g = sorted_group [OF assms, where f = int and key = ?key]
  show "asof_choice (srt ?key) rk rt symb ts = [] \<longleftrightarrow> asof_rows rk rt symb ts = {}"
  proof (cases "rows_of rk symb = []")
    case True
    with none show ?thesis by (simp add: asof_choice_def)
  next
    case False
    then show ?thesis
      using std_upper_bound_last(1) [OF g(2), OF False, of ts] g(1) [OF False]
      by (auto simp: asof_choice_def Let_def asof_rows_def not_le)
  qed
  assume x: "asof_choice (srt ?key) rk rt symb ts = [x]"
  then have ne: "rows_of rk symb \<noteq> []" "std_upper_bound ?key ?g ts \<noteq> 0"
    and x: "x = ?g ! (std_upper_bound ?key ?g ts - 1)"
    by (auto simp: asof_choice_def Let_def split: if_splits)
  from std_upper_bound_last(2) [OF g(2) [OF ne(1)] ne(2)]
  have "x \<in> set ?g" "?key x \<le> ts" "\<forall>y \<in> set ?g. ?key y \<le> ts \<longrightarrow> ?key y \<le> ?key x"
    unfolding x by (simp_all add: Let_def)
  then show "\<exists>ri. x = int ri \<and> ri \<in> asof_rows rk rt symb ts \<and> (\<forall>rj \<in> asof_rows rk rt symb ts. rt ! rj \<le> rt ! ri)"
    unfolding g(1) [OF ne(1)] by (auto simp: asof_rows_def)
qed

lemma asof_execute_eq:
  assumes "length lt = length lk"
  shows "asof_execute hash srt lk rk (Some lt) (Some rt) =
    Some (Inr (of_pairs (concat (map (\<lambda>li. map (Pair (int li))
      (asof_choice (srt (\<lambda>i. rt ! nat i)) rk rt (lk ! li) (lt ! li))) [0..<length lk]))))"
proof -
  let ?srt = "srt (\<lambda>i. rt ! nat i)"
  obtain m where m: "build_map hash int rk = Some m" "fhm_repr hash [] (length rk) m (group_of int rk)"
    using build_map_find by blast
  have find: "fhm_find hash (fhm_for_each (\<lambda>symb indices. ?srt indices) m) key = Some (map_option ?srt (group_of int rk key))" for key
    using fhm.find_repr [OF fhm.repr_each [OF m(2)]] by simp
  have "for_range 0 (length lk)
      (\<lambda>li r. Option.bind (vec_get lt (int li)) (\<lambda>l_ts.
         case fhm_find hash (fhm_for_each (\<lambda>symb indices. ?srt indices) m) (lk ! li) of
           None \<Rightarrow> None
         | Some None \<Rightarrow> Some r
         | Some (Some rindices) \<Rightarrow>
             let pos = std_upper_bound (\<lambda>i. rt ! nat i) rindices l_ts
             in if pos \<noteq> 0 then Some (push_pair (int li) (rindices ! (pos - 1)) r) else Some r))
      (of_pairs []) =
    Some (of_pairs ([] @ concat (map (\<lambda>li. map (Pair (int li)) (asof_choice ?srt rk rt (lk ! li) (lt ! li))) [0..<length lk])))"
    by (rule for_range_pairs) (use assms in \<open>auto simp: find group_of_def asof_choice_def Let_def\<close>)
  with m(1) show ?thesis by (simp add: asof_execute_def)
qed

text \<open>The two-pointer scan over times that are sorted on both sides.\<close>

lemma asof_advance_eq:
  "ri \<le> length rt \<Longrightarrow>
    asof_advance rt ts ri lv =
      (let n = length (takeWhile (\<lambda>x. x \<le> ts) (drop ri rt)) in (ri + n, if n = 0 then lv else ri + n - 1))"
proof (induction rt ts ri lv rule: asof_advance.induct)
  case (1 rt ts ri lv)
  show ?case
  proof (cases "ri < length rt \<and> rt ! ri \<le> ts")
    case True
    then have "drop ri rt = rt ! ri # drop (Suc ri) rt" by (simp add: Cons_nth_drop_Suc)
    with True 1(1) [OF True] show ?thesis by (subst asof_advance.simps) (simp add: Let_def)
  next
    case False
    then have "takeWhile (\<lambda>x. x \<le> ts) (drop ri rt) = []"
      by (cases "drop ri rt") (auto simp: drop_eq_Nil nth_via_drop)
    with False show ?thesis by (subst asof_advance.simps) auto
  qed
qed

definition asof_scan :: "i64 list \<Rightarrow> i64 list \<Rightarrow> nat \<Rightarrow> (i64 \<times> i64) list" where
  "asof_scan lt rt li =
     (let pos = std_upper_bound (\<lambda>t. t) rt (lt ! li) in if pos = 0 then [] else [(int li, int (pos - 1))])"

lemma asof_advance_sorted:
  assumes "ri = length (takeWhile (\<lambda>x. x \<le> t) rt)" "t \<le> (ts :: i64)"
  shows "ri + length (takeWhile (\<lambda>x. x \<le> ts) (drop ri rt)) = length (takeWhile (\<lambda>x. x \<le> ts) rt)"
proof -
  have "take ri rt = takeWhile (\<lambda>x. x \<le> t) rt" using assms(1) by (metis takeWhile_eq_take)
  then have "\<forall>x \<in> set (take ri rt). x \<le> ts" using assms(2) by (auto dest!: set_takeWhileD)
  then have "takeWhile (\<lambda>x. x \<le> ts) (take ri rt @ drop ri rt) = take ri rt @ takeWhile (\<lambda>x. x \<le> ts) (drop ri rt)"
    by (intro takeWhile_append2) blast
  moreover have "ri \<le> length rt" unfolding assms(1) by (rule length_takeWhile_le)
  ultimately show ?thesis by simp
qed

lemma asof_match_symbol_eq:
  assumes lt: "sorted lt" and rn: "length rt \<le> SIZE_MAX"
  shows "asof_match_symbol lt rt (of_pairs ps) = Some (of_pairs (ps @ concat (map (asof_scan lt rt) [0..<length lt])))"
proof -
  let ?pos = "\<lambda>k. if k = 0 then 0 else length (takeWhile (\<lambda>x. x \<le> lt ! (k - 1)) rt)"
  let ?lv = "\<lambda>n. if n = 0 then SIZE_MAX else n - 1"
  let ?st = "\<lambda>k. (?pos k, ?lv (?pos k), of_pairs (ps @ concat (map (asof_scan lt rt) [0..<k])))"
  let ?body = "\<lambda>li (ri, last_valid_ri, r).
            let (ri, last_valid_ri) = asof_advance rt (lt ! li) ri last_valid_ri
            in Some (ri, last_valid_ri,
                 if last_valid_ri \<noteq> SIZE_MAX then push_pair (int li) (int last_valid_ri) r else r)"
  have "for_range 0 (length lt) ?body (0, SIZE_MAX, of_pairs ps) = Some (?st (length lt))"
  proof (rule for_range_eq)
    fix li assume li: "li < length lt"
    let ?n = "length (takeWhile (\<lambda>x. x \<le> lt ! li) rt)"
    have le: "?pos li \<le> length rt" by (simp add: length_takeWhile_le)
    have n: "?pos li + length (takeWhile (\<lambda>x. x \<le> lt ! li) (drop (?pos li) rt)) = ?n"
    proof (cases "li = 0")
      case False
      with lt li have "lt ! (li - 1) \<le> lt ! li" by (intro sorted_nth_mono) auto
      with False show ?thesis using asof_advance_sorted [OF refl, of "lt ! (li - 1)" "lt ! li" rt] by simp
    qed simp
    have adv: "asof_advance rt (lt ! li) (?pos li) (?lv (?pos li)) = (?n, ?lv ?n)"
      using n unfolding asof_advance_eq [OF le] Let_def by (auto simp del: length_takeWhile_le)
    have "?n \<le> length rt" by (rule length_takeWhile_le)
    then have "?lv ?n \<noteq> SIZE_MAX \<longleftrightarrow> ?n \<noteq> 0" using rn by (auto simp: SIZE_MAX_def)
    moreover have "std_upper_bound (\<lambda>t. t) rt (lt ! li) = ?n" by (simp add: std_upper_bound_def not_less)
    ultimately show "?body li (?st li) = Some (?st (Suc li))"
      using adv by (auto simp: asof_scan_def Let_def)
  qed simp_all
  then show ?thesis by (simp add: asof_match_symbol_def)
qed

section \<open>Lemmas: window join\<close>

lemma contiguous_slice:
  assumes "window_contiguous rg b e" "b < e" "e \<le> length rg" "\<And>x. x \<in> set rg \<Longrightarrow> x < length rv"
  shows "take (e - b) (drop (rg ! b) rv) = map (\<lambda>i. rv ! (rg ! i)) [b..<e]"
proof -
  have idx: "rg ! i = rg ! b + (i - b)" if "b \<le> i" "i < e" for i
    using assms(1) that by (cases "i = b") (auto simp: window_contiguous_def list_all_iff)
  have "rg ! (e - 1) < length rv" using assms by (intro assms(4)) simp
  then have fit: "rg ! b + (e - b) \<le> length rv" using idx [of "e - 1"] assms(2) by simp
  show ?thesis
  proof (rule nth_equalityI)
    fix i assume "i < length (take (e - b) (drop (rg ! b) rv))"
    then show "take (e - b) (drop (rg ! b) rv) ! i = map (\<lambda>i. rv ! (rg ! i)) [b..<e] ! i"
      using fit idx [of "b + i"] by simp
  qed (use fit in simp)
qed

lemma gathered_slice: "b \<le> e \<Longrightarrow> map (\<lambda>i. rv ! (rg ! (b + i))) [0..<e - b] = map (\<lambda>i. rv ! (rg ! i)) [b..<e]"
  by (rule nth_equalityI) auto

lemma fold_wrap_sum: "fold (\<lambda>x acc. wrap64 (acc + x)) xs (wrap64 a) = wrap64 (a + sum_list xs)"
  by (induction xs arbitrary: a) (simp_all add: add.assoc)

lemma fold_min:
  fixes xs :: "i64 list"
  assumes "xs \<noteq> []" "\<forall>x \<in> set xs. x \<le> a"
  shows "fold (\<lambda>x acc. min acc x) xs a = Min (set xs)"
proof -
  have "(\<lambda>x acc. min acc x) = (min :: i64 \<Rightarrow> i64 \<Rightarrow> i64)" by (simp add: fun_eq_iff min.commute)
  then have "fold (\<lambda>x acc. min acc x) xs a = Min (set (a # xs))" by (simp only: Min.set_eq_fold)
  also have "\<dots> = min a (Min (set xs))" using assms(1) by simp
  finally show ?thesis using assms by (simp add: min_absorb2)
qed

lemma fold_max:
  fixes xs :: "i64 list"
  assumes "xs \<noteq> []" "\<forall>x \<in> set xs. a \<le> x"
  shows "fold (\<lambda>x acc. max acc x) xs a = Max (set xs)"
proof -
  have "(\<lambda>x acc. max acc x) = (max :: i64 \<Rightarrow> i64 \<Rightarrow> i64)" by (simp add: fun_eq_iff max.commute)
  then have "fold (\<lambda>x acc. max acc x) xs a = Max (set (a # xs))" by (simp only: Max.set_eq_fold)
  also have "\<dots> = max a (Max (set xs))" using assms(1) by simp
  finally show ?thesis using assms by (simp add: max_absorb2)
qed

text \<open>
  The aggregate of a window, by its values alone. An extreme equal to the start value of the scan is
  reported as zero, as in the source.
\<close>

definition window_agg :: "WJAggType \<Rightarrow> i64 list \<Rightarrow> i64" where
  "window_agg agg vs =
     (if vs = [] then 0
      else case agg of
        WJ_SUM \<Rightarrow> wrap64 (sum_list vs)
      | WJ_COUNT \<Rightarrow> int (length vs)
      | WJ_MIN \<Rightarrow> (if Min (set vs) = INT64_MAX then 0 else Min (set vs))
      | WJ_MAX \<Rightarrow> (if Max (set vs) = INT64_MIN then 0 else Max (set vs))
      | WJ_AVG \<Rightarrow> 0)"

lemma window_agg_mset:
  assumes "mset vs = mset ws"
  shows "window_agg agg vs = window_agg agg ws"
proof -
  have "length vs = length ws" "set vs = set ws" "sum_list vs = sum_list ws"
    using mset_eq_length [OF assms] mset_eq_setD [OF assms] assms by (metis sum_mset_sum_list)+
  moreover from this(1) have "vs = [] \<longleftrightarrow> ws = []" by auto
  ultimately show ?thesis unfolding window_agg_def by (cases agg) simp_all
qed

lemma aggregate_window_eq:
  assumes H: "hwy_documented H" and agg: "agg \<noteq> WJ_AVG" and be: "b < e" "e \<le> length rg"
    and rg: "\<And>x. x \<in> set rg \<Longrightarrow> x < length rv" and rv: "\<forall>x \<in> set rv. in_i64 x"
  shows "aggregate_window H fp agg rv rg b e =
    (window_agg agg (map ((!) rv) (take (e - b) (drop b rg))), int (e - b))"
proof -
  let ?vs = "map (\<lambda>i. rv ! (rg ! i)) [b..<e]"
  let ?vals = "if window_contiguous rg b e then Some (take (e - b) (drop (rg ! b) rv))
               else if 32 \<le> e - b then Some (map (\<lambda>i. rv ! (rg ! (b + i))) [0..<e - b]) else None"
  have vals: "?vals = None \<or> ?vals = Some ?vs"
    using contiguous_slice [of rg b e rv, OF _ be rg] gathered_slice [of b e rv rg, OF less_imp_le [OF be(1)]] by presburger
  have vs: "map ((!) rv) (take (e - b) (drop b rg)) = ?vs" by (rule nth_equalityI) (use be in auto)
  have ne: "?vs \<noteq> []" using be by simp
  have range: "\<forall>x \<in> set ?vs. x \<le> INT64_MAX \<and> INT64_MIN \<le> x"
  proof
    fix x assume "x \<in> set ?vs"
    then obtain i where "i < e" "x = rv ! (rg ! i)" by auto
    moreover from this be have "rg ! i < length rv" by (intro rg) simp
    ultimately have "in_i64 x" using rv by simp
    then show "x \<le> INT64_MAX \<and> INT64_MIN \<le> x" by (simp add: in_i64_def)
  qed
  have pick: "(case ?vals of Some v \<Rightarrow> v | None \<Rightarrow> ?vs) = ?vs"
    using vals by (elim disjE) (simp_all only: option.case)
  have sums: "sum_i64 H ?vs = wrap64 (sum_list ?vs)" "fold (\<lambda>x acc. wrap64 (acc + x)) ?vs 0 = wrap64 (sum_list ?vs)"
    using fold_wrap_sum [of ?vs 0] by (simp_all add: sum_i64_def sum_i64_simd_eq [OF H])
  have count: "int e - int b = int (e - b)" "nat (int e - int b) = e - b" "int e - int b \<noteq> 0" using be by auto
  have pick_sum: "(case ?vals of Some v \<Rightarrow> sum_i64 H v | None \<Rightarrow> fold (\<lambda>x acc. wrap64 (acc + x)) ?vs 0) = wrap64 (sum_list ?vs)"
    using vals by (elim disjE) (simp_all only: option.case sums)
  have min: "fold (\<lambda>x acc. min acc x) ?vs INT64_MAX = Min (set ?vs)" by (rule fold_min [OF ne]) (use range in blast)
  have max: "fold (\<lambda>x acc. max acc x) ?vs INT64_MIN = Max (set ?vs)" by (rule fold_max [OF ne]) (use range in blast)
  show ?thesis
  proof (cases agg)
    case WJ_SUM
    then show ?thesis
      unfolding aggregate_window_def Let_def vs count(2) WJ_SUM WJAggType.case pick_sum
      using count(3) ne be by (simp add: window_agg_def of_nat_diff)
  next
    case WJ_COUNT
    then show ?thesis
      unfolding aggregate_window_def Let_def vs WJ_COUNT using count(3) ne be by (simp add: window_agg_def of_nat_diff)
  next
    case WJ_MIN
    then show ?thesis
      unfolding aggregate_window_def Let_def vs count(2) WJ_MIN WJAggType.case pick min
      using count(3) ne be by (simp add: window_agg_def of_nat_diff)
  next
    case WJ_MAX
    then show ?thesis
      unfolding aggregate_window_def Let_def vs count(2) WJ_MAX WJAggType.case pick max
      using count(3) ne be by (simp add: window_agg_def of_nat_diff)
  qed (use agg in blast)
qed

definition window_rows ::
  "window_join_operator \<Rightarrow> i64 list \<Rightarrow> i64 list \<Rightarrow> i64 list \<Rightarrow> i64 list \<Rightarrow> nat \<Rightarrow> nat list" where
  "window_rows wj lk rk lt rt li =
     filter (\<lambda>ri. wrap64 (lt ! li - window_before wj) \<le> rt ! ri \<and> rt ! ri \<le> wrap64 (lt ! li + window_after wj))
       (rows_of rk (lk ! li))"

lemma window_row:
  fixes rt :: "i64 list" and lo hi :: i64
  assumes srt: "std_sorts srt" and H: "hwy_documented H" and agg: "agg \<noteq> WJ_AVG"
    and rv: "length rv = length rk" "\<forall>x \<in> set rv. in_i64 x" and ne: "rows_of rk symb \<noteq> []"
  defines "g \<equiv> srt (\<lambda>i. rt ! i) (map id (rows_of rk symb))"
  defines "ws \<equiv> filter (\<lambda>ri. lo \<le> rt ! ri \<and> rt ! ri \<le> hi) (rows_of rk symb)"
  defines "b \<equiv> std_lower_bound (\<lambda>i. rt ! i) g lo" and "e \<equiv> std_upper_bound (\<lambda>i. rt ! i) g hi"
  shows "e \<le> b \<Longrightarrow> ws = []"
    and "b < e \<Longrightarrow> aggregate_window H fp agg rv g b e = (window_agg agg (map ((!) rv) ws), int (length ws))"
proof -
  note g = sorted_group [OF srt ne, where f = id and key = "\<lambda>i. rt ! i", folded g_def]
  have slice: "take (e - b) (drop b g) = filter (\<lambda>ri. lo \<le> rt ! ri \<and> rt ! ri \<le> hi) g"
    unfolding b_def e_def by (rule window_slice [OF g(2)])
  have mset: "mset (take (e - b) (drop b g)) = mset ws"
    unfolding slice ws_def mset_filter g(3) by simp
  show "ws = []" if "e \<le> b" using that mset by simp
  assume be: "b < e"
  have e: "e \<le> length g" unfolding e_def std_upper_bound_def by (rule length_takeWhile_le)
  have "aggregate_window H fp agg rv g b e = (window_agg agg (map ((!) rv) (take (e - b) (drop b g))), int (e - b))"
    by (rule aggregate_window_eq [OF H agg be e _ rv(2)]) (use g(1) rv(1) in auto)
  moreover have "window_agg agg (map ((!) rv) (take (e - b) (drop b g))) = window_agg agg (map ((!) rv) ws)"
    by (rule window_agg_mset) (simp add: mset)
  moreover have "e - b = length ws" using mset_eq_length [OF mset] e by simp
  ultimately show "aggregate_window H fp agg rv g b e = (window_agg agg (map ((!) rv) ws), int (length ws))" by simp
qed

lemma window_join_execute_eq:
  assumes srt: "std_sorts srt" and H: "hwy_documented H" and agg: "agg_type wj \<noteq> WJ_AVG"
    and lt: "length lt = length lk" and rv: "length rv = length rk" "\<forall>x \<in> set rv. in_i64 x"
  shows "window_join_execute hash srt H fp wj lk rk lt rt rv = Some \<lparr>
    wj_left_indices = map int [0..<length lk],
    agg_values = map (\<lambda>li. window_agg (agg_type wj) (map ((!) rv) (window_rows wj lk rk lt rt li))) [0..<length lk],
    match_counts = map (\<lambda>li. int (length (window_rows wj lk rk lt rt li))) [0..<length lk]\<rparr>"
proof -
  let ?ln = "length lk" and ?srt = "srt (\<lambda>i. rt ! i)"
  let ?ws = "window_rows wj lk rk lt rt"
  let ?agg = "\<lambda>li. window_agg (agg_type wj) (map ((!) rv) (?ws li))" and ?cnt = "\<lambda>li. int (length (?ws li))"
  let ?st = "\<lambda>k. \<lparr>wj_left_indices = map int [0..<k] @ replicate (?ln - k) 0,
    agg_values = map ?agg [0..<k] @ replicate (?ln - k) 0, match_counts = map ?cnt [0..<k] @ replicate (?ln - k) 0\<rparr>"
  obtain m where m: "build_map hash id rk = Some m" "fhm_repr hash [] (length rk) m (group_of id rk)"
    using build_map_find by blast
  have find: "fhm_find hash (fhm_for_each (\<lambda>symb indices. ?srt indices) m) key = Some (map_option ?srt (group_of id rk key))" for key
    using fhm.find_repr [OF fhm.repr_each [OF m(2)]] by simp
  let ?body = "\<lambda>li r. let r = r\<lparr>wj_left_indices := (wj_left_indices r)[li := int li]\<rparr>
    in case fhm_find hash (fhm_for_each (\<lambda>symb indices. ?srt indices) m) (lk ! li) of
         None \<Rightarrow> None
       | Some None \<Rightarrow> Some r
       | Some (Some rg) \<Rightarrow>
           Option.bind (vec_get lt (int li)) (\<lambda>t.
             let t_lo = wrap64 (t - window_before wj);
                 t_hi = wrap64 (t + window_after wj);
                 b = std_lower_bound (\<lambda>i. rt ! i) rg t_lo;
                 e = std_upper_bound (\<lambda>i. rt ! i) rg t_hi
             in if e \<le> b then Some r
                else let (v, cnt) = aggregate_window H fp (agg_type wj) rv rg b e
                     in Some (r\<lparr>agg_values := (agg_values r)[li := v], match_counts := (match_counts r)[li := cnt]\<rparr>))"
  have step: "?body li (?st li) = Some (?st (Suc li))" if li: "li < ?ln" for li
  proof (cases "rows_of rk (lk ! li) = []")
    case True
    then have "?ws li = []" by (simp add: window_rows_def)
    with li True show ?thesis
      by (simp add: find group_of_def prefix_update prefix_keep window_agg_def del: upt_Suc)
  next
    case False
    let ?lo = "wrap64 (lt ! li - window_before wj)" and ?hi = "wrap64 (lt ! li + window_after wj)"
    let ?g = "?srt (map id (rows_of rk (lk ! li)))"
    let ?b = "std_lower_bound (\<lambda>i. rt ! i) ?g ?lo" and ?e = "std_upper_bound (\<lambda>i. rt ! i) ?g ?hi"
    note row = window_row [OF srt H agg rv False, where rt = rt and lo = ?lo and hi = ?hi]
    have ws: "filter (\<lambda>ri. ?lo \<le> rt ! ri \<and> rt ! ri \<le> ?hi) (rows_of rk (lk ! li)) = ?ws li"
      by (simp add: window_rows_def)
    show ?thesis
    proof (cases "?e \<le> ?b")
      case True
      with row(1) have "?ws li = []" by (simp only: ws)
      with li False True lt show ?thesis
        by (simp add: find group_of_def prefix_update prefix_keep window_agg_def del: upt_Suc)
    next
      case less: False
      then have "?b < ?e" by (simp only: not_le)
      from row(2) [OF this] have "aggregate_window H fp (agg_type wj) rv ?g ?b ?e = (?agg li, ?cnt li)"
        by (simp only: ws)
      with li False less lt show ?thesis
        using prefix_update [OF li, of ?agg 0] prefix_update [OF li, of ?cnt 0] prefix_update [OF li, of int 0]
        by (simp add: find group_of_def del: upt_Suc)
    qed
  qed
  have "for_range 0 ?ln ?body (?st 0) = Some (?st ?ln)"
    by (rule for_range_eq [where f = ?st]) (use step in blast)+
  with m(1) show ?thesis by (simp add: window_join_execute_def) (simp add: Let_def)
qed

section \<open>Lemmas: the join as a relation\<close>

lemma distinct_concat_keyed:
  assumes "\<And>i. distinct (f i)" "\<And>i x. x \<in> set (f i) \<Longrightarrow> key x = int i"
  shows "distinct (concat (map f [0..<n]))"
proof (induction n)
  case (Suc n)
  have "x \<notin> set (f i)" if "x \<in> set (f n)" "i < n" for x i
    using assms(2) [OF that(1)] assms(2) [of x i] that(2) by auto
  with Suc assms(1) show ?case by auto
qed simp

definition matching_pairs :: "i64 list \<Rightarrow> i64 list \<Rightarrow> (i64 \<times> i64) set" where
  "matching_pairs lk rk = {(int li, int ri) | li ri. li < length lk \<and> ri < length rk \<and> lk ! li = rk ! ri}"

definition unmatched_left :: "i64 list \<Rightarrow> i64 list \<Rightarrow> (i64 \<times> i64) set" where
  "unmatched_left lk rk = {(int li, - 1) | li. li < length lk \<and> lk ! li \<notin> set rk}"

definition unmatched_right :: "i64 list \<Rightarrow> i64 list \<Rightarrow> (i64 \<times> i64) set" where
  "unmatched_right lk rk = {(- 1, int ri) | ri. ri < length rk \<and> rk ! ri \<notin> set lk}"

lemma rows_of_eq_Nil: "rows_of ks key = [] \<longleftrightarrow> key \<notin> set ks"
  using set_rows_of [of ks key] by (auto simp: in_set_conv_nth simp flip: set_empty)

lemma distinct_probe_left: "distinct (concat (map (probe_left lk rk outer) [0..<n]))"
  by (rule distinct_concat_keyed [where key = fst])
    (auto simp: probe_left_def distinct_map inj_on_def sorted_rows_of split: if_splits)

lemma distinct_probe_right: "distinct (concat (map (probe_right lk rk) [0..<n]))"
  by (rule distinct_concat_keyed [where key = snd])
    (auto simp: probe_right_def distinct_map inj_on_def sorted_rows_of split: if_splits)

lemma set_probe_left:
  "set (concat (map (probe_left lk rk outer) [0..<length lk])) =
     matching_pairs lk rk \<union> (if outer then unmatched_left lk rk else {})"
  by (auto simp: probe_left_def matching_pairs_def unmatched_left_def rows_of_eq_Nil split: if_splits)

lemma set_probe_right:
  "set (concat (map (probe_right lk rk) [0..<length rk])) = matching_pairs lk rk \<union> unmatched_right lk rk"
proof -
  have "set (probe_right lk rk ri) = {(int li, int ri) | li. li < length lk \<and> lk ! li = rk ! ri} \<union>
      (if rk ! ri \<in> set lk then {} else {(- 1, int ri)})" for ri
    by (auto simp: probe_right_def rows_of_eq_Nil) (metis nth_mem)
  then show ?thesis by (auto simp: matching_pairs_def unmatched_right_def split: if_splits)
qed

lemma join_spec_relation:
  "distinct (join_spec t lk rk)"
  "set (join_spec t lk rk) = matching_pairs lk rk \<union>
     (if t = LEFT \<or> t = FULL then unmatched_left lk rk else {}) \<union>
     (if t = RIGHT \<or> t = FULL then unmatched_right lk rk else {})"
proof -
  show set: "set (join_spec t lk rk) = matching_pairs lk rk \<union>
     (if t = LEFT \<or> t = FULL then unmatched_left lk rk else {}) \<union>
     (if t = RIGHT \<or> t = FULL then unmatched_right lk rk else {})"
    unfolding join_spec_def using set_probe_left [of lk rk] set_probe_right [of lk rk]
    by (cases t) (auto simp: unmatched_right_def simp del: set_concat)
  show "distinct (join_spec t lk rk)"
    unfolding join_spec_def using distinct_probe_left [of lk rk] distinct_probe_right [of lk rk] set_probe_left [of lk rk]
    by (cases t) (auto simp: distinct_map inj_on_def matching_pairs_def unmatched_left_def simp del: set_concat)
qed

lemma std_sorts_sort_key: "std_sorts sort_key"
  by (simp add: std_sorts_def)

lemma asof_execute_parts:
  fixes rk rt :: "i64 list"
  assumes "std_sorts srt" "length lt = length lk"
  defines "ok \<equiv> \<lambda>li. asof_rows rk rt (lk ! li) (lt ! li) \<noteq> {}"
  shows "\<exists>ps. asof_execute hash srt lk rk (Some lt) (Some rt) = Some (Inr (of_pairs ps)) \<and>
    map fst ps = map int (filter ok [0..<length lk]) \<and>
    (\<forall>(l, r) \<in> set ps. let li = nat l; ri = nat r in
        0 \<le> r \<and> ri \<in> asof_rows rk rt (lk ! li) (lt ! li) \<and> (\<forall>rj \<in> asof_rows rk rt (lk ! li) (lt ! li). rt ! rj \<le> rt ! ri))"
proof -
  let ?c = "\<lambda>li. asof_choice (srt (\<lambda>i. rt ! nat i)) rk rt (lk ! li) (lt ! li)"
  let ?ps = "concat (map (\<lambda>li. map (Pair (int li)) (?c li)) [0..<length lk])"
  note spec = asof_choice_spec [OF assms(1)]
  have one: "?c li = [] \<or> (\<exists>x. ?c li = [x])" for li by (simp add: asof_choice_def Let_def)
  have "map fst (concat (map (\<lambda>li. map (Pair (int li)) (?c li)) xs)) = map int (filter ok xs)" for xs
  proof (induction xs)
    case (Cons li xs)
    then show ?case using one [of li] spec(1) [of rt rk "lk ! li" "lt ! li"] by (auto simp: ok_def)
  qed simp
  moreover have "let li = nat l; ri = nat r in 0 \<le> r \<and> ri \<in> asof_rows rk rt (lk ! li) (lt ! li) \<and>
      (\<forall>rj \<in> asof_rows rk rt (lk ! li) (lt ! li). rt ! rj \<le> rt ! ri)" if "(l, r) \<in> set ?ps" for l r
  proof -
    from that obtain li where li: "l = int li" "r \<in> set (?c li)" by auto
    with one [of li] have "?c li = [r]" by auto
    from spec(2) [OF this] li show ?thesis by (auto simp: Let_def)
  qed
  ultimately show ?thesis using asof_execute_eq [OF assms(2)] by blast
qed

section \<open>Properties\<close>

text \<open>
  C1. The hash join returns, for every join type and every hash function, exactly the pairs of the
  relational join without duplicates, in probe order with each bucket in row order: the matching
  pairs, for LEFT and FULL also every left row without a partner paired with \<open>-1\<close>, for RIGHT and FULL
  also every right row without a partner. The match count is the number of pairs.
\<close>

theorem hash_join_correct:
  "hash_join_execute hash t lk rk = Some (of_pairs (join_spec t lk rk)) \<and>
   distinct (join_spec t lk rk) \<and>
   set (join_spec t lk rk) = matching_pairs lk rk \<union>
     (if t = LEFT \<or> t = FULL then unmatched_left lk rk else {}) \<union>
     (if t = RIGHT \<or> t = FULL then unmatched_right lk rk else {})"
  by (intro conjI hash_join_execute_eq join_spec_relation)

text \<open>
  C2. The as-of join matches a left row exactly when some right row has its key and is not later, keeps
  the left rows in order, and pairs each with a right row of the same key whose time is the latest
  among those not later than the left time, whichever way the sort orders equal times.
\<close>

theorem asof_join_correct:
  assumes "std_sorts srt" "length lt = length lk" "length rt = length rk"
  shows "\<exists>ps. asof_execute hash srt lk rk (Some lt) (Some rt) = Some (Inr (of_pairs ps)) \<and>
    map fst ps = map int (filter (\<lambda>li. asof_rows rk rt (lk ! li) (lt ! li) \<noteq> {}) [0..<length lk]) \<and>
    (\<forall>(l, r) \<in> set ps. let li = nat l; ri = nat r in
        0 \<le> r \<and> ri \<in> asof_rows rk rt (lk ! li) (lt ! li) \<and>
        (\<forall>rj \<in> asof_rows rk rt (lk ! li) (lt ! li). rt ! rj \<le> rt ! ri))"
  by (rule asof_execute_parts [OF assms(1,2)])

lemma asof_rows_code:
  "asof_rows rk rt k ts = set (filter (\<lambda>ri. rk ! ri = k \<and> rt ! ri \<le> ts) [0..<length rk])"
  by (auto simp: asof_rows_def)

theorem asof_join_correct_witness:
  "\<exists>ps. asof_execute hash_i64 sort_key [7, 8] [7, 7, 8] (Some [15, 4]) (Some [20, 10, 5]) = Some (Inr (of_pairs ps)) \<and>
    map fst ps = [0] \<and> (\<forall>(l, r) \<in> set ps. nat r = 1)"
proof -
  have rows: "asof_rows [7, 7, 8] [20, 10, 5] 7 15 = {1}" "asof_rows [7, 7, 8] [20, 10, 5] 8 4 = {}"
    by (auto simp: asof_rows_code)
  have "[7, 8] ! nat l = (7 :: i64) \<and> [15, 4] ! nat l = (15 :: i64)" if "l = 0" for l :: i64 using that by simp
  with asof_join_correct [OF std_sorts_sort_key, of "[15, 4]" "[7, 8]" "[20, 10, 5]" "[7, 7, 8]" hash_i64] rows
  obtain ps where ps: "asof_execute hash_i64 sort_key [7, 8] [7, 7, 8] (Some [15, 4]) (Some [20, 10, 5]) = Some (Inr (of_pairs ps))"
    "map fst ps = [0]"
    "\<forall>(l, r) \<in> set ps. nat r \<in> asof_rows [7, 7, 8] [20, 10, 5] ([7, 8] ! nat l) ([15, 4] ! nat l)"
    by (auto simp: Let_def upt_rec)
  have "\<forall>(l, r) \<in> set ps. nat r = 1"
  proof clarify
    fix l r assume lr: "(l, r) \<in> set ps"
    then have "l \<in> set (map fst ps)" by (metis fst_conv image_eqI list.set_map)
    with lr ps(2,3) have "nat r \<in> asof_rows [7, 7, 8] [20, 10, 5] 7 15" by fastforce
    with rows show "nat r = 1" by simp
  qed
  with ps(1,2) show ?thesis by (intro exI [of _ ps] conjI)
qed

text \<open>
  C22. On left times in ascending order the linear two-pointer scan produces the pairs of the binary
  search: for each left row the last right position that is not later, and no pair when there is none.
\<close>

theorem asof_two_pointer_equiv:
  assumes "sorted lt" "length rt \<le> SIZE_MAX"
  shows "asof_match_symbol lt rt (of_pairs ps) =
    Some (of_pairs (ps @ concat (map (\<lambda>li.
      let pos = std_upper_bound (\<lambda>t. t) rt (lt ! li) in if pos = 0 then [] else [(int li, int (pos - 1))]) [0..<length lt])))"
  using asof_match_symbol_eq [OF assms] by (simp add: asof_scan_def [abs_def])

theorem asof_two_pointer_equiv_witness:
  "asof_match_symbol [5, 12, 30] [10, 11, 20] (of_pairs []) = Some (of_pairs [(1, 1), (2, 2)])"
  using asof_two_pointer_equiv [of "[5, 12, 30]" "[10, 11, 20]" "[]"]
  by (simp add: SIZE_MAX_def std_upper_bound_def upt_rec)



end
