(* ===== verification/Window_Function.thy ===== *)
theory Window_Function
  imports Zepto_Prelude
begin

text \<open>
  The window functions of \<^verbatim>\<open>src/include/zeptodb/execution/window_function.h\<close>. Each function runs a
  kernel on every partition, a maximal run of rows with the same partition key. The locale
  \<open>partition_kernel\<close> is the contract of a kernel: it stores its value at every row of the partition
  and nothing elsewhere. Its lemma lifts a kernel to the whole column, and every function of the source
  is an interpretation.
\<close>

section \<open>Frames and partitions\<close>

datatype frame_type = ROWS | RANGE

record window_frame =
  ftype :: frame_type
  preceding :: i64
  following :: i64

definition compute_partition_bounds :: "i64 list \<Rightarrow> nat \<Rightarrow> nat list option" where
  "compute_partition_bounds keys n =
     map_option (\<lambda>bounds. bounds @ [n])
       (for_range 1 n
         (\<lambda>i bounds. Option.bind (vec_get keys (int i)) (\<lambda>k. Option.bind (vec_get keys (int i - 1)) (\<lambda>k'.
            if k \<noteq> k' then Some (bounds @ [i]) else Some bounds)))
         [0])"

text \<open>The loop over the partitions, which every \<open>compute\<close> of the source repeats.\<close>

definition run_partitions :: "(nat \<Rightarrow> nat \<Rightarrow> 's \<Rightarrow> 's option) \<Rightarrow> nat list \<Rightarrow> 's \<Rightarrow> 's option" where
  "run_partitions fn bounds st =
     for_range 0 (length bounds - 1) (\<lambda>p. fn (bounds ! p) (bounds ! (p + 1))) st"

definition compute_partitions ::
  "(nat \<Rightarrow> nat \<Rightarrow> 's \<Rightarrow> 's option) \<Rightarrow> i64 list option \<Rightarrow> nat \<Rightarrow> 's \<Rightarrow> 's option" where
  "compute_partitions fn partition_keys n st =
     (case partition_keys of
        None \<Rightarrow> fn 0 n st
      | Some keys \<Rightarrow> Option.bind (compute_partition_bounds keys n) (\<lambda>bounds. run_partitions fn bounds st))"

definition frame_start :: "i64 \<Rightarrow> i64 \<Rightarrow> i64" where
  "frame_start prec row = (if prec = INT64_MAX then 0 else max 0 (wrap64 (row - prec)))"

definition frame_end :: "i64 \<Rightarrow> nat \<Rightarrow> i64 \<Rightarrow> i64" where
  "frame_end foll len row =
     (if foll = INT64_MAX then int len else min (int len) (wrap64 (wrap64 (row + foll) + 1)))"

section \<open>Kernels\<close>

definition prefix_sums :: "i64 list \<Rightarrow> nat \<Rightarrow> nat \<Rightarrow> i64 list option" where
  "prefix_sums input start len =
     for_range 0 len
       (\<lambda>i prefix. Option.bind (vec_get prefix (int i)) (\<lambda>s. Option.bind (vec_get input (int (start + i))) (\<lambda>x.
          vec_set prefix (int (i + 1)) (wrap64 (s + x)))))
       (replicate (len + 1) 0)"

definition sliding_sum_partition ::
  "i64 list \<Rightarrow> i64 \<Rightarrow> i64 \<Rightarrow> nat \<Rightarrow> nat \<Rightarrow> i64 list \<Rightarrow> i64 list option" where
  "sliding_sum_partition input prec foll start e output =
     (let len = e - start
      in Option.bind (prefix_sums input start len) (\<lambda>prefix.
           for_range 0 len
             (\<lambda>i output.
                Option.bind (vec_get prefix (frame_end foll len (int i))) (\<lambda>hi.
                Option.bind (vec_get prefix (frame_start prec (int i))) (\<lambda>lo.
                  vec_set output (int (start + i)) (wrap64 (hi - lo)))))
             output))"

definition sliding_count_partition :: "i64 \<Rightarrow> i64 \<Rightarrow> nat \<Rightarrow> nat \<Rightarrow> i64 list \<Rightarrow> i64 list option" where
  "sliding_count_partition prec foll start e output =
     (let len = e - start
      in for_range 0 len
           (\<lambda>i output. vec_set output (int (start + i)) (frame_end foll len (int i) - frame_start prec (int i)))
           output)"

text \<open>
  The monotone deque of the sliding extremes: indices that left the frame are erased at the front,
  entries the new value beats are popped at the back. \<open>beaten back x\<close> is \<open>back \<ge> x\<close> for the
  minimum and \<open>back \<le> x\<close> for the maximum. Neither function uses the end of the frame.
\<close>

definition pop_back_while :: "('a \<Rightarrow> bool) \<Rightarrow> 'a list \<Rightarrow> 'a list" where
  "pop_back_while P dq = rev (dropWhile P (rev dq))"

definition deque_step :: "(i64 \<Rightarrow> i64 \<Rightarrow> bool) \<Rightarrow> i64 list \<Rightarrow> i64 \<Rightarrow> nat \<Rightarrow> nat \<Rightarrow> nat list \<Rightarrow> nat list" where
  "deque_step beaten input prec start i dq =
     (let fs = frame_start prec (int i);
          dq = dropWhile (\<lambda>j. int j < fs) dq;
          dq = pop_back_while (\<lambda>j. beaten (input ! (start + j)) (input ! (start + i))) dq
      in dq @ [i])"

definition sliding_extreme ::
  "(i64 \<Rightarrow> i64 \<Rightarrow> bool) \<Rightarrow> i64 list \<Rightarrow> i64 \<Rightarrow> nat \<Rightarrow> nat \<Rightarrow> i64 list \<Rightarrow> i64 list option" where
  "sliding_extreme beaten input prec start e output =
     map_option snd
       (for_range 0 (e - start)
         (\<lambda>i (dq, output).
            let dq = deque_step beaten input prec start i dq
            in Option.bind (vec_get input (int (start + hd dq))) (\<lambda>x.
                 map_option (Pair dq) (vec_set output (int (start + i)) x)))
         ([], output))"

definition sliding_min_partition ::
  "i64 list \<Rightarrow> i64 \<Rightarrow> i64 \<Rightarrow> nat \<Rightarrow> nat \<Rightarrow> i64 list \<Rightarrow> i64 list option" where
  "sliding_min_partition input prec foll = sliding_extreme (\<lambda>back x. back \<ge> x) input prec"

definition sliding_max_partition ::
  "i64 list \<Rightarrow> i64 \<Rightarrow> i64 \<Rightarrow> nat \<Rightarrow> nat \<Rightarrow> i64 list \<Rightarrow> i64 list option" where
  "sliding_max_partition input prec foll = sliding_extreme (\<lambda>back x. back \<le> x) input prec"

definition do_row_number :: "nat \<Rightarrow> nat \<Rightarrow> i64 list \<Rightarrow> i64 list option" where
  "do_row_number start e output =
     for_range start e (\<lambda>i output. vec_set output (int i) (int (i - start + 1))) output"

definition do_rank :: "i64 list \<Rightarrow> nat \<Rightarrow> nat \<Rightarrow> i64 list \<Rightarrow> i64 list option" where
  "do_rank input start e output =
     map_option snd
       (for_range start e
         (\<lambda>i (rank, output).
            let rank = (if i = start \<or> input ! i \<noteq> input ! (i - 1) then int (i - start + 1) else rank)
            in map_option (Pair rank) (vec_set output (int i) rank))
         (1, output))"

definition do_dense_rank :: "i64 list \<Rightarrow> nat \<Rightarrow> nat \<Rightarrow> i64 list \<Rightarrow> i64 list option" where
  "do_dense_rank input start e output =
     map_option snd
       (for_range start e
         (\<lambda>i (rank, output).
            let rank = (if start < i \<and> input ! i \<noteq> input ! (i - 1) then rank + 1 else rank)
            in map_option (Pair rank) (vec_set output (int i) rank))
         (1 :: i64, output))"

definition do_lag :: "i64 list \<Rightarrow> i64 \<Rightarrow> i64 \<Rightarrow> nat \<Rightarrow> nat \<Rightarrow> i64 list \<Rightarrow> i64 list option" where
  "do_lag input offset default_val start e output =
     for_range start e
       (\<lambda>i output.
          let src = wrap64 (int i - offset)
          in if src < int start then vec_set output (int i) default_val
             else Option.bind (vec_get input src) (vec_set output (int i)))
       output"

definition do_lead :: "i64 list \<Rightarrow> i64 \<Rightarrow> i64 \<Rightarrow> nat \<Rightarrow> nat \<Rightarrow> i64 list \<Rightarrow> i64 list option" where
  "do_lead input offset default_val start e output =
     for_range start e
       (\<lambda>i output.
          let src = wrap64 (int i + offset)
          in if int e \<le> src then vec_set output (int i) default_val
             else Option.bind (vec_get input src) (vec_set output (int i)))
       output"

definition do_delta :: "i64 list \<Rightarrow> nat \<Rightarrow> nat \<Rightarrow> i64 list \<Rightarrow> i64 list option" where
  "do_delta input start e output =
     (if e \<le> start then Some output
      else Option.bind (vec_get input (int start)) (\<lambda>x. Option.bind (vec_set output (int start) x) (\<lambda>output.
        for_range (start + 1) e
          (\<lambda>i output. Option.bind (vec_get input (int i)) (\<lambda>x. Option.bind (vec_get input (int i - 1)) (\<lambda>y.
             vec_set output (int i) (wrap64 (x - y)))))
          output)))"

definition do_ema :: "'f fp_ops \<Rightarrow> 'f \<Rightarrow> i64 list \<Rightarrow> nat \<Rightarrow> nat \<Rightarrow> i64 list \<Rightarrow> i64 list option" where
  "do_ema fp alpha input start e output =
     (if e \<le> start then Some output
      else Option.bind (vec_get input (int start)) (\<lambda>x.
        let ema = fp_of_int fp x
        in Option.bind (vec_set output (int start) (fp_to_int fp ema)) (\<lambda>output.
             map_option snd
               (for_range (start + 1) e
                 (\<lambda>i (ema, output). Option.bind (vec_get input (int i)) (\<lambda>x.
                    let ema = fp_add fp (fp_mul fp alpha (fp_of_int fp x))
                                (fp_mul fp (fp_sub fp (fp_of_int fp 1) alpha) ema)
                    in map_option (Pair ema) (vec_set output (int i) (fp_to_int fp ema))))
                 (ema, output)))))"

definition do_ratio :: "'f fp_ops \<Rightarrow> i64 list \<Rightarrow> nat \<Rightarrow> nat \<Rightarrow> i64 list \<Rightarrow> i64 list option" where
  "do_ratio fp input start e output =
     (if e \<le> start then Some output
      else Option.bind (vec_set output (int start) 1000000) (\<lambda>output.
        for_range (start + 1) e
          (\<lambda>i output. Option.bind (vec_get input (int i)) (\<lambda>x. Option.bind (vec_get input (int i - 1)) (\<lambda>y.
             vec_set output (int i)
               (if y \<noteq> 0 then fp_to_int fp (fp_mul fp (fp_div fp (fp_of_int fp x) (fp_of_int fp y)) (fp_of_int fp 1000000))
                else 0))))
          output))"

section \<open>Window functions\<close>

definition WindowRowNumber_compute :: "nat \<Rightarrow> i64 list option \<Rightarrow> i64 list \<Rightarrow> i64 list option" where
  "WindowRowNumber_compute n partition_keys output =
     (case partition_keys of
        None \<Rightarrow> for_range 0 n (\<lambda>i output. vec_set output (int i) (int (i + 1))) output
      | Some _ \<Rightarrow> compute_partitions do_row_number partition_keys n output)"

definition WindowRank_compute :: "i64 list \<Rightarrow> nat \<Rightarrow> i64 list option \<Rightarrow> i64 list \<Rightarrow> i64 list option" where
  "WindowRank_compute input n partition_keys output = compute_partitions (do_rank input) partition_keys n output"

definition WindowDenseRank_compute :: "i64 list \<Rightarrow> nat \<Rightarrow> i64 list option \<Rightarrow> i64 list \<Rightarrow> i64 list option" where
  "WindowDenseRank_compute input n partition_keys output =
     compute_partitions (do_dense_rank input) partition_keys n output"

definition WindowSum_compute ::
  "i64 list \<Rightarrow> nat \<Rightarrow> window_frame \<Rightarrow> i64 list option \<Rightarrow> i64 list \<Rightarrow> i64 list option" where
  "WindowSum_compute input n frame partition_keys output =
     compute_partitions (sliding_sum_partition input (preceding frame) (following frame)) partition_keys n output"

definition do_avg ::
  "i64 list \<Rightarrow> window_frame \<Rightarrow> nat \<Rightarrow> nat \<Rightarrow> i64 list \<times> i64 list \<times> i64 list
     \<Rightarrow> (i64 list \<times> i64 list \<times> i64 list) option" where
  "do_avg input frame start e st =
     (case st of (sums, counts, output) \<Rightarrow>
        Option.bind (sliding_sum_partition input (preceding frame) (following frame) start e sums) (\<lambda>sums.
        Option.bind (sliding_count_partition (preceding frame) (following frame) start e counts) (\<lambda>counts.
          map_option (\<lambda>output. (sums, counts, output))
            (for_range start e
              (\<lambda>i output. Option.bind (vec_get sums (int i)) (\<lambda>s. Option.bind (vec_get counts (int i)) (\<lambda>c.
                 vec_set output (int i) (if 0 < c then cdiv s c else 0))))
              output))))"

definition WindowAvg_compute ::
  "i64 list \<Rightarrow> nat \<Rightarrow> window_frame \<Rightarrow> i64 list option \<Rightarrow> i64 list \<Rightarrow> i64 list option" where
  "WindowAvg_compute input n frame partition_keys output =
     map_option (\<lambda>(sums, counts, output). output)
       (compute_partitions (do_avg input frame) partition_keys n (replicate n 0, replicate n 0, output))"

definition WindowMin_compute ::
  "i64 list \<Rightarrow> nat \<Rightarrow> window_frame \<Rightarrow> i64 list option \<Rightarrow> i64 list \<Rightarrow> i64 list option" where
  "WindowMin_compute input n frame partition_keys output =
     compute_partitions (sliding_min_partition input (preceding frame) (following frame)) partition_keys n output"

definition WindowMax_compute ::
  "i64 list \<Rightarrow> nat \<Rightarrow> window_frame \<Rightarrow> i64 list option \<Rightarrow> i64 list \<Rightarrow> i64 list option" where
  "WindowMax_compute input n frame partition_keys output =
     compute_partitions (sliding_max_partition input (preceding frame) (following frame)) partition_keys n output"

definition WindowLag_compute ::
  "i64 \<Rightarrow> i64 \<Rightarrow> i64 list \<Rightarrow> nat \<Rightarrow> i64 list option \<Rightarrow> i64 list \<Rightarrow> i64 list option" where
  "WindowLag_compute offset default_val input n partition_keys output =
     compute_partitions (do_lag input offset default_val) partition_keys n output"

definition WindowLead_compute ::
  "i64 \<Rightarrow> i64 \<Rightarrow> i64 list \<Rightarrow> nat \<Rightarrow> i64 list option \<Rightarrow> i64 list \<Rightarrow> i64 list option" where
  "WindowLead_compute offset default_val input n partition_keys output =
     compute_partitions (do_lead input offset default_val) partition_keys n output"

definition WindowEMA_compute ::
  "'f fp_ops \<Rightarrow> 'f \<Rightarrow> i64 list \<Rightarrow> nat \<Rightarrow> i64 list option \<Rightarrow> i64 list \<Rightarrow> i64 list option" where
  "WindowEMA_compute fp alpha input n partition_keys output =
     compute_partitions (do_ema fp alpha input) partition_keys n output"

definition WindowDelta_compute :: "i64 list \<Rightarrow> nat \<Rightarrow> i64 list option \<Rightarrow> i64 list \<Rightarrow> i64 list option" where
  "WindowDelta_compute input n partition_keys output = compute_partitions (do_delta input) partition_keys n output"

definition WindowRatio_compute ::
  "'f fp_ops \<Rightarrow> i64 list \<Rightarrow> nat \<Rightarrow> i64 list option \<Rightarrow> i64 list \<Rightarrow> i64 list option" where
  "WindowRatio_compute fp input n partition_keys output =
     compute_partitions (do_ratio fp input) partition_keys n output"

text \<open>The objects the factory returns; the left value is the message of the exception.\<close>

datatype 'f window_function =
    WindowRowNumber | WindowRank | WindowDenseRank | WindowSum | WindowAvg | WindowMin | WindowMax
  | WindowLag i64 i64 | WindowLead i64 i64 | WindowEMA 'f | WindowDelta | WindowRatio

definition make_window_function :: "string \<Rightarrow> i64 \<Rightarrow> i64 \<Rightarrow> 'f \<Rightarrow> string + 'f window_function" where
  "make_window_function name offset default_val ema_alpha =
     (if name = ''ROW_NUMBER'' \<or> name = ''row_number'' then Inr WindowRowNumber
      else if name = ''RANK'' \<or> name = ''rank'' then Inr WindowRank
      else if name = ''DENSE_RANK'' \<or> name = ''dense_rank'' then Inr WindowDenseRank
      else if name = ''SUM'' \<or> name = ''sum'' then Inr WindowSum
      else if name = ''AVG'' \<or> name = ''avg'' then Inr WindowAvg
      else if name = ''MIN'' \<or> name = ''min'' then Inr WindowMin
      else if name = ''MAX'' \<or> name = ''max'' then Inr WindowMax
      else if name = ''LAG'' \<or> name = ''lag'' then Inr (WindowLag offset default_val)
      else if name = ''LEAD'' \<or> name = ''lead'' then Inr (WindowLead offset default_val)
      else if name = ''EMA'' \<or> name = ''ema'' then Inr (WindowEMA ema_alpha)
      else if name = ''DELTA'' \<or> name = ''delta'' then Inr WindowDelta
      else if name = ''RATIO'' \<or> name = ''ratio'' then Inr WindowRatio
      else Inl (''Unknown window function: '' @ name))"

section \<open>Partitions\<close>

text \<open>The maximal run of equal keys around a row.\<close>

primrec part_start :: "i64 list \<Rightarrow> nat \<Rightarrow> nat" where
  "part_start ks 0 = 0"
| "part_start ks (Suc i) = (if ks ! Suc i \<noteq> ks ! i then Suc i else part_start ks i)"

function part_end :: "i64 list \<Rightarrow> nat \<Rightarrow> nat \<Rightarrow> nat" where
  "part_end ks n i = (if Suc i < n \<and> ks ! Suc i = ks ! i then part_end ks n (Suc i) else Suc i)"
  by pat_completeness auto
termination
  by (relation "measure (\<lambda>(_, n, i). n - i)") auto

declare part_end.simps [simp del]

definition pstart :: "i64 list option \<Rightarrow> nat \<Rightarrow> nat" where
  "pstart ko i = (case ko of None \<Rightarrow> 0 | Some ks \<Rightarrow> part_start ks i)"

definition pend :: "i64 list option \<Rightarrow> nat \<Rightarrow> nat \<Rightarrow> nat" where
  "pend ko n i = (case ko of None \<Rightarrow> n | Some ks \<Rightarrow> part_end ks n i)"

definition keys_ok :: "i64 list option \<Rightarrow> nat \<Rightarrow> bool" where
  "keys_ok ko n \<longleftrightarrow> (case ko of None \<Rightarrow> True | Some ks \<Rightarrow> length ks = n)"

definition cut :: "i64 list \<Rightarrow> nat \<Rightarrow> bool" where
  "cut ks i \<longleftrightarrow> i = 0 \<or> ks ! i \<noteq> ks ! (i - 1)"

definition is_part :: "i64 list option \<Rightarrow> nat \<Rightarrow> nat \<Rightarrow> nat \<Rightarrow> bool" where
  "is_part ko n s e \<longleftrightarrow> s \<le> e \<and> e \<le> n \<and> (\<forall>i. s \<le> i \<and> i < e \<longrightarrow> pstart ko i = s \<and> pend ko n i = e)"

lemma part_start_eq: "s \<le> i \<Longrightarrow> cut ks s \<Longrightarrow> (\<And>j. s < j \<Longrightarrow> j \<le> i \<Longrightarrow> \<not> cut ks j) \<Longrightarrow> part_start ks i = s"
proof (induction i)
  case (Suc i)
  show ?case
  proof (cases "s = Suc i")
    case True
    with Suc.prems(2) show ?thesis by (simp add: cut_def)
  next
    case False
    with Suc have "ks ! Suc i = ks ! i" "part_start ks i = s" by (auto simp: cut_def)
    then show ?thesis by simp
  qed
qed (simp add: cut_def)

lemma part_end_eq:
  "i < e \<Longrightarrow> e \<le> n \<Longrightarrow> e = n \<or> cut ks e \<Longrightarrow> (\<And>j. i < j \<Longrightarrow> j < e \<Longrightarrow> \<not> cut ks j) \<Longrightarrow> part_end ks n i = e"
proof (induction ks n i rule: part_end.induct)
  case (1 ks n i)
  show ?case
  proof (cases "e = Suc i")
    case True
    with 1(3-4) show ?thesis by (subst part_end.simps) (auto simp: cut_def)
  next
    case False
    with 1(2-5) have "Suc i < n" "ks ! Suc i = ks ! i" by (auto simp: cut_def)
    then have "part_end ks n i = part_end ks n (Suc i)" by (subst part_end.simps) simp
    also have "\<dots> = e"
      by (rule 1(1)) (use False 1(2-5) \<open>Suc i < n\<close> \<open>ks ! Suc i = ks ! i\<close> in auto)
    finally show ?thesis .
  qed
qed

text \<open>What the recursive definitions describe.\<close>

lemma part_start_le: "part_start ks i \<le> i"
  by (induction i) auto

lemma part_start_cut: "cut ks (part_start ks i)"
  by (induction i) (simp_all add: cut_def)

lemma part_start_same: "part_start ks i \<le> j \<Longrightarrow> j \<le> i \<Longrightarrow> ks ! j = ks ! i"
proof (induction i)
  case (Suc i)
  then show ?case by (cases "j = Suc i") (simp_all split: if_splits)
qed simp

lemma part_end_gt: "i < part_end ks n i"
proof (induction ks n i rule: part_end.induct)
  case (1 ks n i)
  then show ?case by (subst part_end.simps) (simp add: Suc_lessD)
qed

lemma part_end_le: "i < n \<Longrightarrow> part_end ks n i \<le> n"
proof (induction ks n i rule: part_end.induct)
  case (1 ks n i)
  then show ?case by (subst part_end.simps) simp
qed

lemma part_end_cut: "i < n \<Longrightarrow> part_end ks n i = n \<or> cut ks (part_end ks n i)"
proof (induction ks n i rule: part_end.induct)
  case (1 ks n i)
  show ?case
  proof (cases "Suc i < n \<and> ks ! Suc i = ks ! i")
    case True
    with 1(1) have "part_end ks n (Suc i) = n \<or> cut ks (part_end ks n (Suc i))" by blast
    with True show ?thesis by (subst (1 2) part_end.simps) simp
  next
    case False
    with 1(2) show ?thesis by (subst (1 2) part_end.simps) (auto simp: cut_def)
  qed
qed

lemma part_end_same: "i \<le> j \<Longrightarrow> j < part_end ks n i \<Longrightarrow> ks ! j = ks ! i"
proof (induction ks n i rule: part_end.induct)
  case (1 ks n i)
  show ?case
  proof (cases "Suc i < n \<and> ks ! Suc i = ks ! i")
    case True
    then have "part_end ks n i = part_end ks n (Suc i)" by (subst part_end.simps) simp
    with True 1 show ?thesis by (cases "j = i") simp_all
  next
    case False
    then have "part_end ks n i = Suc i" by (subst part_end.simps) auto
    with 1(2,3) have "j = i" by simp
    then show ?thesis by simp
  qed
qed

lemma partition_bounds_eq:
  assumes "length ks = n" "0 < n"
  shows "compute_partition_bounds ks n = Some (filter (cut ks) [0..<n] @ [n])"
proof -
  let ?body = "\<lambda>i bounds. Option.bind (vec_get ks (int i)) (\<lambda>k. Option.bind (vec_get ks (int i - 1)) (\<lambda>k'.
            if k \<noteq> k' then Some (bounds @ [i]) else Some bounds))"
  have "for_range 1 n ?body [0] = Some (filter (cut ks) [0..<n])"
  proof (rule for_range_eq [where f = "\<lambda>i. filter (cut ks) [0..<i]"])
    fix i assume i: "1 \<le> i" "i < n"
    then have "int i - 1 = int (i - 1)" by simp
    with i assms(1) show "?body i (filter (cut ks) [0..<i]) = Some (filter (cut ks) [0..<Suc i])"
      by (simp add: cut_def del: of_nat_diff)
  qed (use assms in \<open>simp_all add: cut_def\<close>)
  then show ?thesis by (simp add: compute_partition_bounds_def)
qed

lemma bounds_parts:
  assumes "p < length (filter (cut ks) [0..<n])"
  defines "b \<equiv> filter (cut ks) [0..<n] @ [n]"
  shows "is_part (Some ks) n (b ! p) (b ! (p + 1))"
proof -
  have srt: "sorted_wrt (<) b" by (auto simp: b_def sorted_wrt_append sorted_wrt_filter)
  have len: "p + 1 < length b" using assms(1) by (simp add: b_def)
  have mono: "i < j \<Longrightarrow> j < length b \<Longrightarrow> b ! i < b ! j" for i j using srt sorted_wrt_nth_less by blast
  have mem: "x \<in> set b \<longleftrightarrow> x = n \<or> (x < n \<and> cut ks x)" for x by (auto simp: b_def)
  have less: "b ! p < b ! (p + 1)" using mono [of p "p + 1"] len by simp
  have none: "\<not> cut ks j" if "b ! p < j" "j < b ! (p + 1)" for j
  proof
    assume "cut ks j"
    have "b ! (p + 1) \<le> n" using mem [of "b ! (p + 1)"] nth_mem [OF len] by auto
    with that \<open>cut ks j\<close> have "j \<in> set b" by (simp add: mem)
    then obtain q where q: "q < length b" "b ! q = j" by (auto simp: in_set_conv_nth)
    consider "q < p" | "q = p" | "q = p + 1" | "p + 1 < q" by linarith
    then show False using q that mono [of q p] mono [of "p + 1" q] len by cases auto
  qed
  have e: "b ! (p + 1) = n \<or> cut ks (b ! (p + 1))" "b ! (p + 1) \<le> n"
    using mem [of "b ! (p + 1)"] nth_mem [OF len] by auto
  have s: "cut ks (b ! p)" using mem [of "b ! p"] nth_mem [of p b] len less e(2) by auto
  have "part_start ks i = b ! p \<and> part_end ks n i = b ! (p + 1)" if "b ! p \<le> i" "i < b ! (p + 1)" for i
    using that s e none by (intro conjI part_start_eq part_end_eq) auto
  with less e(2) show ?thesis by (auto simp: is_part_def pstart_def pend_def)
qed

lemma compute_partitions_inv:
  assumes ko: "keys_ok ko n" and init: "I 0 st"
    and step: "\<And>s e st. is_part ko n s e \<Longrightarrow> I s st \<Longrightarrow> \<exists>st'. fn s e st = Some st' \<and> I e st'"
  shows "\<exists>st'. compute_partitions fn ko n st = Some st' \<and> I n st'"
proof (cases ko)
  case None
  have "is_part ko n 0 n" by (simp add: is_part_def None pstart_def pend_def)
  from step [OF this init] show ?thesis by (simp add: compute_partitions_def None)
next
  case (Some ks)
  then have len: "length ks = n" using ko by (simp add: keys_ok_def)
  show ?thesis
  proof (cases "n = 0")
    case True
    have "is_part ko n 0 0" by (simp add: is_part_def)
    from step [OF this init] True show ?thesis
      by (auto simp: compute_partitions_def Some compute_partition_bounds_def run_partitions_def for_range_step)
  next
    case False
    let ?b = "filter (cut ks) [0..<n] @ [n]" and ?m = "length (filter (cut ks) [0..<n])"
    have zero: "?b ! 0 = 0"
    proof -
      have "[0..<n] = 0 # [1..<n]" using False by (simp add: upt_conv_Cons)
      then show ?thesis by (simp add: cut_def)
    qed
    have "\<exists>st'. for_range 0 ?m (\<lambda>p. fn (?b ! p) (?b ! (p + 1))) st = Some st' \<and> I (?b ! ?m) st'"
    proof (rule for_range_inv [where I = "\<lambda>p. I (?b ! p)"])
      fix p t assume "p < ?m" "I (?b ! p) t"
      with step [of "?b ! p" "?b ! (p + 1)" t] bounds_parts [of p ks n]
      show "\<exists>t'. fn (?b ! p) (?b ! (p + 1)) t = Some t' \<and> I (?b ! Suc p) t'" by (simp add: Some)
    qed (use init zero in simp_all)
    then show ?thesis
      using partition_bounds_eq [OF len] False
      by (simp add: compute_partitions_def Some run_partitions_def)
  qed
qed

text \<open>The contract of a kernel, for a configuration \<open>c\<close> (the column and the parameters).\<close>

locale partition_kernel =
  fixes valid :: "'c \<Rightarrow> nat \<Rightarrow> bool"
    and fn :: "'c \<Rightarrow> nat \<Rightarrow> nat \<Rightarrow> i64 list \<Rightarrow> i64 list option"
    and val :: "'c \<Rightarrow> nat \<Rightarrow> nat \<Rightarrow> nat \<Rightarrow> i64"
  assumes kernel_fills: "valid c n \<Longrightarrow> s \<le> e \<Longrightarrow> e \<le> n \<Longrightarrow> length out = n \<Longrightarrow>
    fn c s e out = Some (fill (val c s e) s e out)"
begin

lemma compute_fills:
  assumes "valid c n" "keys_ok ko n" "length out = n"
  shows "compute_partitions (fn c) ko n out = Some (map (\<lambda>i. val c (pstart ko i) (pend ko n i) i) [0..<n])"
proof -
  let ?v = "\<lambda>i. val c (pstart ko i) (pend ko n i) i"
  have "\<exists>o'. compute_partitions (fn c) ko n out = Some o' \<and> o' = fill ?v 0 n out"
  proof (rule compute_partitions_inv [where I = "\<lambda>k o'. o' = fill ?v 0 k out"])
    fix s e o' assume part: "is_part ko n s e" and o': "o' = fill ?v 0 s out"
    then have "fn c s e o' = Some (fill (val c s e) s e o')"
      using assms by (intro kernel_fills) (auto simp: is_part_def)
    also have "fill (val c s e) s e o' = fill ?v s e o'"
      using part by (intro fill_cong) (auto simp: is_part_def)
    also have "\<dots> = fill ?v 0 e out"
      unfolding o' using part by (intro fill_fill) (auto simp: is_part_def)
    finally show "\<exists>o''. fn c s e o' = Some o'' \<and> o'' = fill ?v 0 e out" by simp
  qed (use assms in simp_all)
  then show ?thesis using assms(3) by (simp add: fill_all)
qed

end

section \<open>Frames\<close>

text \<open>The rows of a frame: those of the partition within the given distances of the current row.\<close>

definition frame_rows :: "i64 \<Rightarrow> i64 \<Rightarrow> nat \<Rightarrow> nat \<Rightarrow> nat \<Rightarrow> nat list" where
  "frame_rows prec foll s e i =
     filter (\<lambda>j. (prec = INT64_MAX \<or> int i - prec \<le> int j) \<and> (foll = INT64_MAX \<or> int j \<le> int i + foll)) [s..<e]"

text \<open>A frame whose bounds are not negative and whose arithmetic stays within 64 bits.\<close>

definition frame_ok :: "i64 \<Rightarrow> i64 \<Rightarrow> nat \<Rightarrow> bool" where
  "frame_ok prec foll n \<longleftrightarrow> 0 \<le> prec \<and> prec \<le> INT64_MAX \<and> 0 \<le> foll \<and>
     (foll = INT64_MAX \<or> int n + foll < INT64_MAX) \<and> int n \<le> INT64_MAX"

lemma wrap64_small: "- INT64_MAX \<le> x \<Longrightarrow> x \<le> INT64_MAX \<Longrightarrow> wrap64 x = x"
  by (rule wrap64_id) (simp add: in_i64_def INT64_MIN_def INT64_MAX_def)

lemma filter_between: "filter (\<lambda>j. a \<le> j \<and> j < b) [s..<e] = [max s a..<min e b]"
  by (rule sorted_distinct_set_unique) (auto simp: sorted_wrt_filter)

lemma frame_start_eq:
  assumes "frame_ok prec foll n" "i < n"
  shows "frame_start prec (int i) = int (if prec = INT64_MAX then 0 else i - nat prec)"
proof -
  have "wrap64 (int i - prec) = int i - prec" if "prec \<noteq> INT64_MAX"
    by (rule wrap64_small) (use assms in \<open>auto simp: frame_ok_def\<close>)
  with assms show ?thesis by (auto simp: frame_start_def frame_ok_def)
qed

lemma frame_end_eq:
  assumes "frame_ok prec foll n" "i < n"
  shows "frame_end foll len (int i) = int (if foll = INT64_MAX then len else min len (i + nat foll + 1))"
proof -
  have "wrap64 (int i + foll) = int i + foll" "wrap64 (int i + foll + 1) = int i + foll + 1" if "foll \<noteq> INT64_MAX"
    using that assms by (auto simp: frame_ok_def intro!: wrap64_small)
  moreover have "0 \<le> foll" using assms by (simp add: frame_ok_def)
  ultimately show ?thesis by (auto simp: frame_end_def)
qed

text \<open>The offsets inside the partition are the frame.\<close>

lemma frame_offsets:
  assumes ok: "frame_ok prec foll n" and i: "s + i < e" "e \<le> n"
  obtains lo hi where "frame_start prec (int i) = int lo" "frame_end foll (e - s) (int i) = int hi"
    "lo \<le> i" "i < hi" "hi \<le> e - s" "frame_rows prec foll s e (s + i) = [s + lo..<s + hi]"
proof
  let ?lo = "if prec = INT64_MAX then 0 else i - nat prec"
  let ?hi = "if foll = INT64_MAX then e - s else min (e - s) (i + nat foll + 1)"
  show "frame_start prec (int i) = int ?lo" "frame_end foll (e - s) (int i) = int ?hi"
    using frame_start_eq [OF ok, of i] frame_end_eq [OF ok, of i "e - s"] i by simp_all
  show "?lo \<le> i" "i < ?hi" "?hi \<le> e - s" using i by auto
  have nonneg: "0 \<le> prec" "0 \<le> foll" using ok by (simp_all add: frame_ok_def)
  have "frame_rows prec foll s e (s + i) = filter (\<lambda>j. s + ?lo \<le> j \<and> j < s + ?hi) [s..<e]"
    unfolding frame_rows_def by (rule filter_cong) (use nonneg i in auto)
  also have "\<dots> = [s + ?lo..<s + ?hi]" unfolding filter_between using i by (auto simp: max_def min_def)
  finally show "frame_rows prec foll s e (s + i) = [s + ?lo..<s + ?hi]" .
qed

lemma for_range_fill_offset:
  assumes "s \<le> e" "e \<le> length out"
    and "\<And>i t. s + i < e \<Longrightarrow> length t = length out \<Longrightarrow> body i t = Some (t[s + i := f (s + i)])"
  shows "for_range 0 (e - s) body out = Some (fill f s e out)"
proof -
  have "for_range 0 (e - s) body out = Some ((\<lambda>k. fill f s (s + k) out) (e - s))"
    by (rule for_range_eq) (use assms in \<open>auto simp: fill_Suc\<close>)
  with assms(1) show ?thesis by simp
qed

section \<open>Sliding sums, counts and averages\<close>

lemma prefix_sums_eq:
  assumes "s + len \<le> length input"
  shows "prefix_sums input s len = Some (map (\<lambda>k. wrap64 (sum_list (take k (drop s input)))) [0..<Suc len])"
proof -
  let ?f = "\<lambda>k. wrap64 (sum_list (take k (drop s input)))"
  let ?st = "\<lambda>i. map ?f [0..<Suc i] @ replicate (Suc len - Suc i) 0"
  have "prefix_sums input s len = Some (?st len)"
    unfolding prefix_sums_def
  proof (rule for_range_eq [where f = ?st])
    fix i assume i: "i < len"
    have f: "wrap64 (?f i + input ! (s + i)) = ?f (Suc i)"
      using i assms by (simp add: take_Suc_conv_app_nth)
    have "?st i ! i = ?f i" by (simp add: nth_append del: upt_Suc) 
    moreover have "(?st i)[Suc i := ?f (Suc i)] = ?st (Suc i)"
      using prefix_update [of "Suc i" "Suc len" ?f 0] i by (simp del: upt_Suc)
    ultimately show "Option.bind (vec_get (?st i) (int i)) (\<lambda>s'. Option.bind (vec_get input (int (s + i)))
        (\<lambda>x. vec_set (?st i) (int (i + 1)) (wrap64 (s' + x)))) = Some (?st (Suc i))"
      using i assms f by (simp add: vec_get_def vec_set_def nat_add_distrib del: upt_Suc)
  qed simp_all
  then show ?thesis by simp
qed

lemma sum_slice:
  assumes "lo \<le> hi" "s + hi \<le> length input"
  shows "wrap64 (wrap64 (sum_list (take hi (drop s input))) - wrap64 (sum_list (take lo (drop s input)))) =
    wrap64 (sum_list (map ((!) input) [s + lo..<s + hi]))"
proof -
  have "take hi (drop s input) = take lo (drop s input) @ map ((!) input) [s + lo..<s + hi]"
    by (rule nth_equalityI) (use assms in \<open>auto simp: nth_append\<close>)
  then show ?thesis by simp
qed

definition frame_sum :: "i64 list \<Rightarrow> i64 \<Rightarrow> i64 \<Rightarrow> nat \<Rightarrow> nat \<Rightarrow> nat \<Rightarrow> i64" where
  "frame_sum input prec foll s e i = wrap64 (sum_list (map ((!) input) (frame_rows prec foll s e i)))"

lemma sliding_sum_fills:
  assumes ok: "frame_ok prec foll n" and len: "length input = n" "s \<le> e" "e \<le> n" "length out = n"
  shows "sliding_sum_partition input prec foll s e out = Some (fill (frame_sum input prec foll s e) s e out)"
proof -
  let ?f = "\<lambda>k. wrap64 (sum_list (take k (drop s input)))"
  let ?prefix = "map ?f [0..<Suc (e - s)]"
  have "for_range 0 (e - s)
      (\<lambda>i output. Option.bind (vec_get ?prefix (frame_end foll (e - s) (int i))) (\<lambda>hi.
         Option.bind (vec_get ?prefix (frame_start prec (int i))) (\<lambda>lo. vec_set output (int (s + i)) (wrap64 (hi - lo))))) out
    = Some (fill (frame_sum input prec foll s e) s e out)"
  proof (rule for_range_fill_offset)
    fix i and t :: "i64 list" assume i: "s + i < e" and t: "length t = length out"
    obtain lo hi where lohi: "frame_start prec (int i) = int lo" "frame_end foll (e - s) (int i) = int hi"
      "lo \<le> i" "i < hi" "hi \<le> e - s" "frame_rows prec foll s e (s + i) = [s + lo..<s + hi]"
      using frame_offsets [OF ok i len(3)] by blast
    then have "vec_get ?prefix (int hi) = Some (?f hi)" "vec_get ?prefix (int lo) = Some (?f lo)"
      by (simp_all add: nth_map_upt del: upt_Suc)
    moreover have "wrap64 (?f hi - ?f lo) = frame_sum input prec foll s e (s + i)"
      unfolding frame_sum_def lohi(6) by (rule sum_slice) (use lohi len in auto)
    ultimately show "Option.bind (vec_get ?prefix (frame_end foll (e - s) (int i))) (\<lambda>hi.
         Option.bind (vec_get ?prefix (frame_start prec (int i))) (\<lambda>lo. vec_set t (int (s + i)) (wrap64 (hi - lo))))
      = Some (t[s + i := frame_sum input prec foll s e (s + i)])"
      using i t len lohi(1,2) by (simp add: vec_set_def nat_add_distrib del: wrap64_diff_left wrap64_diff_right upt_Suc)
  qed (use len in auto)
  then show ?thesis using len by (simp add: sliding_sum_partition_def prefix_sums_eq del: upt_Suc)
qed

lemma sliding_count_fills:
  assumes ok: "frame_ok prec foll n" and len: "s \<le> e" "e \<le> n" "length out = n"
  shows "sliding_count_partition prec foll s e out =
    Some (fill (\<lambda>i. int (length (frame_rows prec foll s e i))) s e out)"
  unfolding sliding_count_partition_def Let_def
proof (rule for_range_fill_offset)
  fix i and t :: "i64 list" assume i: "s + i < e" and t: "length t = length out"
  obtain lo hi where "frame_start prec (int i) = int lo" "frame_end foll (e - s) (int i) = int hi"
    "lo \<le> i" "i < hi" "hi \<le> e - s" "frame_rows prec foll s e (s + i) = [s + lo..<s + hi]"
    using frame_offsets [OF ok i len(2)] by blast
  then show "vec_set t (int (s + i)) (frame_end foll (e - s) (int i) - frame_start prec (int i)) =
      Some (t[s + i := int (length (frame_rows prec foll s e (s + i)))])"
    using i t len by (simp add: vec_set_def nat_add_distrib of_nat_diff)
qed (use len in auto)

interpretation ws: partition_kernel
  "\<lambda>(input, prec, foll) n. frame_ok prec foll n \<and> length input = n"
  "\<lambda>(input, prec, foll). sliding_sum_partition input prec foll"
  "\<lambda>(input, prec, foll). frame_sum input prec foll"
  by unfold_locales (auto simp: sliding_sum_fills)

interpretation wc: partition_kernel
  "\<lambda>(prec, foll) n. frame_ok prec foll n"
  "\<lambda>(prec, foll). sliding_count_partition prec foll"
  "\<lambda>(prec, foll) s e i. int (length (frame_rows prec foll s e i))"
  by unfold_locales (auto simp: sliding_count_fills)

lemma frame_rows_nonempty: "frame_ok prec foll n \<Longrightarrow> s \<le> i \<Longrightarrow> i < e \<Longrightarrow> i \<in> set (frame_rows prec foll s e i)"
  by (auto simp: frame_rows_def frame_ok_def)

definition frame_avg :: "i64 list \<Rightarrow> i64 \<Rightarrow> i64 \<Rightarrow> nat \<Rightarrow> nat \<Rightarrow> nat \<Rightarrow> i64" where
  "frame_avg input prec foll s e i =
     cdiv (frame_sum input prec foll s e i) (int (length (frame_rows prec foll s e i)))"

lemma WindowAvg_eq:
  assumes ok: "frame_ok (preceding fr) (following fr) n" and len: "length input = n" "keys_ok ko n" "length out = n"
  shows "WindowAvg_compute input n fr ko out =
    Some (map (\<lambda>i. frame_avg input (preceding fr) (following fr) (pstart ko i) (pend ko n i) i) [0..<n])"
proof -
  let ?p = "preceding fr" and ?f = "following fr"
  let ?v = "\<lambda>i. frame_avg input ?p ?f (pstart ko i) (pend ko n i) i"
  have "\<exists>st. compute_partitions (do_avg input fr) ko n (replicate n 0, replicate n 0, out) = Some st \<and>
    (case st of (su, co, o') \<Rightarrow> length su = n \<and> length co = n \<and> o' = fill ?v 0 n out)"
  proof (rule compute_partitions_inv
      [where I = "\<lambda>k st. case st of (su, co, o') \<Rightarrow> length su = n \<and> length co = n \<and> o' = fill ?v 0 k out"])
    fix s e and st :: "i64 list \<times> i64 list \<times> i64 list"
    assume part: "is_part ko n s e" and "case st of (su, co, o') \<Rightarrow> length su = n \<and> length co = n \<and> o' = fill ?v 0 s out"
    then obtain su co where st: "st = (su, co, fill ?v 0 s out)" "length su = n" "length co = n" by (cases st) auto
    have se: "s \<le> e" "e \<le> n" using part by (simp_all add: is_part_def)
    let ?su = "fill (frame_sum input ?p ?f s e) s e su" and ?co = "fill (\<lambda>i. int (length (frame_rows ?p ?f s e i))) s e co"
    have "for_range s e (\<lambda>i output. Option.bind (vec_get ?su (int i)) (\<lambda>a. Option.bind (vec_get ?co (int i)) (\<lambda>c.
        vec_set output (int i) (if 0 < c then cdiv a c else 0)))) (fill ?v 0 s out) =
      Some (fill (frame_avg input ?p ?f s e) s e (fill ?v 0 s out))"
    proof (rule for_range_fill)
      fix i and t :: "i64 list" assume i: "s \<le> i" "i < e" and t: "length t = length (fill ?v 0 s out)"
      have "frame_rows ?p ?f s e i \<noteq> []" using frame_rows_nonempty [OF ok i] by (metis empty_iff list.set(1))
      then show "Option.bind (vec_get ?su (int i)) (\<lambda>a. Option.bind (vec_get ?co (int i)) (\<lambda>c.
        vec_set t (int i) (if 0 < c then cdiv a c else 0))) = Some (t[i := frame_avg input ?p ?f s e i])"
        using i t se st len by (simp add: frame_avg_def)
    qed (use se len in auto)
    moreover have "fill (frame_avg input ?p ?f s e) s e (fill ?v 0 s out) = fill ?v s e (fill ?v 0 s out)"
      using part by (intro fill_cong) (auto simp: is_part_def)
    moreover have "fill ?v s e (fill ?v 0 s out) = fill ?v 0 e out" using se by (intro fill_fill) auto
    ultimately have "do_avg input fr s e st = Some (?su, ?co, fill ?v 0 e out)"
      using ok len se st by (simp add: do_avg_def sliding_sum_fills sliding_count_fills)
    then show "\<exists>st'. do_avg input fr s e st = Some st' \<and>
        (case st' of (su, co, o') \<Rightarrow> length su = n \<and> length co = n \<and> o' = fill ?v 0 e out)"
      using st by simp
  qed (use len in simp_all)
  then show ?thesis using len by (auto simp: WindowAvg_compute_def fill_all)
qed

section \<open>Sliding extremes\<close>

text \<open>
  \<open>deque_inv\<close>: the deque holds, in ascending order, the positions of the current frame that no later
  position up to \<open>i\<close> beats.
\<close>

definition deque_inv :: "(i64 \<Rightarrow> i64 \<Rightarrow> bool) \<Rightarrow> (nat \<Rightarrow> i64) \<Rightarrow> nat \<Rightarrow> nat \<Rightarrow> nat list" where
  "deque_inv beaten inp lo i = filter (\<lambda>j. \<forall>k. j < k \<and> k < i \<longrightarrow> \<not> beaten (inp j) (inp k)) [lo..<i]"

definition beats_order :: "(i64 \<Rightarrow> i64 \<Rightarrow> bool) \<Rightarrow> bool" where
  "beats_order beaten \<longleftrightarrow> (\<forall>a b c. beaten a b \<longrightarrow> beaten b c \<longrightarrow> beaten a c) \<and> (\<forall>a b. beaten a b \<or> beaten b a)"

lemma pop_back_while_eq:
  "sorted_wrt (\<lambda>a b. P a \<longrightarrow> P b) dq \<Longrightarrow> pop_back_while P dq = filter (\<lambda>x. \<not> P x) dq"
  unfolding pop_back_while_def
  by (subst dropWhile_eq_filter) (simp_all add: sorted_wrt_rev rev_filter)

lemma sorted_deque: "sorted_wrt (<) (deque_inv beaten inp lo i)"
  unfolding deque_inv_def by (intro sorted_wrt_filter sorted_wrt_upt)

lemma sorted_wrt_deque:
  assumes "beats_order beaten"
  shows "sorted_wrt (\<lambda>a b. beaten (inp a) x \<longrightarrow> beaten (inp b) x) (deque_inv beaten inp lo i)"
proof -
  show ?thesis
  proof (rule sorted_wrt_mono_rel [OF _ sorted_deque])
    fix a b assume "a \<in> set (deque_inv beaten inp lo i)" "b \<in> set (deque_inv beaten inp lo i)" "a < b"
    then have "\<not> beaten (inp a) (inp b)" by (auto simp: deque_inv_def)
    then show "beaten (inp a) x \<longrightarrow> beaten (inp b) x" using assms unfolding beats_order_def by blast
  qed
qed

lemma deque_step_eq:
  assumes "beats_order beaten" "lo \<le> lo'" "lo' \<le> i" "frame_start prec (int i) = int lo'"
  shows "deque_step beaten input prec s i (deque_inv beaten (\<lambda>j. input ! (s + j)) lo i) =
    deque_inv beaten (\<lambda>j. input ! (s + j)) lo' (Suc i)"
proof -
  let ?inp = "\<lambda>j. input ! (s + j)"
  have "dropWhile (\<lambda>j. int j < int lo') (deque_inv beaten ?inp lo i) = filter (\<lambda>j. \<not> int j < int lo') (deque_inv beaten ?inp lo i)"
    by (rule dropWhile_eq_filter, rule sorted_wrt_mono_rel [OF _ sorted_deque]) auto
  also have "\<dots> = filter (\<lambda>j. \<forall>k. j < k \<and> k < i \<longrightarrow> \<not> beaten (?inp j) (?inp k)) (filter (\<lambda>j. lo' \<le> j \<and> j < i) [lo..<i])"
    unfolding deque_inv_def filter_filter by (rule filter_cong) auto
  also have "filter (\<lambda>j. lo' \<le> j \<and> j < i) [lo..<i] = [lo'..<i]"
    using assms(2) by (simp add: filter_between max_def)
  finally have front: "dropWhile (\<lambda>j. int j < int lo') (deque_inv beaten ?inp lo i) = deque_inv beaten ?inp lo' i"
    by (simp add: deque_inv_def)
  have pop: "pop_back_while (\<lambda>j. beaten (?inp j) (?inp i)) (deque_inv beaten ?inp lo' i) =
      filter (\<lambda>j. \<not> beaten (?inp j) (?inp i)) (deque_inv beaten ?inp lo' i)"
    by (rule pop_back_while_eq [OF sorted_wrt_deque [OF assms(1)]])
  have "filter (\<lambda>j. \<not> beaten (?inp j) (?inp i)) (deque_inv beaten ?inp lo' i) =
      filter (\<lambda>j. \<forall>k. j < k \<and> k < Suc i \<longrightarrow> \<not> beaten (?inp j) (?inp k)) [lo'..<i]"
    unfolding deque_inv_def filter_filter by (rule filter_cong) (auto simp: less_Suc_eq)
  then have "filter (\<lambda>j. \<not> beaten (?inp j) (?inp i)) (deque_inv beaten ?inp lo' i) @ [i] =
      deque_inv beaten ?inp lo' (Suc i)"
    using assms(3) by (auto simp: deque_inv_def)
  then show ?thesis unfolding deque_step_def Let_def assms(4) front pop .
qed

lemma deque_front:
  fixes inp :: "nat \<Rightarrow> i64"
  assumes ord: "beats_order beaten" and lo: "lo \<le> i"
  defines "h \<equiv> hd (deque_inv beaten inp lo (Suc i))"
  shows "lo \<le> h \<and> h \<le> i \<and> (\<forall>k. lo \<le> k \<and> k \<le> i \<longrightarrow> beaten (inp k) (inp h))"
proof -
  let ?dq = "deque_inv beaten inp lo (Suc i)"
  have i: "i \<in> set ?dq" using lo by (auto simp: deque_inv_def)
  then have ne: "?dq \<noteq> []" by auto
  then have h: "h \<in> set ?dq" unfolding h_def by (rule hd_in_set)
  have first: "j = h \<or> h < j" if "j \<in> set ?dq" for j
    using ne that sorted_deque [of beaten inp lo "Suc i"] unfolding h_def by (cases ?dq) auto
  have trans: "beaten a b \<Longrightarrow> beaten b c \<Longrightarrow> beaten a c" and total: "beaten a b \<or> beaten b a" for a b c
    using ord unfolding beats_order_def by blast+
  have unbeaten: "\<not> beaten (inp h) (inp k)" if "h < k" "k < Suc i" for k
    using h that unfolding deque_inv_def set_filter by blast
  have beat: "beaten (inp j) (inp h)" if "j \<in> set ?dq" for j
  proof -
    have "j < Suc i" using that unfolding deque_inv_def set_filter by auto
    with first [OF that] unbeaten [of j] total [of "inp j" "inp h"] show ?thesis by blast
  qed
  have "beaten (inp k) (inp h)" if "lo \<le> k" "k \<le> i" for k
    using that
  proof (induction "i - k" arbitrary: k rule: less_induct)
    case less
    show ?case
    proof (cases "k \<in> set ?dq")
      case False
      then obtain k' where "k < k'" "k' \<le> i" "beaten (inp k) (inp k')"
        using less.prems unfolding deque_inv_def set_filter by (auto simp: less_Suc_eq_le)
      moreover from this less.prems have "beaten (inp k') (inp h)" by (intro less.hyps) auto
      ultimately show ?thesis using trans by blast
    qed (rule beat)
  qed
  moreover have "lo \<le> h \<and> h \<le> i" using h unfolding deque_inv_def set_filter by auto
  ultimately show ?thesis by blast
qed

lemma sliding_extreme_fills:
  assumes ord: "beats_order beaten" and ok: "frame_ok prec 0 n" and len: "length input = n" "s \<le> e" "e \<le> n" "length out = n"
    and val: "\<And>i h. s \<le> i \<Longrightarrow> i < e \<Longrightarrow> h \<in> set (frame_rows prec 0 s e i) \<Longrightarrow>
      (\<forall>k \<in> set (frame_rows prec 0 s e i). beaten (input ! k) (input ! h)) \<Longrightarrow> v i = input ! h"
  shows "sliding_extreme beaten input prec s e out = Some (fill v s e out)"
proof -
  let ?inp = "\<lambda>j. input ! (s + j)"
  define lo where "lo i = (if prec = INT64_MAX then 0 else i - nat prec)" for i
  let ?st = "\<lambda>k. (deque_inv beaten ?inp (lo (k - 1)) k, fill v s (s + k) out)"
  let ?body = "\<lambda>i (dq, output). let dq = deque_step beaten input prec s i dq
            in Option.bind (vec_get input (int (s + hd dq))) (\<lambda>x. map_option (Pair dq) (vec_set output (int (s + i)) x))"
  have "for_range 0 (e - s) ?body ([], out) = Some (?st (e - s))"
  proof (rule for_range_eq [where f = ?st])
    fix i assume "i < e - s"
    then have i: "s + i < e" by simp
    have start: "frame_start prec (int i) = int (lo i)"
      using frame_start_eq [OF ok, of i] i len by (simp add: lo_def)
    have step: "deque_step beaten input prec s i (deque_inv beaten ?inp (lo (i - 1)) i) = deque_inv beaten ?inp (lo i) (Suc i)"
      by (rule deque_step_eq [OF ord _ _ start]) (auto simp: lo_def)
    let ?h = "hd (deque_inv beaten ?inp (lo i) (Suc i))"
    have front: "lo i \<le> ?h" "?h \<le> i" "\<And>k. lo i \<le> k \<Longrightarrow> k \<le> i \<Longrightarrow> beaten (?inp k) (?inp ?h)"
      using deque_front [OF ord, of "lo i" i ?inp] by (auto simp: lo_def)
    have rows: "set (frame_rows prec 0 s e (s + i)) = {s + lo i..s + i}"
    proof -
      obtain l hi where lohi: "frame_start prec (int i) = int l" "frame_end 0 (e - s) (int i) = int hi"
        "i < hi" "frame_rows prec 0 s e (s + i) = [s + l..<s + hi]"
        using frame_offsets [OF ok i len(3)] by metis
      moreover have "hi = Suc i" using lohi(2) frame_end_eq [OF ok, of i "e - s"] i len by (auto simp: INT64_MAX_def)
      ultimately show ?thesis using start by auto
    qed
    have "v (s + i) = ?inp ?h"
    proof (rule val)
      show "\<forall>k \<in> set (frame_rows prec 0 s e (s + i)). beaten (input ! k) (?inp ?h)"
      proof
        fix k assume "k \<in> set (frame_rows prec 0 s e (s + i))"
        then have "lo i \<le> k - s" "k - s \<le> i" "s + (k - s) = k" by (auto simp: rows)
        then show "beaten (input ! k) (?inp ?h)" using front(3) [of "k - s"] by simp
      qed
    qed (use i front rows in auto)
    moreover have "s + ?h < length input" using front(2) i len by simp
    ultimately show "?body i (?st i) = Some (?st (Suc i))"
      unfolding prod.case step Let_def using i len by (simp add: fill_Suc del: of_nat_add)
  qed (simp_all add: deque_inv_def)
  then show ?thesis using len by (simp add: sliding_extreme_def)
qed

lemma sliding_min_fills:
  assumes "frame_ok prec 0 n" "length input = n" "s \<le> e" "e \<le> n" "length out = n"
  shows "sliding_min_partition input prec foll s e out =
    Some (fill (\<lambda>i. Min (set (map ((!) input) (frame_rows prec 0 s e i)))) s e out)"
  unfolding sliding_min_partition_def
  by (rule sliding_extreme_fills [OF _ assms]) (auto simp: beats_order_def intro!: Min_eqI)

lemma sliding_max_fills:
  assumes "frame_ok prec 0 n" "length input = n" "s \<le> e" "e \<le> n" "length out = n"
  shows "sliding_max_partition input prec foll s e out =
    Some (fill (\<lambda>i. Max (set (map ((!) input) (frame_rows prec 0 s e i)))) s e out)"
  unfolding sliding_max_partition_def
  by (rule sliding_extreme_fills [OF _ assms]) (auto simp: beats_order_def intro!: Max_eqI)

interpretation wmin: partition_kernel
  "\<lambda>(input, prec, foll) n. frame_ok prec 0 n \<and> length input = n"
  "\<lambda>(input, prec, foll). sliding_min_partition input prec foll"
  "\<lambda>(input, prec, foll) s e i. Min (set (map ((!) input) (frame_rows prec 0 s e i)))"
  by unfold_locales (auto simp only: split_paired_all prod.case sliding_min_fills)

interpretation wmax: partition_kernel
  "\<lambda>(input, prec, foll) n. frame_ok prec 0 n \<and> length input = n"
  "\<lambda>(input, prec, foll). sliding_max_partition input prec foll"
  "\<lambda>(input, prec, foll) s e i. Max (set (map ((!) input) (frame_rows prec 0 s e i)))"
  by unfold_locales (auto simp only: split_paired_all prod.case sliding_max_fills)

section \<open>Ranks\<close>

primrec tie_start :: "i64 list \<Rightarrow> nat \<Rightarrow> nat \<Rightarrow> nat" where
  "tie_start input s 0 = 0"
| "tie_start input s (Suc i) = (if Suc i = s \<or> input ! Suc i \<noteq> input ! i then Suc i else tie_start input s i)"

lemma tie_start_step:
  "s \<le> i \<Longrightarrow> tie_start input s i = (if i = s \<or> input ! i \<noteq> input ! (i - 1) then i else tie_start input s (i - 1))"
  by (cases i) auto

lemma do_row_number_fills:
  "s \<le> e \<Longrightarrow> e \<le> length out \<Longrightarrow> do_row_number s e out = Some (fill (\<lambda>i. int (i - s + 1)) s e out)"
  unfolding do_row_number_def by (rule for_range_fill) auto

text \<open>A loop that carries a value along the partition and stores it at every row.\<close>

lemma carry_loop:
  assumes "s \<le> e" "e \<le> length out" and c0: "c0 = g s"
    and step: "\<And>i t. s \<le> i \<Longrightarrow> i < e \<Longrightarrow> length t = length out \<Longrightarrow> body i (g i, t) = Some (g (Suc i), t[i := f i])"
  shows "map_option snd (for_range s e body (c0, out)) = Some (fill f s e out)"
proof -
  have "for_range s e body (c0, out) = Some ((\<lambda>k. (g k, fill f s k out)) e)"
    by (rule for_range_eq) (use assms in \<open>auto simp: fill_Suc\<close>)
  then show ?thesis by simp
qed

lemma do_rank_fills:
  assumes "s \<le> e" "e \<le> length out"
  shows "do_rank input s e out = Some (fill (\<lambda>i. int (tie_start input s i - s + 1)) s e out)"
  unfolding do_rank_def
proof (rule carry_loop [where g = "\<lambda>i. if i = s then 1 else int (tie_start input s (i - 1) - s + 1)"])
  fix i and t :: "i64 list" assume i: "s \<le> i" "i < e" "length t = length out"
  then show "(case (if i = s then 1 else int (tie_start input s (i - 1) - s + 1), t) of (rank, output) \<Rightarrow>
      let rank = if i = s \<or> input ! i \<noteq> input ! (i - 1) then int (i - s + 1) else rank
      in map_option (Pair rank) (vec_set output (int i) rank)) =
    Some (if Suc i = s then 1 else int (tie_start input s (Suc i - 1) - s + 1), t[i := int (tie_start input s i - s + 1)])"
    using assms by (simp add: Let_def tie_start_step [of s i])
qed (use assms in auto)

definition changes :: "i64 list \<Rightarrow> nat \<Rightarrow> nat \<Rightarrow> nat" where
  "changes input s i = length (filter (\<lambda>j. input ! j \<noteq> input ! (j - 1)) [Suc s..<Suc i])"

lemma changes_self [simp]: "changes input s s = 0"
  by (simp add: changes_def)

lemma changes_step:
  "s < i \<Longrightarrow> changes input s i = changes input s (i - 1) + (if input ! i \<noteq> input ! (i - 1) then 1 else 0)"
  by (cases i) (auto simp: changes_def)

lemma do_dense_rank_fills:
  assumes "s \<le> e" "e \<le> length out"
  shows "do_dense_rank input s e out = Some (fill (\<lambda>i. 1 + int (changes input s i)) s e out)"
  unfolding do_dense_rank_def
proof (rule carry_loop [where g = "\<lambda>i. if i = s then 1 else 1 + int (changes input s (i - 1))"])
  fix i and t :: "i64 list" assume i: "s \<le> i" "i < e" "length t = length out"
  then show "(case (if i = s then 1 else 1 + int (changes input s (i - 1)), t) of (rank, output) \<Rightarrow>
      let rank = if s < i \<and> input ! i \<noteq> input ! (i - 1) then rank + 1 else rank
      in map_option (Pair rank) (vec_set output (int i) rank)) =
    Some (if Suc i = s then 1 else 1 + int (changes input s (Suc i - 1)), t[i := 1 + int (changes input s i)])"
    using assms changes_step [of s i input] by (cases "i = s") (auto simp: Let_def)
qed (use assms in auto)

interpretation wrow: partition_kernel
  "\<lambda>_ _. True" "\<lambda>_ :: unit. do_row_number" "\<lambda>_ s e i. int (i - s + 1)"
  by unfold_locales (simp add: do_row_number_fills)

interpretation wrank: partition_kernel
  "\<lambda>_ _. True" do_rank "\<lambda>input s e i. int (tie_start input s i - s + 1)"
  by unfold_locales (simp add: do_rank_fills)

interpretation wdense: partition_kernel
  "\<lambda>_ _. True" do_dense_rank "\<lambda>input s e i. 1 + int (changes input s i)"
  by unfold_locales (simp add: do_dense_rank_fills)

text \<open>On a partition in ascending order the carried values are the SQL ranks.\<close>

lemma tie_start_bounds: "s \<le> i \<Longrightarrow> s \<le> tie_start input s i \<and> tie_start input s i \<le> i"
proof (induction i)
  case (Suc i)
  then show ?case by (cases "Suc i = s") auto
qed simp

lemma tie_start_same: "s \<le> i \<Longrightarrow> tie_start input s i \<le> j \<Longrightarrow> j \<le> i \<Longrightarrow> input ! j = input ! i"
proof (induction i)
  case (Suc i)
  show ?case
  proof (cases "j = Suc i")
    case False
    with Suc.prems have "j \<le> i" "Suc i \<noteq> s" "input ! Suc i = input ! i" "tie_start input s i \<le> j"
      by (auto split: if_splits)
    with Suc show ?thesis by simp
  qed simp
qed simp

lemma tie_start_change: "s \<le> i \<Longrightarrow> tie_start input s i = s \<or> input ! (tie_start input s i - 1) \<noteq> input ! tie_start input s i"
proof (induction i)
  case (Suc i)
  then show ?case by (cases "Suc i = s") auto
qed simp

lemma tie_start_sorted:
  assumes srt: "\<And>j k. s \<le> j \<Longrightarrow> j \<le> k \<Longrightarrow> k < e \<Longrightarrow> input ! j \<le> input ! k" and i: "s \<le> i" "i < e"
  shows "{j. s \<le> j \<and> j < e \<and> input ! j < input ! i} = {s..<tie_start input s i}"
proof -
  let ?t = "tie_start input s i"
  have t: "s \<le> ?t" "?t \<le> i" "input ! ?t = input ! i"
    using tie_start_bounds [OF i(1), of input] tie_start_same [OF i(1), of input ?t] by auto
  have "input ! j < input ! i" if j: "s \<le> j" "j < ?t" for j
  proof -
    have "input ! j \<le> input ! (?t - 1)" "input ! (?t - 1) \<le> input ! ?t"
      using srt [of j "?t - 1"] srt [of "?t - 1" ?t] j t i by auto
    with tie_start_change [OF i(1), of input] t j show ?thesis by auto
  qed
  moreover have "\<not> input ! j < input ! i" if "?t \<le> j" "j < e" for j
    using srt [of ?t j] that t by simp
  moreover have "j < e" if "j < ?t" for j using that t(2) i(2) by simp
  ultimately show ?thesis by (auto simp: not_less) (metis not_less)
qed

lemma changes_sorted:
  assumes "\<And>j k. s \<le> j \<Longrightarrow> j \<le> k \<Longrightarrow> k < e \<Longrightarrow> input ! j \<le> input ! k" "s \<le> i" "i < e"
  shows "1 + changes input s i = card ((!) input ` {s..i})"
  using assms(2,3)
proof (induction "i - s" arbitrary: i)
  case 0
  then have "i = s" by simp
  then show ?case by simp
next
  case (Suc d)
  then have i: "d = i - 1 - s" "s \<le> i - 1" "i - 1 < e" "s < i" by auto
  note IH = Suc.hyps(1) [OF i(1,2,3)]
  have split: "(!) input ` {s..i} = insert (input ! i) ((!) input ` {s..i - 1})"
  proof -
    have "{s..i} = insert i {s..i - 1}" using i(4) by auto
    then show ?thesis by simp
  qed
  have mem: "input ! i \<in> (!) input ` {s..i - 1} \<longleftrightarrow> input ! i = input ! (i - 1)"
  proof
    assume "input ! i \<in> (!) input ` {s..i - 1}"
    then obtain j where j: "s \<le> j" "j \<le> i - 1" "input ! i = input ! j" by auto
    then have "input ! j \<le> input ! (i - 1)" "input ! (i - 1) \<le> input ! i"
      using assms(1) [of j "i - 1"] assms(1) [of "i - 1" i] i Suc.prems by auto
    with j(3) show "input ! i = input ! (i - 1)" by simp
  qed (use i in auto)
  show ?case
    unfolding changes_step [OF i(4)] split using IH mem by (simp add: card_insert_if)
qed

section \<open>Offsets and differences\<close>

definition offset_ok :: "i64 \<Rightarrow> nat \<Rightarrow> bool" where
  "offset_ok offset n \<longleftrightarrow> 0 \<le> offset \<and> int n + offset \<le> INT64_MAX"

lemma do_lag_fills:
  assumes "offset_ok offset n" "length input = n" "s \<le> e" "e \<le> n" "length out = n"
  shows "do_lag input offset d s e out =
    Some (fill (\<lambda>i. if int i - offset < int s then d else input ! nat (int i - offset)) s e out)"
  unfolding do_lag_def
proof (rule for_range_fill)
  fix i and t :: "i64 list" assume i: "s \<le> i" "i < e" "length t = length out"
  have "wrap64 (int i - offset) = int i - offset"
    by (rule wrap64_small) (use assms i in \<open>auto simp: offset_ok_def\<close>)
  then show "(let src = wrap64 (int i - offset) in if src < int s then vec_set t (int i) d
      else Option.bind (vec_get input src) (vec_set t (int i))) =
    Some (t[i := if int i - offset < int s then d else input ! nat (int i - offset)])"
    using assms i by (auto simp: Let_def vec_get_def offset_ok_def)
qed (use assms in auto)

lemma do_lead_fills:
  assumes "offset_ok offset n" "length input = n" "s \<le> e" "e \<le> n" "length out = n"
  shows "do_lead input offset d s e out =
    Some (fill (\<lambda>i. if int e \<le> int i + offset then d else input ! nat (int i + offset)) s e out)"
  unfolding do_lead_def
proof (rule for_range_fill)
  fix i and t :: "i64 list" assume i: "s \<le> i" "i < e" "length t = length out"
  have "wrap64 (int i + offset) = int i + offset"
    by (rule wrap64_small) (use assms i in \<open>auto simp: offset_ok_def\<close>)
  then show "(let src = wrap64 (int i + offset) in if int e \<le> src then vec_set t (int i) d
      else Option.bind (vec_get input src) (vec_set t (int i))) =
    Some (t[i := if int e \<le> int i + offset then d else input ! nat (int i + offset)])"
    using assms i by (auto simp: Let_def vec_get_def offset_ok_def)
qed (use assms in auto)

interpretation wlag: partition_kernel
  "\<lambda>(input, offset, d) n. offset_ok offset n \<and> length input = n"
  "\<lambda>(input, offset, d). do_lag input offset d"
  "\<lambda>(input, offset, d) s e i. if int i - offset < int s then d else input ! nat (int i - offset)"
  by unfold_locales (auto simp only: split_paired_all prod.case do_lag_fills)

interpretation wlead: partition_kernel
  "\<lambda>(input, offset, d) n. offset_ok offset n \<and> length input = n"
  "\<lambda>(input, offset, d). do_lead input offset d"
  "\<lambda>(input, offset, d) s e i. if int e \<le> int i + offset then d else input ! nat (int i + offset)"
  by unfold_locales (auto simp only: split_paired_all prod.case do_lead_fills)

lemma fill_head: "s < e \<Longrightarrow> e \<le> length out \<Longrightarrow> fill f (Suc s) e (out[s := f s]) = fill f s e out"
  by (rule nth_equalityI) (auto simp: nth_list_update)

text \<open>The kernels that treat the first row of a partition on its own.\<close>

lemma do_delta_fills:
  assumes "length input = n" "s \<le> e" "e \<le> n" "length out = n"
  shows "do_delta input s e out =
    Some (fill (\<lambda>i. if i = s then input ! s else wrap64 (input ! i - input ! (i - 1))) s e out)"
proof (cases "e \<le> s")
  case False
  let ?f = "\<lambda>i. if i = s then input ! s else wrap64 (input ! i - input ! (i - 1))"
  have "for_range (s + 1) e
      (\<lambda>i output. Option.bind (vec_get input (int i)) (\<lambda>x. Option.bind (vec_get input (int i - 1)) (\<lambda>y.
         vec_set output (int i) (wrap64 (x - y))))) (out[s := input ! s]) = Some (fill ?f (s + 1) e (out[s := input ! s]))"
  proof (rule for_range_fill)
    fix i and t :: "i64 list" assume i: "s + 1 \<le> i" "i < e" "length t = length (out[s := input ! s])"
    then have "int i - 1 = int (i - 1)" by simp
    with i assms show "Option.bind (vec_get input (int i)) (\<lambda>x. Option.bind (vec_get input (int i - 1)) (\<lambda>y.
         vec_set t (int i) (wrap64 (x - y)))) = Some (t[i := ?f i])"
      by (simp del: of_nat_diff)
  qed (use False assms in auto)
  with fill_head [of s e out ?f] False assms show ?thesis by (simp add: do_delta_def)
qed (simp add: do_delta_def)

interpretation wdelta: partition_kernel
  "\<lambda>input n. length input = n" do_delta
  "\<lambda>input s e i. if i = s then input ! s else wrap64 (input ! i - input ! (i - 1))"
  by unfold_locales (simp only: do_delta_fills)

lemma do_ratio_fills:
  assumes "length input = n" "s \<le> e" "e \<le> n" "length out = n"
  shows "do_ratio fp input s e out =
    Some (fill (\<lambda>i. if i = s then 1000000 else if input ! (i - 1) = 0 then 0
      else fp_to_int fp (fp_mul fp (fp_div fp (fp_of_int fp (input ! i)) (fp_of_int fp (input ! (i - 1)))) (fp_of_int fp 1000000))) s e out)"
    (is "_ = Some (fill ?f s e out)")
proof (cases "e \<le> s")
  case False
  have "for_range (s + 1) e
      (\<lambda>i output. Option.bind (vec_get input (int i)) (\<lambda>x. Option.bind (vec_get input (int i - 1)) (\<lambda>y.
         vec_set output (int i)
           (if y \<noteq> 0 then fp_to_int fp (fp_mul fp (fp_div fp (fp_of_int fp x) (fp_of_int fp y)) (fp_of_int fp 1000000)) else 0))))
      (out[s := 1000000]) = Some (fill ?f (s + 1) e (out[s := 1000000]))"
  proof (rule for_range_fill)
    fix i and t :: "i64 list" assume i: "s + 1 \<le> i" "i < e" "length t = length (out[s := 1000000])"
    then have "int i - 1 = int (i - 1)" by simp
    with i assms show "Option.bind (vec_get input (int i)) (\<lambda>x. Option.bind (vec_get input (int i - 1)) (\<lambda>y.
         vec_set t (int i)
           (if y \<noteq> 0 then fp_to_int fp (fp_mul fp (fp_div fp (fp_of_int fp x) (fp_of_int fp y)) (fp_of_int fp 1000000)) else 0)))
      = Some (t[i := ?f i])"
      by (simp del: of_nat_diff)
  qed (use False assms in auto)
  with fill_head [of s e out ?f] False assms show ?thesis by (simp add: do_ratio_def)
qed (simp add: do_ratio_def)

interpretation wratio: partition_kernel
  "\<lambda>(fp, input) n. length input = n" "\<lambda>(fp, input). do_ratio fp input"
  "\<lambda>(fp, input) s e i. if i = s then 1000000 else if input ! (i - 1) = 0 then 0
      else fp_to_int fp (fp_mul fp (fp_div fp (fp_of_int fp (input ! i)) (fp_of_int fp (input ! (i - 1)))) (fp_of_int fp 1000000))"
  by unfold_locales (auto simp only: split_paired_all prod.case do_ratio_fills)

text \<open>The recurrence of the exponential moving average, by distance from the first row.\<close>

primrec ema_at :: "'f fp_ops \<Rightarrow> 'f \<Rightarrow> i64 list \<Rightarrow> nat \<Rightarrow> nat \<Rightarrow> 'f" where
  "ema_at fp alpha input s 0 = fp_of_int fp (input ! s)"
| "ema_at fp alpha input s (Suc d) =
     fp_add fp (fp_mul fp alpha (fp_of_int fp (input ! (s + Suc d))))
       (fp_mul fp (fp_sub fp (fp_of_int fp 1) alpha) (ema_at fp alpha input s d))"

lemma do_ema_fills:
  assumes "length input = n" "s \<le> e" "e \<le> n" "length out = n"
  shows "do_ema fp alpha input s e out = Some (fill (\<lambda>i. fp_to_int fp (ema_at fp alpha input s (i - s))) s e out)"
    (is "_ = Some (fill ?f s e out)")
proof (cases "e \<le> s")
  case False
  let ?out = "out[s := fp_to_int fp (fp_of_int fp (input ! s))]"
  have "map_option snd (for_range (s + 1) e
      (\<lambda>i (ema, output). Option.bind (vec_get input (int i)) (\<lambda>x.
         let ema = fp_add fp (fp_mul fp alpha (fp_of_int fp x)) (fp_mul fp (fp_sub fp (fp_of_int fp 1) alpha) ema)
         in map_option (Pair ema) (vec_set output (int i) (fp_to_int fp ema))))
      (fp_of_int fp (input ! s), ?out)) = Some (fill ?f (s + 1) e ?out)"
  proof (rule carry_loop [where g = "\<lambda>i. ema_at fp alpha input s (i - 1 - s)"])
    fix i and t :: "i64 list" assume i: "s + 1 \<le> i" "i < e" "length t = length ?out"
    then have d: "i - s = Suc (i - 1 - s)" "s + Suc (i - 1 - s) = i" by auto
    then have ema: "ema_at fp alpha input s (i - s) = fp_add fp (fp_mul fp alpha (fp_of_int fp (input ! i)))
        (fp_mul fp (fp_sub fp (fp_of_int fp 1) alpha) (ema_at fp alpha input s (i - 1 - s)))"
      by (simp only: d ema_at.simps)
    show "(case (ema_at fp alpha input s (i - 1 - s), t) of (ema, output) \<Rightarrow>
        Option.bind (vec_get input (int i)) (\<lambda>x.
         let ema = fp_add fp (fp_mul fp alpha (fp_of_int fp x)) (fp_mul fp (fp_sub fp (fp_of_int fp 1) alpha) ema)
         in map_option (Pair ema) (vec_set output (int i) (fp_to_int fp ema)))) =
      Some (ema_at fp alpha input s (Suc i - 1 - s), t[i := ?f i])"
      using i assms by (simp add: ema Let_def)
  qed (use False assms in auto)
  moreover have "fill ?f (s + 1) e ?out = fill ?f s e out"
    using fill_head [of s e out ?f] False assms by simp
  moreover have "vec_get input (int s) = Some (input ! s)" "vec_set out (int s) v = Some (out[s := v])" for v
    using False assms by simp_all
  ultimately show ?thesis using False by (simp only: do_ema_def Let_def if_False bind.bind_lunit)
qed (simp add: do_ema_def)

interpretation wema: partition_kernel
  "\<lambda>(fp, alpha, input) n. length input = n" "\<lambda>(fp, alpha, input). do_ema fp alpha input"
  "\<lambda>(fp, alpha, input) s e i. fp_to_int fp (ema_at fp alpha input s (i - s))"
  by unfold_locales (auto simp only: split_paired_all prod.case do_ema_fills)

section \<open>Properties\<close>

text \<open>
  C25. The partition bounds of a non-empty key column are strictly increasing from 0 to the number of
  rows, all rows between two neighbouring bounds carry one key, and the key changes at every inner bound:
  the partitions are the maximal runs of equal keys.
\<close>

theorem partition_bounds_maximal_runs:
  assumes "length ks = n" "0 < n"
  shows "\<exists>b. compute_partition_bounds ks n = Some b \<and> hd b = 0 \<and> last b = n \<and> sorted_wrt (<) b \<and>
    (\<forall>p. p + 1 < length b \<longrightarrow> (\<forall>i \<in> {b ! p..<b ! (p + 1)}. ks ! i = ks ! (b ! p))) \<and>
    (\<forall>p. 0 < p \<and> p + 1 < length b \<longrightarrow> ks ! (b ! p) \<noteq> ks ! (b ! p - 1))"
proof -
  let ?b = "filter (cut ks) [0..<n] @ [n]"
  have srt: "sorted_wrt (<) ?b" by (auto simp: sorted_wrt_append sorted_wrt_filter)
  have "[0..<n] = 0 # [1..<n]" using assms(2) by (simp add: upt_conv_Cons)
  then have hd: "hd ?b = 0" by (simp add: cut_def)
  have run: "ks ! i = ks ! (?b ! p)" if "p + 1 < length ?b" "?b ! p \<le> i" "i < ?b ! (p + 1)" for p i
  proof -
    have "is_part (Some ks) n (?b ! p) (?b ! (p + 1))" using that(1) by (intro bounds_parts) simp
    with that(2,3) have "part_start ks i = ?b ! p" by (auto simp: is_part_def pstart_def)
    with part_start_same [of ks i "?b ! p"] that(2) show ?thesis by simp
  qed
  have change: "ks ! (?b ! p) \<noteq> ks ! (?b ! p - 1)" if p: "0 < p" "p + 1 < length ?b" for p
  proof -
    have "p < length (filter (cut ks) [0..<n])" using p(2) by simp
    then have "?b ! p \<in> set (filter (cut ks) [0..<n])" by (metis nth_append nth_mem)
    moreover have "?b ! 0 < ?b ! p" by (rule sorted_wrt_nth_less [OF srt p(1)]) (use p(2) in simp)
    ultimately show ?thesis by (simp add: cut_def)
  qed
  show ?thesis
  proof (intro exI [of _ ?b] conjI allI impI ballI)
    show "compute_partition_bounds ks n = Some ?b" by (rule partition_bounds_eq [OF assms])
    show "ks ! i = ks ! (?b ! p)" if "p + 1 < length ?b" "i \<in> {?b ! p..<?b ! (p + 1)}" for p i
      by (rule run [OF that(1)]) (use that(2) in \<open>simp_all only: atLeastLessThan_iff\<close>)
    show "ks ! (?b ! p) \<noteq> ks ! (?b ! p - 1)" if "0 < p \<and> p + 1 < length ?b" for p
      by (rule change) (use that in blast)+
  qed (rule hd, simp, rule srt)
qed

theorem partition_bounds_maximal_runs_witness:
  "\<exists>b. compute_partition_bounds [7, 7, 9, 9, 9, 7] 6 = Some b \<and> hd b = 0 \<and> last b = 6 \<and> sorted_wrt (<) b"
  using partition_bounds_maximal_runs [of "[7, 7, 9, 9, 9, 7]" 6] by auto



text \<open>
  C5. \<open>MIN\<close> and \<open>MAX\<close> by the monotone deque give every row the extreme of the rows of its partition from
  the frame start up to and including itself; the end of the frame plays no part.
\<close>

theorem window_min_max_correct:
  assumes "frame_ok (preceding fr) 0 n" "length input = n" "keys_ok ko n" "length out = n"
  defines "rows \<equiv> \<lambda>i. frame_rows (preceding fr) 0 (pstart ko i) (pend ko n i) i"
  shows "WindowMin_compute input n fr ko out = Some (map (\<lambda>i. Min (set (map ((!) input) (rows i)))) [0..<n]) \<and>
    WindowMax_compute input n fr ko out = Some (map (\<lambda>i. Max (set (map ((!) input) (rows i)))) [0..<n])"
  using wmin.compute_fills [of "(input, preceding fr, following fr)" n ko out]
    wmax.compute_fills [of "(input, preceding fr, following fr)" n ko out] assms
  by (simp add: WindowMin_compute_def WindowMax_compute_def)

theorem window_min_max_correct_witness:
  "WindowMin_compute [5, 2, 8, 4] 4 \<lparr>ftype = ROWS, preceding = 1, following = 0\<rparr> None [0, 0, 0, 0] = Some [5, 2, 2, 4] \<and>
   WindowMax_compute [5, 2, 8, 4] 4 \<lparr>ftype = ROWS, preceding = 1, following = 0\<rparr> None [0, 0, 0, 0] = Some [5, 5, 8, 8]"
proof -
  let ?fr = "\<lparr>ftype = ROWS, preceding = 1, following = 0\<rparr>"
  let ?vals = "\<lambda>i. (!) [5, 2, 8, 4] ` set (frame_rows 1 0 (pstart None i) (pend None 4 i) i)"
  have "map (\<lambda>i. Min (?vals i)) [0..<4] = [5, 2, 2, 4 :: i64]" "map (\<lambda>i. Max (?vals i)) [0..<4] = [5, 5, 8, 8 :: i64]"
    by code_simp+
  with window_min_max_correct [of ?fr 4 "[5, 2, 8, 4]" None "[0, 0, 0, 0]"] show ?thesis
    by (simp add: frame_ok_def keys_ok_def INT64_MAX_def)
qed

text \<open>
  C23. On partitions in ascending order \<open>ROW_NUMBER\<close> is the position in the partition, \<open>RANK\<close> is one more
  than the number of rows of the partition with a smaller value, and \<open>DENSE_RANK\<close> the number of distinct
  values of the partition up to the row.
\<close>

theorem window_ranks_correct:
  assumes "keys_ok ko n" "length out = n"
    and "\<And>i j k. i < n \<Longrightarrow> pstart ko i \<le> j \<Longrightarrow> j \<le> k \<Longrightarrow> k < pend ko n i \<Longrightarrow> input ! j \<le> input ! k"
  shows "WindowRowNumber_compute n ko out = Some (map (\<lambda>i. int (i - pstart ko i + 1)) [0..<n]) \<and>
    WindowRank_compute input n ko out =
      Some (map (\<lambda>i. 1 + int (card {j. pstart ko i \<le> j \<and> j < pend ko n i \<and> input ! j < input ! i})) [0..<n]) \<and>
    WindowDenseRank_compute input n ko out = Some (map (\<lambda>i. int (card ((!) input ` {pstart ko i..i}))) [0..<n])"
proof -
  have part: "pstart ko i \<le> i" "i < pend ko n i" if "i < n" for i
    using that part_start_le part_end_gt by (auto simp: pstart_def pend_def split: option.splits)
  have "WindowRowNumber_compute n ko out = Some (map (\<lambda>i. int (i - pstart ko i + 1)) [0..<n])"
  proof (cases ko)
    case None
    have "for_range 0 n (\<lambda>i output. vec_set output (int i) (int (i + 1))) out = Some (fill (\<lambda>i. int (i + 1)) 0 n out)"
      by (rule for_range_fill) (use assms(2) in auto)
    with None assms(2) show ?thesis by (simp add: WindowRowNumber_compute_def pstart_def fill_all)
  next
    case (Some ks)
    then show ?thesis using wrow.compute_fills [OF _ assms(1,2)] by (simp add: WindowRowNumber_compute_def)
  qed
  moreover have "map (\<lambda>i. int (tie_start input (pstart ko i) i - pstart ko i + 1)) [0..<n] =
      map (\<lambda>i. 1 + int (card {j. pstart ko i \<le> j \<and> j < pend ko n i \<and> input ! j < input ! i})) [0..<n]"
  proof (rule map_cong [OF refl])
    fix i assume "i \<in> set [0..<n]"
    then have i: "i < n" by simp
    show "int (tie_start input (pstart ko i) i - pstart ko i + 1) =
        1 + int (card {j. pstart ko i \<le> j \<and> j < pend ko n i \<and> input ! j < input ! i})"
      using tie_start_sorted [of "pstart ko i" "pend ko n i" input i, OF assms(3) [OF i] part [OF i]] by simp
  qed
  moreover have "map (\<lambda>i. 1 + int (changes input (pstart ko i) i)) [0..<n] =
      map (\<lambda>i. int (card ((!) input ` {pstart ko i..i}))) [0..<n]"
  proof (rule map_cong [OF refl])
    fix i assume "i \<in> set [0..<n]"
    then have i: "i < n" by simp
    show "1 + int (changes input (pstart ko i) i) = int (card ((!) input ` {pstart ko i..i}))"
      using changes_sorted [of "pstart ko i" "pend ko n i" input i, OF assms(3) [OF i] part [OF i]] by linarith
  qed
  ultimately show ?thesis
    using wrank.compute_fills [OF _ assms(1,2), of input] wdense.compute_fills [OF _ assms(1,2), of input]
    by (simp add: WindowRank_compute_def WindowDenseRank_compute_def)
qed

theorem window_ranks_correct_witness:
  "WindowRank_compute [3, 3, 5] 3 None [0, 0, 0] = Some [1, 1, 3] \<and>
   WindowDenseRank_compute [3, 3, 5] 3 None [0, 0, 0] = Some [1, 1, 2]"
proof -
  let ?xs = "[3, 3, 5] :: i64 list"
  have eval: "map (\<lambda>i. 1 + int (card (set (filter (\<lambda>j. ?xs ! j < ?xs ! i) [0..<3])))) [0..<3] = [1, 1, 3]"
    "map (\<lambda>i. int (card ((!) ?xs ` {0..i}))) [0..<3] = [1, 1, 2]"
    by code_simp+
  have whole: "pstart None i = 0" "pend None 3 i = 3" for i by (simp_all add: pstart_def pend_def)
  have smaller: "{j. 0 \<le> j \<and> j < 3 \<and> ?xs ! j < x} = set (filter (\<lambda>j. ?xs ! j < x) [0..<3])" for x
    by auto
  have "sorted ?xs" by simp
  then have srt: "?xs ! j \<le> ?xs ! k" if "j \<le> k" "k < 3" for j k
    using that by (intro sorted_nth_mono) simp_all
  have "WindowRank_compute ?xs 3 None [0, 0, 0] =
      Some (map (\<lambda>i. 1 + int (card {j. pstart None i \<le> j \<and> j < pend None 3 i \<and> ?xs ! j < ?xs ! i})) [0..<3]) \<and>
    WindowDenseRank_compute ?xs 3 None [0, 0, 0] = Some (map (\<lambda>i. int (card ((!) ?xs ` {pstart None i..i}))) [0..<3])"
  proof (rule window_ranks_correct [THEN conjunct2])
    show "keys_ok None 3" "length [0, 0, 0 :: i64] = 3" by (simp_all add: keys_ok_def)
    show "?xs ! j \<le> ?xs ! k" if "j \<le> k" "k < pend None 3 i" for i j k
      by (rule srt) (use that in \<open>simp_all only: whole\<close>)
  qed
  then show ?thesis unfolding whole smaller eval .
qed



text \<open>
  C39. \<open>DELTA\<close>, \<open>EMA\<close> and \<open>RATIO\<close> restart at every partition: the first row gets its value, its value and one
  million, every later row the wrapped difference to its predecessor, the recurrence
  \<open>alpha * x + (1 - alpha) * previous\<close>, and the scaled quotient by its predecessor (zero for a zero
  predecessor), for every rounding of the floating-point operations.
\<close>

theorem window_recurrences_correct:
  assumes "length input = n" "keys_ok ko n" "length out = n"
  shows "WindowDelta_compute input n ko out =
      Some (map (\<lambda>i. if i = pstart ko i then input ! pstart ko i else wrap64 (input ! i - input ! (i - 1))) [0..<n]) \<and>
    WindowEMA_compute fp alpha input n ko out =
      Some (map (\<lambda>i. fp_to_int fp (ema_at fp alpha input (pstart ko i) (i - pstart ko i))) [0..<n]) \<and>
    WindowRatio_compute fp input n ko out =
      Some (map (\<lambda>i. if i = pstart ko i then 1000000 else if input ! (i - 1) = 0 then 0
        else fp_to_int fp (fp_mul fp (fp_div fp (fp_of_int fp (input ! i)) (fp_of_int fp (input ! (i - 1)))) (fp_of_int fp 1000000))) [0..<n])"
  using wdelta.compute_fills [OF assms] wema.compute_fills [of "(fp, alpha, input)" n ko out]
    wratio.compute_fills [of "(fp, input)" n ko out] assms
  by (simp add: WindowDelta_compute_def WindowEMA_compute_def WindowRatio_compute_def)

theorem window_recurrences_correct_witness:
  "WindowDelta_compute [4, 7, 1] 3 None [0, 0, 0] = Some [4, 3, - 6]"
proof -
  have "map (\<lambda>i. if i = pstart None i then [4, 7, 1] ! pstart None i else wrap64 ([4, 7, 1] ! i - [4, 7, 1] ! (i - 1))) [0..<3] = [4, 3, - 6]"
    by code_simp
  with window_recurrences_correct [of "[4, 7, 1]" 3 None "[0, 0, 0]" int_fp 1] show ?thesis
    by (simp only: keys_ok_def) simp
qed

end
