(* ===== verification/Ring_Buffer.thy ===== *)
theory Ring_Buffer
  imports Zepto_Prelude
begin

text \<open>
  The ingestion queue: the lock-free ring buffer of \<^verbatim>\<open>src/include/zeptodb/ingestion/ring_buffer.h\<close>, the
  tick plant of \<^verbatim>\<open>src/src/ingestion/tick_plant.cpp\<close> that stamps and queues messages, and the
  write-ahead log of \<^verbatim>\<open>src/src/ingestion/wal_writer.cpp\<close>.

  The atomic operations of a slot are functions on the shared ring. \<open>try_push\<close> and \<open>try_pop\<close> compose them
  for one thread at a time; the step relation \<open>rstep\<close> interleaves them for any number of producers and
  consumers, one atomic operation or data access a step. Memory orderings are not modelled: steps are
  sequentially consistent.
\<close>

unbundle bit_operations_syntax

section \<open>Slots and the ring\<close>

datatype SlotState = EMPTY | WRITING | READY | READING

record 'a slot =
  state :: SlotState
  sdata :: 'a

record 'a ring =
  capacity :: u64
  rmask :: u64
  write_pos :: u64
  read_pos :: u64
  slots :: "'a slot list"

text \<open>The constructor; \<open>d\<close> is the indeterminate initial content of a slot.\<close>

definition ring_new :: "'a \<Rightarrow> u64 \<Rightarrow> string + 'a ring" where
  "ring_new d cap =
     (if cap = 0 \<or> cap AND (cap - 1) \<noteq> 0
      then Inl ''MPMCRingBufferDynamic capacity must be a power of two > 0''
      else Inr \<lparr>capacity = cap, rmask = cap - 1, write_pos = 0, read_pos = 0,
                slots = replicate (unat cap) \<lparr>state = EMPTY, sdata = d\<rparr>\<rparr>)"

definition slot_idx :: "'a ring \<Rightarrow> u64 \<Rightarrow> nat" where
  "slot_idx r pos = unat (pos AND rmask r)"

definition fetch_add_write :: "'a ring \<Rightarrow> u64 \<times> 'a ring" where
  "fetch_add_write r = (write_pos r, r\<lparr>write_pos := write_pos r + 1\<rparr>)"

definition fetch_add_read :: "'a ring \<Rightarrow> 'a ring" where
  "fetch_add_read r = r\<lparr>read_pos := read_pos r + 1\<rparr>"

definition store_state :: "nat \<Rightarrow> SlotState \<Rightarrow> 'a ring \<Rightarrow> 'a ring" where
  "store_state i st r = r\<lparr>slots := (slots r)[i := (slots r ! i)\<lparr>state := st\<rparr>]\<rparr>"

definition store_data :: "nat \<Rightarrow> 'a \<Rightarrow> 'a ring \<Rightarrow> 'a ring" where
  "store_data i x r = r\<lparr>slots := (slots r)[i := (slots r ! i)\<lparr>sdata := x\<rparr>]\<rparr>"

definition cas_state :: "nat \<Rightarrow> SlotState \<Rightarrow> SlotState \<Rightarrow> 'a ring \<Rightarrow> bool \<times> 'a ring" where
  "cas_state i expected desired r =
     (if state (slots r ! i) = expected then (True, store_state i desired r) else (False, r))"

definition try_push :: "'a ring \<Rightarrow> 'a \<Rightarrow> bool \<times> 'a ring" where
  "try_push r item =
     (let (pos, r) = fetch_add_write r;
          idx = slot_idx r pos;
          (ok, r) = cas_state idx EMPTY WRITING r
      in if \<not> ok then (False, r)
         else (True, store_state idx READY (store_data idx item r)))"

definition try_pop :: "'a ring \<Rightarrow> 'a option \<times> 'a ring" where
  "try_pop r =
     (let idx = slot_idx r (read_pos r);
          (ok, r) = cas_state idx READY READING r
      in if \<not> ok then (None, r)
         else let r = fetch_add_read r;
                  item = sdata (slots r ! idx)
              in (Some item, store_state idx EMPTY r))"

definition approx_size :: "'a ring \<Rightarrow> u64" where
  "approx_size r = (if read_pos r \<le> write_pos r then write_pos r - read_pos r else 0)"

section \<open>Tick plant and write-ahead log\<close>

text \<open>\<open>price\<close> is the eight-byte union of the integer and the floating-point price.\<close>

record TickMessage =
  seq_num :: u64
  recv_ts :: i64
  symbol_id :: u32
  price :: u64
  volume :: i64
  msg_type :: "8 word"
  price_is_float :: "8 word"
  table_id :: u16

record tick_plant =
  queue :: "TickMessage ring"
  seq_counter :: u64

definition TickPlant :: "TickMessage \<Rightarrow> u64 \<Rightarrow> string + tick_plant" where
  "TickPlant d cap = map_sum id (\<lambda>q. \<lparr>queue = q, seq_counter = 0\<rparr>) (ring_new d cap)"

text \<open>\<open>now\<close> is the value of the clock at the call.\<close>

definition ingest :: "i64 \<Rightarrow> tick_plant \<Rightarrow> TickMessage \<Rightarrow> bool \<times> tick_plant" where
  "ingest now tp msg =
     (let msg = msg\<lparr>seq_num := seq_counter tp, recv_ts := now\<rparr>;
          tp = tp\<lparr>seq_counter := seq_counter tp + 1\<rparr>;
          (ok, q) = try_push (queue tp) msg
      in (ok, tp\<lparr>queue := q\<rparr>))"

definition consume :: "tick_plant \<Rightarrow> TickMessage option \<times> tick_plant" where
  "consume tp = (let (m, q) = try_pop (queue tp) in (m, tp\<lparr>queue := q\<rparr>))"

text \<open>
  The log: the messages appended to the file, the stream state and the message count. \<open>ok\<close> tells whether
  the stream accepts the bytes of this call; a stream that failed once stays failed.
\<close>

record wal_writer =
  wfile :: "TickMessage list"
  wgood :: bool
  wcount :: nat

definition wal_open :: "TickMessage list \<Rightarrow> bool \<Rightarrow> string \<Rightarrow> string + wal_writer" where
  "wal_open existing is_open path =
     (if \<not> is_open then Inl (''WALWriter: cannot open '' @ path)
      else Inr \<lparr>wfile = existing, wgood = True, wcount = 0\<rparr>)"

definition wal_write :: "bool \<Rightarrow> wal_writer \<Rightarrow> TickMessage \<Rightarrow> bool \<times> wal_writer" where
  "wal_write ok w msg =
     (let w = (if wgood w \<and> ok then w\<lparr>wfile := wfile w @ [msg]\<rparr> else w\<lparr>wgood := False\<rparr>)
      in if \<not> wgood w then (False, w) else (True, w\<lparr>wcount := wcount w + 1\<rparr>))"

section \<open>Interleaved execution\<close>

text \<open>
  Where a thread stands inside \<open>try_push\<close> or \<open>try_pop\<close>: each constructor is the point before the next
  atomic operation or data access, with the local variables that are live there.
\<close>

datatype 'a pc =
    Idle
  | PushCas nat 'a       \<comment> \<open>position taken, before the compare-exchange\<close>
  | PushWrite nat 'a     \<comment> \<open>slot claimed, before \<^verbatim>\<open>slot.data = item\<close>\<close>
  | PushPublish nat 'a   \<comment> \<open>before the store of \<open>READY\<close>\<close>
  | PopCas nat           \<comment> \<open>position read, before the compare-exchange\<close>
  | PopAdvance nat       \<comment> \<open>slot claimed, before the increment of the read position\<close>
  | PopRead nat          \<comment> \<open>before \<^verbatim>\<open>item = slot.data\<close>\<close>
  | PopRelease nat 'a    \<comment> \<open>before the store of \<open>EMPTY\<close>\<close>

text \<open>
  The shared ring, the position of every thread, and two histories: the items whose push has returned true
  and the items a pop has returned.
\<close>

record ('t, 'a) sys =
  shared :: "'a ring"
  pcs :: "'t \<Rightarrow> 'a pc"
  accepted :: "'a multiset"
  returned :: "'a multiset"

definition goto :: "'t \<Rightarrow> 'a pc \<Rightarrow> ('t, 'a) sys \<Rightarrow> ('t, 'a) sys" where
  "goto t p s = s\<lparr>pcs := (pcs s)(t := p)\<rparr>"

inductive rstep :: "('t, 'a) sys \<Rightarrow> ('t, 'a) sys \<Rightarrow> bool" where
  push_begin: "pcs s t = Idle \<Longrightarrow> fetch_add_write (shared s) = (pos, r) \<Longrightarrow>
    rstep s (goto t (PushCas (slot_idx r pos) x) (s\<lparr>shared := r\<rparr>))"
| push_claim: "pcs s t = PushCas i x \<Longrightarrow> cas_state i EMPTY WRITING (shared s) = (True, r) \<Longrightarrow>
    rstep s (goto t (PushWrite i x) (s\<lparr>shared := r\<rparr>))"
| push_full: "pcs s t = PushCas i x \<Longrightarrow> cas_state i EMPTY WRITING (shared s) = (False, r) \<Longrightarrow>
    rstep s (goto t Idle (s\<lparr>shared := r\<rparr>))"
| push_write: "pcs s t = PushWrite i x \<Longrightarrow>
    rstep s (goto t (PushPublish i x) (s\<lparr>shared := store_data i x (shared s)\<rparr>))"
| push_publish: "pcs s t = PushPublish i x \<Longrightarrow>
    rstep s (goto t Idle (s\<lparr>shared := store_state i READY (shared s), accepted := add_mset x (accepted s)\<rparr>))"
| pop_begin: "pcs s t = Idle \<Longrightarrow>
    rstep s (goto t (PopCas (slot_idx (shared s) (read_pos (shared s)))) s)"
| pop_claim: "pcs s t = PopCas i \<Longrightarrow> cas_state i READY READING (shared s) = (True, r) \<Longrightarrow>
    rstep s (goto t (PopAdvance i) (s\<lparr>shared := r\<rparr>))"
| pop_empty: "pcs s t = PopCas i \<Longrightarrow> cas_state i READY READING (shared s) = (False, r) \<Longrightarrow>
    rstep s (goto t Idle (s\<lparr>shared := r\<rparr>))"
| pop_advance: "pcs s t = PopAdvance i \<Longrightarrow>
    rstep s (goto t (PopRead i) (s\<lparr>shared := fetch_add_read (shared s)\<rparr>))"
| pop_read: "pcs s t = PopRead i \<Longrightarrow>
    rstep s (goto t (PopRelease i (sdata (slots (shared s) ! i))) s)"
| pop_release: "pcs s t = PopRelease i x \<Longrightarrow>
    rstep s (goto t Idle (s\<lparr>shared := store_state i EMPTY (shared s), returned := add_mset x (returned s)\<rparr>))"

definition sys_init :: "'a ring \<Rightarrow> ('t, 'a) sys" where
  "sys_init r = \<lparr>shared = r, pcs = (\<lambda>_. Idle), accepted = {#}, returned = {#}\<rparr>"

inductive_cases rstepE: "rstep s s'"

section \<open>Safety of the interleavings\<close>

definition ring_wf :: "'a ring \<Rightarrow> bool" where
  "ring_wf r \<longleftrightarrow> (\<exists>k < 64. length (slots r) = 2 ^ k \<and> rmask r = mask k)"

text \<open>The slot a thread has claimed for writing or for reading.\<close>

fun writes :: "'a pc \<Rightarrow> nat option" where
  "writes (PushWrite i x) = Some i"
| "writes (PushPublish i x) = Some i"
| "writes _ = None"

fun reads :: "'a pc \<Rightarrow> nat option" where
  "reads (PopAdvance i) = Some i"
| "reads (PopRead i) = Some i"
| "reads (PopRelease i x) = Some i"
| "reads _ = None"

fun idx_of :: "'a pc \<Rightarrow> nat option" where
  "idx_of Idle = None"
| "idx_of (PushCas i x) = Some i"
| "idx_of (PushWrite i x) = Some i"
| "idx_of (PushPublish i x) = Some i"
| "idx_of (PopCas i) = Some i"
| "idx_of (PopAdvance i) = Some i"
| "idx_of (PopRead i) = Some i"
| "idx_of (PopRelease i x) = Some i"

definition holds :: "'a slot \<Rightarrow> bool" where
  "holds sl \<longleftrightarrow> state sl = READY \<or> state sl = READING"

definition content :: "'a ring \<Rightarrow> 'a multiset" where
  "content r = image_mset sdata (filter_mset holds (mset (slots r)))"

lemma content_update:
  assumes "i < length xs"
  shows "image_mset sdata (filter_mset holds (mset (xs[i := v]))) + (if holds (xs ! i) then {#sdata (xs ! i)#} else {#}) =
    image_mset sdata (filter_mset holds (mset xs)) + (if holds v then {#sdata v#} else {#})"
proof -
  have "xs = take i xs @ xs ! i # drop (Suc i) xs" using assms by (rule id_take_nth_drop)
  then have "mset xs = mset (take i xs) + add_mset (xs ! i) (mset (drop (Suc i) xs))"
    by (metis mset.simps(2) mset_append)
  moreover have "mset (xs[i := v]) = mset (take i xs) + add_mset v (mset (drop (Suc i) xs))"
    using assms by (simp add: upd_conv_take_nth_drop)
  ultimately show ?thesis by simp
qed

definition owner_ok :: "('t, 'a) sys \<Rightarrow> nat \<Rightarrow> bool" where
  "owner_ok s i \<longleftrightarrow>
     (state (slots (shared s) ! i) = WRITING \<longleftrightarrow> (\<exists>t. writes (pcs s t) = Some i)) \<and>
     (state (slots (shared s) ! i) = READING \<longleftrightarrow> (\<exists>t. reads (pcs s t) = Some i)) \<and>
     (\<forall>t u. writes (pcs s t) = Some i \<longrightarrow> writes (pcs s u) = Some i \<longrightarrow> t = u) \<and>
     (\<forall>t u. reads (pcs s t) = Some i \<longrightarrow> reads (pcs s u) = Some i \<longrightarrow> t = u)"

definition sys_inv :: "('t, 'a) sys \<Rightarrow> bool" where
  "sys_inv s \<longleftrightarrow>
     ring_wf (shared s) \<and>
     (\<forall>t i. idx_of (pcs s t) = Some i \<longrightarrow> i < length (slots (shared s))) \<and>
     (\<forall>i < length (slots (shared s)). owner_ok s i) \<and>
     (\<forall>t i x. pcs s t = PushPublish i x \<or> pcs s t = PopRelease i x \<longrightarrow> sdata (slots (shared s) ! i) = x) \<and>
     accepted s = returned s + content (shared s)"

lemma slot_idx_less: "ring_wf r \<Longrightarrow> slot_idx r pos < length (slots r)"
proof -
  assume "ring_wf r"
  then obtain k where k: "k < 64" "length (slots r) = 2 ^ k" "rmask r = mask k" by (auto simp: ring_wf_def)
  have "unat (take_bit k pos) = take_bit k (unat pos)" by (rule unsigned_take_bit_eq)
  with k show ?thesis by (simp add: slot_idx_def flip: take_bit_eq_mask)
qed

lemma owns_idx: "writes p = Some i \<or> reads p = Some i \<Longrightarrow> idx_of p = Some i"
  by (cases p) auto

text \<open>
  A step of thread \<open>t\<close> at slot \<open>i\<close>. Before it either owns the slot or the slot has no owner of that kind;
  after it the slot's state says whether \<open>t\<close> owns it.
\<close>

lemma sys_inv_move:
  assumes inv: "sys_inv s" and p: "idx_of (pcs s t) = Some i"
    and r: "slots r = (slots (shared s))[i := v]" "rmask r = rmask (shared s)"
    and old: "writes (pcs s t) = Some i \<or> state (slots (shared s) ! i) \<noteq> WRITING"
      "reads (pcs s t) = Some i \<or> state (slots (shared s) ! i) \<noteq> READING"
    and new: "writes p' = (if state v = WRITING then Some i else None)" "reads p' = (if state v = READING then Some i else None)"
      "idx_of p' = None \<or> idx_of p' = Some i"
    and dat: "\<And>j x. p' = PushPublish j x \<or> p' = PopRelease j x \<Longrightarrow> sdata v = x"
    and hist: "acc + (if holds (slots (shared s) ! i) then {#sdata (slots (shared s) ! i)#} else {#}) + returned s =
      accepted s + (if holds v then {#sdata v#} else {#}) + ret"
  shows "sys_inv (goto t p' (s\<lparr>shared := r, accepted := acc, returned := ret\<rparr>))"
proof -
  let ?xs = "slots (shared s)"
  have wf: "ring_wf (shared s)" and bnd: "\<And>u j. idx_of (pcs s u) = Some j \<Longrightarrow> j < length ?xs"
    and own: "\<And>j. j < length ?xs \<Longrightarrow> owner_ok s j"
    and pub: "\<And>u j x. pcs s u = PushPublish j x \<or> pcs s u = PopRelease j x \<Longrightarrow> sdata (?xs ! j) = x"
    and acc: "accepted s = returned s + content (shared s)"
    using inv unfolding sys_inv_def by blast+
  have i: "i < length ?xs" using bnd p by blast
  have self: "writes (pcs s t) = None \<or> writes (pcs s t) = Some i" "reads (pcs s t) = None \<or> reads (pcs s t) = Some i"
    using p owns_idx [of "pcs s t"] by (cases "pcs s t"; auto)+
  have other: "writes (pcs s u) \<noteq> Some i" "reads (pcs s u) \<noteq> Some i" if "u \<noteq> t" for u
    using own [OF i] old that unfolding owner_ok_def by blast+
  have "owner_ok (goto t p' (s\<lparr>shared := r, accepted := acc, returned := ret\<rparr>)) j" if j: "j < length ?xs" for j
  proof (cases "j = i")
    case True
    with i other new(1,2) show ?thesis by (auto simp: owner_ok_def goto_def r split: if_splits)
  next
    case False
    with self new(1,2) have "writes p' \<noteq> Some j" "reads p' \<noteq> Some j" "writes (pcs s t) \<noteq> Some j" "reads (pcs s t) \<noteq> Some j"
      by (auto split: if_splits)
    then have "writes (((pcs s)(t := p')) u) = Some j \<longleftrightarrow> writes (pcs s u) = Some j"
      "reads (((pcs s)(t := p')) u) = Some j \<longleftrightarrow> reads (pcs s u) = Some j" for u by auto
    with own [OF j] False show ?thesis by (simp add: owner_ok_def goto_def r del: fun_upd_apply)
  qed
  moreover have "sdata (?xs[i := v] ! j) = x"
    if "((pcs s)(t := p')) u = PushPublish j x \<or> ((pcs s)(t := p')) u = PopRelease j x" for u j x
  proof (cases "u = t")
    case True
    with that have "p' = PushPublish j x \<or> p' = PopRelease j x" by simp
    moreover from this new(3) have "j = i" by auto
    ultimately show ?thesis using dat i by auto
  next
    case False
    with that have u: "pcs s u = PushPublish j x \<or> pcs s u = PopRelease j x" by simp
    with other [OF False] have "j \<noteq> i" by auto
    with pub [OF u] show ?thesis by simp
  qed
  moreover have "acc = ret + content r"
  proof (rule add_right_imp_eq)
    let ?o = "if holds (?xs ! i) then {#sdata (?xs ! i)#} else {#}"
    show "acc + ?o = ret + content r + ?o"
      using content_update [OF i, of v] hist acc by (simp add: content_def r add_ac)
  qed
  moreover have "ring_wf r" using wf r by (simp add: ring_wf_def)
  moreover have "idx_of (((pcs s)(t := p')) u) = Some j \<Longrightarrow> j < length ?xs" for u j
    using new(3) i bnd by (cases "u = t") auto
  ultimately show ?thesis unfolding sys_inv_def by (simp add: goto_def r)
qed

text \<open>A step that changes no slot and no ownership.\<close>

lemma sys_inv_idle:
  assumes inv: "sys_inv s" and r: "slots r = slots (shared s)" "rmask r = rmask (shared s)"
    and p: "writes (pcs s t) = None" "reads (pcs s t) = None" "writes p' = None" "reads p' = None"
    and idx: "\<And>i. idx_of p' = Some i \<Longrightarrow> i < length (slots (shared s))"
  shows "sys_inv (goto t p' (s\<lparr>shared := r\<rparr>))"
proof -
  have w: "writes (((pcs s)(t := p')) u) = writes (pcs s u)" "reads (((pcs s)(t := p')) u) = reads (pcs s u)" for u
    using p by auto
  have "p' \<noteq> PushPublish j x \<and> p' \<noteq> PopRelease j x" for j x using p by auto
  with inv idx w show ?thesis
    unfolding sys_inv_def owner_ok_def goto_def by (simp add: r ring_wf_def content_def)
qed

lemma sys_inv_step:
  assumes inv: "sys_inv s" and step: "rstep s s'"
  shows "sys_inv s'"
  using step
proof cases
  case (push_begin t pos r x)
  have "ring_wf (shared s)" using inv by (simp add: sys_inv_def)
  then have "ring_wf r" using push_begin(3) by (auto simp: fetch_add_write_def ring_wf_def)
  from slot_idx_less [OF this, of pos] push_begin show ?thesis
    by (auto intro!: sys_inv_idle [OF inv] simp: fetch_add_write_def)
next
  case (push_claim t i x r)
  have "sys_inv (goto t (PushWrite i x) (s\<lparr>shared := r, accepted := accepted s, returned := returned s\<rparr>))"
    by (rule sys_inv_move [OF inv, where i = i and v = "(slots (shared s) ! i)\<lparr>state := WRITING\<rparr>"])
      (use push_claim(2,3) in \<open>auto simp: cas_state_def store_state_def holds_def split: if_splits\<close>)
  then show ?thesis unfolding push_claim(1) by simp
next
  case (push_full t i x r)
  then show ?thesis by (auto intro!: sys_inv_idle [OF inv] simp: cas_state_def split: if_splits)
next
  case (push_write t i x)
  have "writes (pcs s t) = Some i" using push_write by simp
  with inv owns_idx [of "pcs s t" i] have "state (slots (shared s) ! i) = WRITING"
    unfolding sys_inv_def owner_ok_def by blast
  then have "sys_inv (goto t (PushPublish i x) (s\<lparr>shared := store_data i x (shared s), accepted := accepted s, returned := returned s\<rparr>))"
    using push_write(2)
    by (intro sys_inv_move [OF inv, where i = i and v = "(slots (shared s) ! i)\<lparr>sdata := x\<rparr>"])
      (auto simp: store_data_def holds_def)
  then show ?thesis unfolding push_write(1) by simp
next
  case (push_publish t i x)
  have "writes (pcs s t) = Some i" using push_publish by simp
  with inv owns_idx [of "pcs s t" i] have "state (slots (shared s) ! i) = WRITING"
    unfolding sys_inv_def owner_ok_def by blast
  moreover have "sdata (slots (shared s) ! i) = x" using inv push_publish(2) unfolding sys_inv_def by blast
  ultimately have "sys_inv (goto t Idle (s\<lparr>shared := store_state i READY (shared s),
      accepted := add_mset x (accepted s), returned := returned s\<rparr>))"
    using push_publish(2)
    by (intro sys_inv_move [OF inv, where i = i and v = "(slots (shared s) ! i)\<lparr>state := READY\<rparr>"])
      (auto simp: store_state_def holds_def)
  then show ?thesis unfolding push_publish(1) by simp
next
  case (pop_begin t)
  have "ring_wf (shared s)" using inv by (simp add: sys_inv_def)
  with pop_begin have "sys_inv (goto t (PopCas (slot_idx (shared s) (read_pos (shared s)))) (s\<lparr>shared := shared s\<rparr>))"
    by (intro sys_inv_idle [OF inv]) (auto intro: slot_idx_less)
  then show ?thesis unfolding pop_begin(1) by simp
next
  case (pop_claim t i r)
  have "sys_inv (goto t (PopAdvance i) (s\<lparr>shared := r, accepted := accepted s, returned := returned s\<rparr>))"
    by (rule sys_inv_move [OF inv, where i = i and v = "(slots (shared s) ! i)\<lparr>state := READING\<rparr>"])
      (use pop_claim(2,3) in \<open>auto simp: cas_state_def store_state_def holds_def split: if_splits\<close>)
  then show ?thesis unfolding pop_claim(1) by simp
next
  case (pop_empty t i r)
  then show ?thesis by (auto intro!: sys_inv_idle [OF inv] simp: cas_state_def split: if_splits)
next
  case (pop_advance t i)
  have "reads (pcs s t) = Some i" using pop_advance by simp
  with inv owns_idx [of "pcs s t" i] have "state (slots (shared s) ! i) = READING"
    unfolding sys_inv_def owner_ok_def by blast
  then have "sys_inv (goto t (PopRead i) (s\<lparr>shared := fetch_add_read (shared s), accepted := accepted s, returned := returned s\<rparr>))"
    using pop_advance(2)
    by (intro sys_inv_move [OF inv, where i = i and v = "slots (shared s) ! i"]) (auto simp: fetch_add_read_def)
  then show ?thesis unfolding pop_advance(1) by simp
next
  case (pop_read t i)
  have "reads (pcs s t) = Some i" using pop_read by simp
  with inv owns_idx [of "pcs s t" i] have "state (slots (shared s) ! i) = READING"
    unfolding sys_inv_def owner_ok_def by blast
  then have "sys_inv (goto t (PopRelease i (sdata (slots (shared s) ! i)))
      (s\<lparr>shared := shared s, accepted := accepted s, returned := returned s\<rparr>))"
    using pop_read(2)
    by (intro sys_inv_move [OF inv, where i = i and v = "slots (shared s) ! i"]) auto
  then show ?thesis unfolding pop_read(1) by simp
next
  case (pop_release t i x)
  have "reads (pcs s t) = Some i" using pop_release by simp
  with inv owns_idx [of "pcs s t" i] have "state (slots (shared s) ! i) = READING"
    unfolding sys_inv_def owner_ok_def by blast
  moreover have "sdata (slots (shared s) ! i) = x" using inv pop_release(2) unfolding sys_inv_def by blast
  ultimately have "sys_inv (goto t Idle (s\<lparr>shared := store_state i EMPTY (shared s),
      accepted := accepted s, returned := add_mset x (returned s)\<rparr>))"
    using pop_release(2)
    by (intro sys_inv_move [OF inv, where i = i and v = "(slots (shared s) ! i)\<lparr>state := EMPTY\<rparr>"])
      (auto simp: store_state_def holds_def)
  then show ?thesis unfolding pop_release(1) by simp
qed

lemma ring_new_wf: "ring_new d cap = Inr r \<Longrightarrow> ring_wf r"
proof -
  assume r: "ring_new d cap = Inr r"
  then have "cap \<noteq> 0" "cap AND (cap - 1) = 0" by (auto simp: ring_new_def split: if_splits)
  then obtain k where "k < 64" "cap = 2 ^ k" using power_of_two_check by blast
  moreover have "unat (2 ^ k :: u64) = 2 ^ k"
  proof -
    have "(2 :: nat) ^ k < 2 ^ 64" using \<open>k < 64\<close> by (intro power_strict_increasing) auto
    then have "unat (of_nat (2 ^ k) :: u64) = 2 ^ k" by (subst unat_of_nat) simp
    then show ?thesis by simp
  qed
  ultimately show ?thesis using r by (auto simp: ring_new_def ring_wf_def mask_eq_exp_minus_1 split: if_splits)
qed

lemma sys_inv_init:
  assumes "ring_new d cap = Inr r"
  shows "sys_inv (sys_init r :: ('t, 'a) sys)"
proof -
  have "slots r = replicate (unat cap) \<lparr>state = EMPTY, sdata = d\<rparr>"
    using assms by (auto simp: ring_new_def split: if_splits)
  then show ?thesis
    using ring_new_wf [OF assms] by (auto simp: sys_inv_def sys_init_def owner_ok_def content_def holds_def)
qed

lemma sys_inv_reachable:
  assumes "ring_new d cap = Inr r" "rstep\<^sup>*\<^sup>* (sys_init r) s"
  shows "sys_inv s"
  using assms(2) by (induction rule: rtranclp_induct) (use sys_inv_init [OF assms(1)] sys_inv_step in blast)+

section \<open>One thread at a time: a bounded queue\<close>

datatype 'a queue_op = Push 'a | Pop

fun run_queue :: "('q \<Rightarrow> 'a \<Rightarrow> bool \<times> 'q) \<Rightarrow> ('q \<Rightarrow> 'a option \<times> 'q) \<Rightarrow> 'a queue_op list \<Rightarrow> 'q \<Rightarrow> bool list \<times> 'a list \<times> 'q" where
  "run_queue push pop [] q = ([], [], q)"
| "run_queue push pop (Push x # ops) q =
     (let (ok, q) = push q x; (oks, outs, q) = run_queue push pop ops q in (ok # oks, outs, q))"
| "run_queue push pop (Pop # ops) q =
     (let (r, q) = pop q; (oks, outs, q) = run_queue push pop ops q
      in (oks, (case r of None \<Rightarrow> outs | Some x \<Rightarrow> x # outs), q))"

fun pushes :: "'a queue_op list \<Rightarrow> 'a list" where
  "pushes [] = []"
| "pushes (Push x # ops) = x # pushes ops"
| "pushes (Pop # ops) = pushes ops"

text \<open>
  What a first-in first-out queue of bounded room promises: a push on a queue with room appends, a push on
  a full queue reports failure, a pop takes the oldest item.
\<close>

locale fifo_queue =
  fixes inv :: "'q \<Rightarrow> bool"
    and abs :: "'q \<Rightarrow> 'a list"
    and room :: "'q \<Rightarrow> nat"
    and push :: "'q \<Rightarrow> 'a \<Rightarrow> bool \<times> 'q"
    and pop :: "'q \<Rightarrow> 'a option \<times> 'q"
  assumes size_le: "inv q \<Longrightarrow> length (abs q) \<le> room q"
    and push_room: "inv q \<Longrightarrow> length (abs q) < room q \<Longrightarrow>
      \<exists>q'. push q x = (True, q') \<and> inv q' \<and> abs q' = abs q @ [x] \<and> room q' = room q"
    and push_no_room: "inv q \<Longrightarrow> length (abs q) = room q \<Longrightarrow> \<not> fst (push q x)"
    and pop_nothing: "inv q \<Longrightarrow> abs q = [] \<Longrightarrow> pop q = (None, q)"
    and pop_oldest: "inv q \<Longrightarrow> abs q = x # xs \<Longrightarrow>
      \<exists>q'. pop q = (Some x, q') \<and> inv q' \<and> abs q' = xs \<and> room q' = room q"
begin

text \<open>As long as no push fails, the items come out in the order they went in.\<close>

lemma run_in_order:
  assumes "inv q" "run_queue push pop ops q = (oks, outs, q')" "\<forall>ok \<in> set oks. ok"
  shows "inv q' \<and> abs q @ pushes ops = outs @ abs q'"
  using assms
proof (induction ops arbitrary: q oks outs q')
  case (Cons opn ops)
  show ?case
  proof (cases opn)
    case (Push x)
    obtain ok q1 where p: "push q x = (ok, q1)" by fastforce
    obtain oks1 outs1 q2 where run: "run_queue push pop ops q1 = (oks1, outs1, q2)" by (metis prod_cases3)
    have res: "oks = ok # oks1" "outs = outs1" "q' = q2" using Cons.prems(2) by (simp_all add: Push p run)
    then have "length (abs q) \<noteq> room q" using push_no_room [OF Cons.prems(1), of x] p Cons.prems(3) by auto
    then have "length (abs q) < room q" using size_le [OF Cons.prems(1)] by simp
    from push_room [OF Cons.prems(1) this, of x] p have q1: "inv q1" "abs q1 = abs q @ [x]" by auto
    from Cons.IH [OF q1(1) run] res Cons.prems(3) q1(2) Push show ?thesis by auto
  next
    case Pop
    obtain r q1 where p: "pop q = (r, q1)" by fastforce
    obtain oks1 outs1 q2 where run: "run_queue push pop ops q1 = (oks1, outs1, q2)" by (metis prod_cases3)
    have res: "oks = oks1" "outs = (case r of None \<Rightarrow> outs1 | Some x \<Rightarrow> x # outs1)" "q' = q2"
      using Cons.prems(2) by (simp_all add: Pop p run)
    show ?thesis
    proof (cases "abs q")
      case Nil
      then have "r = None" "q1 = q" using pop_nothing [OF Cons.prems(1)] p by auto
      with Cons.IH [OF Cons.prems(1)] run res Cons.prems(3) Pop Nil show ?thesis by auto
    next
      case (Cons x xs)
      from pop_oldest [OF \<open>inv q\<close> this] p have "r = Some x" "inv q1" "abs q1 = xs" by auto
      with Cons.IH [OF \<open>inv q1\<close> run] res Cons.prems(3) Pop Cons show ?thesis by simp
    qed
  qed
qed auto

end

text \<open>
  The ring as such a queue. \<open>fifo_ok\<close>: the slots from the read position up to the write position hold the
  items, all others are empty.
\<close>

definition ring_len :: "'a ring \<Rightarrow> nat" where
  "ring_len r = unat (write_pos r - read_pos r)"

definition pos_idx :: "'a ring \<Rightarrow> nat \<Rightarrow> nat" where
  "pos_idx r j = (unat (read_pos r) + j) mod length (slots r)"

definition fifo_ok :: "'a ring \<Rightarrow> bool" where
  "fifo_ok r \<longleftrightarrow> ring_wf r \<and> ring_len r \<le> length (slots r) \<and>
     (\<forall>j < length (slots r). state (slots r ! pos_idx r j) = (if j < ring_len r then READY else EMPTY))"

definition fifo_abs :: "'a ring \<Rightarrow> 'a list" where
  "fifo_abs r = map (\<lambda>j. sdata (slots r ! pos_idx r j)) [0..<ring_len r]"

lemma slot_idx_mod:
  assumes "ring_wf r"
  shows "slot_idx r p = unat p mod length (slots r)"
proof -
  from assms obtain k where k: "length (slots r) = 2 ^ k" "rmask r = mask k" by (auto simp: ring_wf_def)
  have "unat (take_bit k p) = take_bit k (unat p)" by (rule unsigned_take_bit_eq)
  with k show ?thesis by (simp add: slot_idx_def take_bit_eq_mod flip: take_bit_eq_mask)
qed

lemma unat_add_mod:
  assumes "ring_wf r"
  shows "unat (p + of_nat j :: u64) mod length (slots r) = (unat p + j) mod length (slots r)"
proof -
  from assms obtain k where k: "k < 64" "length (slots r) = 2 ^ k" by (auto simp: ring_wf_def)
  have dvd: "(2 :: nat) ^ k dvd 2 ^ 64" using k(1) by (intro le_imp_power_dvd) simp
  have "unat (p + of_nat j :: u64) = (unat p + j) mod 2 ^ 64"
    by (simp add: unat_word_ariths unat_of_nat mod_simps)
  with dvd show ?thesis unfolding k(2) by (simp only: mod_mod_cancel)
qed

lemma add_mod_inj:
  assumes "(a + i) mod N = (a + j) mod N" "i \<le> j" "j < (N :: nat)"
  shows "i = j"
proof -
  have "N dvd (a + j) - (a + i)" using assms(1,2) by (subst mod_eq_dvd_iff_nat [symmetric]) simp_all
  then have "N dvd j - i" by simp
  with assms(2,3) show ?thesis by (cases "j - i") (auto dest: dvd_imp_le)
qed

lemma pos_idx_inj:
  assumes "i < length (slots r)" "j < length (slots r)"
  shows "pos_idx r i = pos_idx r j \<longleftrightarrow> i = j"
  using add_mod_inj [of "unat (read_pos r)" i _ j] add_mod_inj [of "unat (read_pos r)" j _ i] assms
  by (cases "i \<le> j") (auto simp: pos_idx_def dest: sym)

lemma unat_plus_one: "unat (w :: u64) < N \<Longrightarrow> N < 2 ^ 64 \<Longrightarrow> unat (w + 1) = Suc (unat w)"
  by (simp add: unat_word_ariths)

lemma fifo_wf:
  assumes "fifo_ok r"
  shows "ring_wf r" "ring_len r \<le> length (slots r)" "0 < length (slots r)" "length (slots r) < 2 ^ 64"
    "write_pos r = read_pos r + of_nat (ring_len r)"
proof -
  show wf: "ring_wf r" and "ring_len r \<le> length (slots r)" using assms by (simp_all add: fifo_ok_def)
  from wf obtain k where k: "k < 64" "length (slots r) = 2 ^ k" by (auto simp: ring_wf_def)
  then show "0 < length (slots r)" by simp
  show "length (slots r) < 2 ^ 64" unfolding k(2) using k(1) by (intro power_strict_increasing) auto
  show "write_pos r = read_pos r + of_nat (ring_len r)" by (simp add: ring_len_def)
qed

lemma slot_idx_write: "fifo_ok r \<Longrightarrow> slot_idx r (write_pos r) = pos_idx r (ring_len r)"
  using fifo_wf [of r] by (simp add: slot_idx_mod unat_add_mod pos_idx_def del: add_diff_cancel_left')

lemma slot_idx_read: "fifo_ok r \<Longrightarrow> slot_idx r (read_pos r) = pos_idx r 0"
  using fifo_wf [of r] by (simp add: slot_idx_mod pos_idx_def)

lemma try_push_room:
  assumes ok: "fifo_ok r" and room: "ring_len r < length (slots r)"
  shows "\<exists>r'. try_push r x = (True, r') \<and> fifo_ok r' \<and> fifo_abs r' = fifo_abs r @ [x] \<and> length (slots r') = length (slots r)"
proof -
  note wf = fifo_wf [OF ok]
  let ?n = "ring_len r" and ?N = "length (slots r)"
  let ?i = "pos_idx r ?n"
  let ?v = "(slots r ! ?i)\<lparr>sdata := x, state := READY\<rparr>"
  define r' where "r' = r\<lparr>write_pos := write_pos r + 1, slots := (slots r)[?i := ?v]\<rparr>"
  have i: "?i < ?N" using wf(3) by (simp add: pos_idx_def)
  have "state (slots r ! ?i) = EMPTY" using ok room by (simp add: fifo_ok_def)
  then have push: "try_push r x = (True, r')"
    using i slot_idx_write [OF ok]
    by (simp add: try_push_def fetch_add_write_def cas_state_def store_state_def store_data_def slot_idx_def r'_def Let_def)
  have "ring_len r' = unat ((write_pos r - read_pos r) + 1)" by (simp add: ring_len_def r'_def algebra_simps)
  then have len: "ring_len r' = Suc ?n"
    using unat_plus_one [OF _ wf(4), of "write_pos r - read_pos r"] room by (simp only: ring_len_def)
  have idx: "pos_idx r' j = pos_idx r j" for j by (simp add: pos_idx_def r'_def)
  have slot: "slots r' ! pos_idx r' j = (if j = ?n then ?v else slots r ! pos_idx r j)" if "j < ?N" for j
    using pos_idx_inj [OF room that] i by (auto simp: idx) (auto simp: r'_def nth_list_update)
  have "fifo_ok r'"
    using ok wf(1) room slot len by (simp add: fifo_ok_def) (simp add: r'_def ring_wf_def)
  moreover have "fifo_abs r' = fifo_abs r @ [x]"
    using slot room by (simp add: fifo_abs_def len)
  moreover have "length (slots r') = ?N" by (simp add: r'_def)
  ultimately show ?thesis using push by blast
qed

lemma try_push_full:
  assumes ok: "fifo_ok r" and full: "ring_len r = length (slots r)"
  shows "\<not> fst (try_push r x)"
proof -
  note wf = fifo_wf [OF ok]
  have "pos_idx r (ring_len r) = pos_idx r 0" by (simp add: pos_idx_def full)
  moreover have "state (slots r ! pos_idx r 0) = READY" using ok wf(3) full by (simp add: fifo_ok_def)
  ultimately show ?thesis
    using slot_idx_write [OF ok]
    by (simp add: try_push_def fetch_add_write_def cas_state_def slot_idx_def Let_def)
qed

lemma try_pop_empty:
  assumes ok: "fifo_ok r" and "fifo_abs r = []"
  shows "try_pop r = (None, r)"
proof -
  have "ring_len r = 0" using assms(2) by (simp add: fifo_abs_def)
  then have "state (slots r ! pos_idx r 0) = EMPTY" using ok fifo_wf(3) [OF ok] by (simp add: fifo_ok_def)
  with slot_idx_read [OF ok] show ?thesis by (simp add: try_pop_def cas_state_def)
qed

lemma try_pop_oldest:
  assumes ok: "fifo_ok r" and abs: "fifo_abs r = x # xs"
  shows "\<exists>r'. try_pop r = (Some x, r') \<and> fifo_ok r' \<and> fifo_abs r' = xs \<and> length (slots r') = length (slots r)"
proof -
  note wf = fifo_wf [OF ok]
  let ?n = "ring_len r" and ?N = "length (slots r)"
  let ?i = "pos_idx r 0"
  let ?v = "(slots r ! ?i)\<lparr>state := EMPTY\<rparr>"
  define r' where "r' = r\<lparr>read_pos := read_pos r + 1, slots := (slots r)[?i := ?v]\<rparr>"
  have n: "0 < ?n" using abs by (cases ?n) (simp_all add: fifo_abs_def)
  then have hd: "x = sdata (slots r ! ?i)" and tl: "xs = map (\<lambda>j. sdata (slots r ! pos_idx r j)) [1..<?n]"
    using abs by (simp_all add: fifo_abs_def upt_conv_Cons)
  have i: "?i < ?N" using wf(3) by (simp add: pos_idx_def)
  have "state (slots r ! ?i) = READY" using ok n wf(3) by (simp add: fifo_ok_def)
  then have pop: "try_pop r = (Some x, r')"
    using i slot_idx_read [OF ok]
    by (simp add: try_pop_def cas_state_def store_state_def fetch_add_read_def r'_def Let_def hd)
  have "ring_len r' = unat ((write_pos r - read_pos r) - 1)" by (simp add: ring_len_def r'_def algebra_simps)
  moreover have nz: "write_pos r - read_pos r \<noteq> 0" using n by (auto simp: ring_len_def)
  ultimately have len: "ring_len r' = ?n - 1" using unat_minus_one [OF nz] by (simp only: ring_len_def)
  have idx: "pos_idx r' j = pos_idx r (Suc j)" for j
    using unat_add_mod [OF wf(1), of "read_pos r" 1]
    by (simp add: pos_idx_def r'_def) (metis add_Suc_right mod_add_left_eq plus_1_eq_Suc add.commute)
  have wrap: "pos_idx r ?N = ?i" by (simp add: pos_idx_def)
  have slot: "slots r' ! pos_idx r' j = (if j = ?N - 1 then ?v else slots r ! pos_idx r (Suc j))" if "j < ?N" for j
  proof (cases "j = ?N - 1")
    case True
    then have "Suc j = ?N" using that by simp
    then have "pos_idx r' j = ?i" unfolding idx by (simp add: wrap)
    with True i show ?thesis by (simp add: r'_def)
  next
    case False
    then have "Suc j < ?N" using that by simp
    then have "pos_idx r (Suc j) \<noteq> ?i" using pos_idx_inj [of "Suc j" r 0] wf(3) by simp
    with False show ?thesis unfolding idx by (simp add: r'_def)
  qed
  have "fifo_ok r'"
    using ok wf(1,2) slot len n by (auto simp: fifo_ok_def) (auto simp: r'_def ring_wf_def)
  moreover have "fifo_abs r' = xs"
    using slot wf(2) n unfolding fifo_abs_def len tl
    by (intro nth_equalityI) (auto simp: nth_append)
  moreover have "length (slots r') = ?N" by (simp add: r'_def)
  ultimately show ?thesis using pop by blast
qed

interpretation rq: fifo_queue fifo_ok fifo_abs "\<lambda>r. length (slots r)" try_push try_pop
proof
  fix q :: "'a ring" and x xs
  assume ok: "fifo_ok q"
  have len: "length (fifo_abs q) = ring_len q" by (simp add: fifo_abs_def)
  show "length (fifo_abs q) \<le> length (slots q)" using fifo_wf(2) [OF ok] len by simp
  show "\<exists>q'. try_push q x = (True, q') \<and> fifo_ok q' \<and> fifo_abs q' = fifo_abs q @ [x] \<and> length (slots q') = length (slots q)"
    if "length (fifo_abs q) < length (slots q)" using try_push_room [OF ok] that len by simp
  show "\<not> fst (try_push q x)" if "length (fifo_abs q) = length (slots q)" using try_push_full [OF ok] that len by simp
  show "try_pop q = (None, q)" if "fifo_abs q = []" using try_pop_empty [OF ok that] .
  show "\<exists>q'. try_pop q = (Some x, q') \<and> fifo_ok q' \<and> fifo_abs q' = xs \<and> length (slots q') = length (slots q)"
    if "fifo_abs q = x # xs" using try_pop_oldest [OF ok that] .
qed

text \<open>A session of the tick plant: the ingested messages with the clock at the call, and the consumptions.\<close>

datatype plant_op = Ingest i64 TickMessage | Consume

fun run_plant :: "plant_op list \<Rightarrow> tick_plant \<Rightarrow> bool list \<times> TickMessage list \<times> tick_plant" where
  "run_plant [] tp = ([], [], tp)"
| "run_plant (Ingest now msg # ops) tp =
     (let (ok, tp) = ingest now tp msg; (oks, outs, tp) = run_plant ops tp in (ok # oks, outs, tp))"
| "run_plant (Consume # ops) tp =
     (let (r, tp) = consume tp; (oks, outs, tp) = run_plant ops tp
      in (oks, (case r of None \<Rightarrow> outs | Some m \<Rightarrow> m # outs), tp))"

text \<open>What the plant puts on the queue: the messages with their stamps, counted from \<open>n\<close>.\<close>

fun stamped :: "u64 \<Rightarrow> plant_op list \<Rightarrow> TickMessage queue_op list" where
  "stamped n [] = []"
| "stamped n (Ingest now msg # ops) = Push (msg\<lparr>seq_num := n, recv_ts := now\<rparr>) # stamped (n + 1) ops"
| "stamped n (Consume # ops) = Pop # stamped n ops"

fun ingested :: "plant_op list \<Rightarrow> TickMessage list" where
  "ingested [] = []"
| "ingested (Ingest now msg # ops) = msg\<lparr>recv_ts := now\<rparr> # ingested ops"
| "ingested (Consume # ops) = ingested ops"

lemma run_plant_queue:
  "run_plant ops tp = (oks, outs, tp') \<Longrightarrow>
   run_queue try_push try_pop (stamped (seq_counter tp) ops) (queue tp) = (oks, outs, queue tp')"
proof (induction ops arbitrary: tp oks outs tp')
  case (Cons p ops)
  then show ?case
    by (cases p) (fastforce simp: ingest_def consume_def Let_def split: prod.splits)+
qed simp

lemma pushes_stamped:
  "pushes (stamped n ops) =
     map2 (\<lambda>i m. m\<lparr>seq_num := n + of_nat i\<rparr>) [0..<length (ingested ops)] (ingested ops)"
proof (induction n ops rule: stamped.induct)
  case (2 n now msg ops)
  have "map2 (\<lambda>i m. m\<lparr>seq_num := n + of_nat i\<rparr>) [1..<Suc (length (ingested ops))] (ingested ops) =
    map2 (\<lambda>i m. m\<lparr>seq_num := n + 1 + of_nat i\<rparr>) [0..<length (ingested ops)] (ingested ops)"
    unfolding One_nat_def map_Suc_upt [symmetric] by (simp add: zip_map1 add_ac comp_def case_prod_beta)
  with 2 show ?case by (simp add: upt_conv_Cons del: upt_Suc)
qed simp_all

lemma fifo_ring_new: "ring_new d cap = Inr r \<Longrightarrow> fifo_ok r \<and> fifo_abs r = []"
proof -
  assume r: "ring_new d cap = Inr r"
  then have s: "slots r = replicate (unat cap) \<lparr>state = EMPTY, sdata = d\<rparr>" "write_pos r = 0" "read_pos r = 0"
    by (auto simp: ring_new_def split: if_splits)
  then have "ring_len r = 0" by (simp add: ring_len_def)
  with ring_new_wf [OF r] s show ?thesis by (auto simp: fifo_ok_def fifo_abs_def pos_idx_def)
qed

section \<open>Properties\<close>

text \<open>
  C6. Safety of the lock-free ring under every interleaving. From a new ring, after any interleaving of the
  atomic steps of any number of producers and consumers: the accepted items are exactly the returned ones
  together with those still held (nothing is lost, duplicated or invented), no two producers are inside the
  same slot, no two consumers are, and no producer is inside a slot a consumer is reading.
\<close>

theorem ring_interleaving_safe:
  assumes "ring_new d cap = Inr r" "rstep\<^sup>*\<^sup>* (sys_init r) s"
  shows "accepted s = returned s + content (shared s) \<and>
    (\<forall>t u i. writes (pcs s t) = Some i \<longrightarrow> writes (pcs s u) = Some i \<longrightarrow> t = u) \<and>
    (\<forall>t u i. reads (pcs s t) = Some i \<longrightarrow> reads (pcs s u) = Some i \<longrightarrow> t = u) \<and>
    (\<forall>t u i. writes (pcs s t) = Some i \<longrightarrow> reads (pcs s u) \<noteq> Some i)"
proof -
  have inv: "sys_inv s" by (rule sys_inv_reachable [OF assms])
  have own: "owner_ok s i" if "writes (pcs s t) = Some i \<or> reads (pcs s t) = Some i" for t i
    using inv owns_idx [OF that] unfolding sys_inv_def by blast
  show ?thesis
  proof (intro conjI allI impI)
    show "accepted s = returned s + content (shared s)" using inv by (simp add: sys_inv_def)
    show "t = u" if "writes (pcs s t) = Some i" "writes (pcs s u) = Some i" for t u i
      using own [of t i] that unfolding owner_ok_def by blast
    show "t = u" if "reads (pcs s t) = Some i" "reads (pcs s u) = Some i" for t u i
      using own [of t i] that unfolding owner_ok_def by blast
    show "reads (pcs s u) \<noteq> Some i" if "writes (pcs s t) = Some i" for t u i
      using own [of t i] that unfolding owner_ok_def by (metis SlotState.distinct(9))
  qed
qed

definition ring_demo :: "nat ring" where
  "ring_demo = \<lparr>capacity = 2, rmask = 1, write_pos = 0, read_pos = 0,
     slots = [\<lparr>state = EMPTY, sdata = 0\<rparr>, \<lparr>state = EMPTY, sdata = 0\<rparr>]\<rparr>"

lemma ring_demo_new: "ring_new (0 :: nat) 2 = Inr ring_demo"
  unfolding ring_demo_def by code_simp

lemma ring_demo_reach:
  "\<exists>s. rstep\<^sup>*\<^sup>* (sys_init ring_demo) s \<and> writes (pcs s True) = Some 0 \<and> writes (pcs s False) = Some 1"
proof -
  let ?s0 = "sys_init ring_demo :: (bool, nat) sys"
  let ?r1 = "ring_demo\<lparr>write_pos := 1\<rparr>" and ?r2 = "ring_demo\<lparr>write_pos := 2\<rparr>"
  let ?s1 = "goto True (PushCas 0 7) (?s0\<lparr>shared := ?r1\<rparr>)"
  let ?s2 = "goto False (PushCas 1 8) (?s1\<lparr>shared := ?r2\<rparr>)"
  let ?r3 = "store_state 0 WRITING ?r2" and ?r4 = "store_state 1 WRITING (store_state 0 WRITING ?r2)"
  let ?s3 = "goto True (PushWrite 0 7) (?s2\<lparr>shared := ?r3\<rparr>)"
  let ?s4 = "goto False (PushWrite 1 8) (?s3\<lparr>shared := ?r4\<rparr>)"
  have i: "slot_idx ?r1 0 = 0" "slot_idx ?r2 1 = 1" by code_simp+
  have "rstep ?s0 ?s1"
    using push_begin [of ?s0 True 0 ?r1 7] i by (simp add: sys_init_def fetch_add_write_def ring_demo_def)
  moreover have "rstep ?s1 ?s2"
    using push_begin [of ?s1 False 1 ?r2 8] i
    by (simp add: sys_init_def goto_def fetch_add_write_def ring_demo_def)
  moreover have "rstep ?s2 ?s3"
    by (rule push_claim) (simp_all add: goto_def cas_state_def ring_demo_def)
  moreover have "rstep ?s3 ?s4"
    by (rule push_claim) (simp_all add: goto_def cas_state_def store_state_def ring_demo_def)
  ultimately have "rstep\<^sup>*\<^sup>* ?s0 ?s4" by (meson rtranclp.rtrancl_into_rtrancl rtranclp.rtrancl_refl)
  moreover have "writes (pcs ?s4 True) = Some 0" "writes (pcs ?s4 False) = Some 1" by (simp_all add: goto_def)
  ultimately show ?thesis by blast
qed

theorem ring_interleaving_safe_witness:
  "\<exists>s. rstep\<^sup>*\<^sup>* (sys_init ring_demo :: (bool, nat) sys) s \<and> writes (pcs s True) = Some 0 \<and>
     accepted s = returned s + content (shared s) \<and> reads (pcs s False) \<noteq> Some 0"
  using ring_demo_reach ring_interleaving_safe [OF ring_demo_new] by blast

text \<open>
  C7. First in, first out. On a tick plant built with a valid capacity, in every session in which no message
  is dropped, the consumed messages followed by the queued ones are exactly the ingested messages in their
  order, each stamped with its receive time and with the sequence numbers 0, 1, 2, ...
\<close>

theorem tick_plant_fifo:
  assumes "TickPlant d cap = Inr tp" "run_plant ops tp = (oks, outs, tp')" "\<forall>ok \<in> set oks. ok"
  shows "outs @ fifo_abs (queue tp') =
    map2 (\<lambda>i m. m\<lparr>seq_num := of_nat i\<rparr>) [0..<length (ingested ops)] (ingested ops)"
proof -
  obtain q where q: "ring_new d cap = Inr q" "tp = \<lparr>queue = q, seq_counter = 0\<rparr>"
    using assms(1) by (cases "ring_new d cap") (auto simp: TickPlant_def)
  note new = fifo_ring_new [OF q(1)]
  have "run_queue try_push try_pop (stamped 0 ops) q = (oks, outs, queue tp')"
    using run_plant_queue [OF assms(2)] q(2) by simp
  from rq.run_in_order [OF conjunct1 [OF new] this assms(3)] new show ?thesis
    by (simp add: pushes_stamped)
qed

definition tick_demo :: "i64 \<Rightarrow> TickMessage" where
  "tick_demo v = \<lparr>seq_num = 0, recv_ts = 0, symbol_id = 1, price = 100, volume = v, msg_type = 0,
     price_is_float = 0, table_id = 0\<rparr>"

definition plant_demo :: tick_plant where
  "plant_demo = projr (TickPlant (tick_demo 0) 2)"

definition ops_demo :: "plant_op list" where
  "ops_demo = [Ingest 10 (tick_demo 1), Ingest 20 (tick_demo 2), Consume, Ingest 30 (tick_demo 3), Consume]"

theorem tick_plant_fifo_witness:
  "fst (snd (run_plant ops_demo plant_demo)) @ fifo_abs (queue (snd (snd (run_plant ops_demo plant_demo)))) =
   [(tick_demo 1)\<lparr>recv_ts := 10\<rparr>, (tick_demo 2)\<lparr>seq_num := 1, recv_ts := 20\<rparr>,
    (tick_demo 3)\<lparr>seq_num := 2, recv_ts := 30\<rparr>]"
proof -
  have new: "TickPlant (tick_demo 0) 2 = Inr plant_demo" unfolding plant_demo_def by code_simp
  have oks: "fst (run_plant ops_demo plant_demo) = [True, True, True]" by code_simp
  have spec: "map2 (\<lambda>i m. m\<lparr>seq_num := of_nat i\<rparr>) [0..<length (ingested ops_demo)] (ingested ops_demo) =
    [(tick_demo 1)\<lparr>recv_ts := 10\<rparr>, (tick_demo 2)\<lparr>seq_num := 1, recv_ts := 20\<rparr>,
     (tick_demo 3)\<lparr>seq_num := 2, recv_ts := 30\<rparr>]" by code_simp
  have run: "run_plant ops_demo plant_demo = ([True, True, True], snd (run_plant ops_demo plant_demo))"
    by (metis oks prod.collapse)
  from tick_plant_fifo [OF new, of ops_demo "[True, True, True]"
      "fst (snd (run_plant ops_demo plant_demo))" "snd (snd (run_plant ops_demo plant_demo))"]
  show ?thesis unfolding spec using run by simp
qed




end
