(* ===== verification/Std_Map.thy ===== *)
theory Std_Map
  imports Zepto_Prelude "HOL-Library.AList"
begin

text \<open>
  The containers of the C++ standard library the cluster and security components keep their state in.
  A \<^verbatim>\<open>std::map\<close> is its sequence of entries in ascending key order, so that its iterators are positions;
  a \<^verbatim>\<open>std::unordered_map\<close> is an association list with one entry per key, whose order no definition
  depends on.
\<close>

section \<open>Ordered maps\<close>

type_synonym ('k, 'v) omap = "('k \<times> 'v) list"

definition omap_ok :: "('k::linorder, 'v) omap \<Rightarrow> bool" where
  "omap_ok m \<longleftrightarrow> sorted_wrt (<) (map fst m)"

definition omap_put :: "'k::linorder \<Rightarrow> 'v \<Rightarrow> ('k, 'v) omap \<Rightarrow> ('k, 'v) omap" where
  "omap_put k v m = filter (\<lambda>p. fst p < k) m @ (k, v) # filter (\<lambda>p. k < fst p) m"

definition omap_erase :: "'k \<Rightarrow> ('k, 'v) omap \<Rightarrow> ('k, 'v) omap" where
  "omap_erase k m = filter (\<lambda>p. fst p \<noteq> k) m"

text \<open>\<^verbatim>\<open>lower_bound\<close>: the position of the first entry whose key is not below \<open>k\<close>, the end if there is none.\<close>

definition omap_lower_bound :: "'k::linorder \<Rightarrow> ('k, 'v) omap \<Rightarrow> nat" where
  "omap_lower_bound k m = length (takeWhile (\<lambda>p. fst p < k) m)"

lemma omap_ok_Nil [simp]: "omap_ok []"
  by (simp add: omap_ok_def)

lemma omap_ok_filter: "omap_ok m \<Longrightarrow> omap_ok (filter P m)"
  by (induction m) (auto simp: omap_ok_def)

lemma omap_ok_put [simp]: "omap_ok m \<Longrightarrow> omap_ok (omap_put k v m)"
  using omap_ok_filter [of m "\<lambda>p. fst p < k"] omap_ok_filter [of m "\<lambda>p. k < fst p"]
  by (auto simp: omap_ok_def omap_put_def sorted_wrt_append intro: less_trans)

lemma omap_ok_erase [simp]: "omap_ok m \<Longrightarrow> omap_ok (omap_erase k m)"
  by (simp add: omap_erase_def omap_ok_filter)

lemma omap_distinct: "omap_ok m \<Longrightarrow> distinct (map fst m)"
  by (simp add: omap_ok_def strict_sorted_iff)

lemma set_omap_put: "set (omap_put k v m) = insert (k, v) {p \<in> set m. fst p \<noteq> k}"
  by (auto simp: omap_put_def)

lemma map_of_omap_put [simp]: "omap_ok m \<Longrightarrow> map_of (omap_put k v m) = (map_of m)(k \<mapsto> v)"
proof (rule ext)
  fix j assume m: "omap_ok m"
  have "map_of (omap_put k v m) j = Some w \<longleftrightarrow> ((map_of m)(k \<mapsto> v)) j = Some w" for w
    using omap_distinct [OF m] omap_distinct [OF omap_ok_put [OF m], of k v]
    by (auto simp: map_of_eq_Some_iff set_omap_put split: if_splits)
  then show "map_of (omap_put k v m) j = ((map_of m)(k \<mapsto> v)) j" by (metis option.exhaust)
qed

lemma map_of_omap_erase [simp]: "map_of (omap_erase k m) = (map_of m)(k := None)"
  by (induction m) (auto simp: omap_erase_def)

text \<open>Two ordered maps with the same entries are the same sequence.\<close>

lemma omap_eqI:
  assumes "omap_ok m" "omap_ok m'" "set m = set m'"
  shows "m = m'"
proof (rule map_sorted_distinct_set_unique)
  show "inj_on fst (set m \<union> set m')"
    using omap_distinct [OF assms(1)] assms(3) by (simp add: distinct_map)
qed (use assms omap_distinct in \<open>auto simp: omap_ok_def strict_sorted_iff\<close>)

lemma takeWhile_sorted_filter:
  "sorted_wrt (\<lambda>a b. P b \<longrightarrow> P a) xs \<Longrightarrow> takeWhile P xs = filter P xs"
proof (induction xs)
  case (Cons x xs)
  then have "\<not> P x \<Longrightarrow> filter P xs = []" by (auto simp: filter_empty_conv)
  with Cons show ?case by simp
qed simp

lemma omap_lower_bound_split:
  assumes "omap_ok m"
  shows "take (omap_lower_bound k m) m = filter (\<lambda>p. fst p < k) m"
    and "drop (omap_lower_bound k m) m = filter (\<lambda>p. k \<le> fst p) m"
proof -
  have sorted: "sorted_wrt (\<lambda>a b. fst b < k \<longrightarrow> fst a < k) m"
    using assms unfolding omap_ok_def sorted_wrt_map
    by (rule sorted_wrt_mono_rel [rotated]) auto
  then have d: "dropWhile (\<lambda>p. fst p < k) m = filter (\<lambda>p. \<not> fst p < k) m"
    by (rule dropWhile_eq_filter)
  then show "drop (omap_lower_bound k m) m = filter (\<lambda>p. k \<le> fst p) m"
    unfolding omap_lower_bound_def dropWhile_eq_drop by (simp only: not_less)
  from sorted have "takeWhile (\<lambda>p. fst p < k) m = filter (\<lambda>p. fst p < k) m"
    by (rule takeWhile_sorted_filter)
  then show "take (omap_lower_bound k m) m = filter (\<lambda>p. fst p < k) m"
    unfolding omap_lower_bound_def by (metis takeWhile_eq_take)
qed

section \<open>Unordered maps\<close>

type_synonym ('k, 'v) umap = "('k \<times> 'v) list"

definition umap_ok :: "('k, 'v) umap \<Rightarrow> bool" where
  "umap_ok m \<longleftrightarrow> distinct (map fst m)"

abbreviation umap_put :: "'k \<Rightarrow> 'v \<Rightarrow> ('k, 'v) umap \<Rightarrow> ('k, 'v) umap" where
  "umap_put \<equiv> AList.update"

abbreviation umap_erase :: "'k \<Rightarrow> ('k, 'v) umap \<Rightarrow> ('k, 'v) umap" where
  "umap_erase \<equiv> AList.delete"

lemma umap_ok_Nil [simp]: "umap_ok []"
  by (simp add: umap_ok_def)

lemma umap_ok_put [simp]: "umap_ok m \<Longrightarrow> umap_ok (umap_put k v m)"
  by (simp add: umap_ok_def distinct_update)

lemma umap_ok_erase [simp]: "umap_ok m \<Longrightarrow> umap_ok (umap_erase k m)"
  by (simp add: umap_ok_def distinct_delete)

lemma map_of_umap_put [simp]: "map_of (umap_put k v m) = (map_of m)(k \<mapsto> v)"
  by (simp add: update_conv')

lemma map_of_umap_erase [simp]: "map_of (umap_erase k m) = (map_of m)(k := None)"
  by (simp add: delete_conv')

lemma length_umap_put: "length (umap_put k v m) = (if k \<in> fst ` set m then length m else Suc (length m))"
  by (induction m) auto

lemma length_umap_erase: "length (umap_erase k m) \<le> length m"
  by (simp add: AList.delete_eq)

end
