(* ===== verification/Partition_Router.thy ===== *)
theory Partition_Router
  imports Std_Map
begin

text \<open>
  Consistent-hash routing, \<^verbatim>\<open>src/include/zeptodb/cluster/partition_router.h\<close>: the hash ring with 128
  virtual nodes per physical node, the routing cache, pins, table placements, the migration states and the
  migration plans.

  Each method runs as one step (the locks make its critical sections atomic; \<open>route\<close> has several, and the
  last section takes it apart). The clock is an argument, in nanoseconds.
\<close>

unbundle bit_operations_syntax

section \<open>State\<close>

definition INVALID_NODE_ID :: NodeId where
  "INVALID_NODE_ID = 0xFFFFFFFF"

datatype TablePlacementPolicy = HashByTableAndSymbol | HashByTable | PinnedNode

record TablePlacement =
  placement_policy :: TablePlacementPolicy
  placement_node :: NodeId

record PartitionRouter =
  hring :: "(u64, NodeId) omap"
  node_set :: "NodeId set"
  route_cache :: "(SymbolId, NodeId) umap"
  pinned :: "(SymbolId, NodeId) umap"
  table_placements :: "(u16, TablePlacement) umap"
  migrating :: "(SymbolId, NodeId \<times> NodeId) umap"
  recently :: "(SymbolId, (NodeId \<times> NodeId) \<times> int) umap"
  grace_period :: int

definition MAX_CACHE_SIZE :: nat where
  "MAX_CACHE_SIZE = 65536"

definition VNODES_PER_NODE :: nat where
  "VNODES_PER_NODE = 128"

definition router_new :: PartitionRouter where
  "router_new = \<lparr>hring = [], node_set = {}, route_cache = [], pinned = [], table_placements = [],
     migrating = [], recently = [], grace_period = 30\<rparr>"

definition router_copy :: "PartitionRouter \<Rightarrow> PartitionRouter" where
  "router_copy other = router_new\<lparr>hring := hring other, node_set := node_set other,
     pinned := pinned other, table_placements := table_placements other\<rparr>"

text \<open>
  Assignment keeps the target's own migration states. \<^verbatim>\<open>this != &other\<close> is the second argument: assigning a
  router to itself changes nothing.
\<close>

definition router_assign :: "PartitionRouter \<Rightarrow> bool \<Rightarrow> PartitionRouter \<Rightarrow> PartitionRouter" where
  "router_assign this same other =
     (if same then this
      else this\<lparr>hring := hring other, node_set := node_set other, pinned := pinned other,
             table_placements := table_placements other, route_cache := []\<rparr>)"

text \<open>A call throws, runs into undefined behaviour, or returns.\<close>

datatype route_error = Thrown string | Undefined

section \<open>Hashes\<close>

definition fnv_step :: "u64 \<Rightarrow> 8 word \<Rightarrow> u64" where
  "fnv_step h b = (h XOR ucast b) * 1099511628211"

definition sym_bytes :: "SymbolId \<Rightarrow> 8 word list" where
  "sym_bytes symbol = map (\<lambda>i. ucast (drop_bit (8 * i) symbol)) [0, 1, 2, 3]"

definition symbol_hash :: "SymbolId \<Rightarrow> u64" where
  "symbol_hash symbol = fold (\<lambda>b h. fnv_step h b) (sym_bytes symbol) 14695981039346656037"

definition vnode_key :: "NodeId \<Rightarrow> u64 \<Rightarrow> u64" where
  "vnode_key node idx = push_bit 32 (ucast node) OR (idx AND 0xFFFFFFFF)"

definition splitmix64 :: "u64 \<Rightarrow> u64" where
  "splitmix64 key =
     (let key = key + 0x9e3779b97f4a7c15;
          key = (key XOR drop_bit 30 key) * 0xbf58476d1ce4e5b9;
          key = (key XOR drop_bit 27 key) * 0x94d049bb133111eb
      in key XOR drop_bit 31 key)"

definition vnode_hash :: "NodeId \<Rightarrow> nat \<Rightarrow> u64" where
  "vnode_hash node idx = splitmix64 (vnode_key node (of_nat idx))"

definition vnode_hashes :: "NodeId \<Rightarrow> u64 list" where
  "vnode_hashes node = map (vnode_hash node) [0..<VNODES_PER_NODE]"

section \<open>Nodes and routing\<close>

definition add_node :: "NodeId \<Rightarrow> PartitionRouter \<Rightarrow> PartitionRouter" where
  "add_node node r =
     (if node \<in> node_set r then r
      else r\<lparr>node_set := insert node (node_set r),
             hring := fold (\<lambda>h ring. omap_put h node ring) (vnode_hashes node) (hring r),
             route_cache := []\<rparr>)"

definition remove_node :: "NodeId \<Rightarrow> PartitionRouter \<Rightarrow> PartitionRouter" where
  "remove_node node r =
     (if node \<notin> node_set r then r
      else r\<lparr>node_set := node_set r - {node},
             hring := fold omap_erase (vnode_hashes node) (hring r),
             route_cache := []\<rparr>)"

definition node_count :: "PartitionRouter \<Rightarrow> nat" where
  "node_count r = card (node_set r)"

definition all_nodes :: "PartitionRouter \<Rightarrow> NodeId list" where
  "all_nodes r = sorted_list_of_set (node_set r)"

text \<open>The position \<open>lower_bound\<close> finds, wrapped to the front at the end of the ring.\<close>

definition ring_pos :: "(u64, NodeId) omap \<Rightarrow> u64 \<Rightarrow> nat" where
  "ring_pos ring h = (let it = omap_lower_bound h ring in if it = length ring then 0 else it)"

definition find_node :: "(u64, NodeId) omap \<Rightarrow> u64 \<Rightarrow> NodeId option" where
  "find_node ring h = (if ring = [] then None else Some (snd (ring ! ring_pos ring h)))"

definition cache_store :: "SymbolId \<Rightarrow> NodeId \<Rightarrow> PartitionRouter \<Rightarrow> PartitionRouter" where
  "cache_store symbol n r =
     (if length (route_cache r) < MAX_CACHE_SIZE then r\<lparr>route_cache := umap_put symbol n (route_cache r)\<rparr> else r)"

definition route :: "SymbolId \<Rightarrow> PartitionRouter \<Rightarrow> (route_error + NodeId) \<times> PartitionRouter" where
  "route symbol r =
     (case map_of (pinned r) symbol of
        Some n \<Rightarrow> (Inr n, r)
      | None \<Rightarrow>
          if hring r = [] then (Inl (Thrown ''PartitionRouter: no nodes in cluster''), r)
          else case map_of (route_cache r) symbol of
            Some n \<Rightarrow> (Inr n, r)
          | None \<Rightarrow>
              (case find_node (hring r) (symbol_hash symbol) of
                 None \<Rightarrow> (Inl Undefined, r)
               | Some n \<Rightarrow> (Inr n, cache_store symbol n r)))"

definition table_route_key :: "u16 \<Rightarrow> SymbolId \<Rightarrow> SymbolId" where
  "table_route_key table_id symbol = symbol XOR ucast (push_bit 16 (ucast table_id :: u64))"

definition table_placement :: "u16 \<Rightarrow> PartitionRouter \<Rightarrow> TablePlacement option" where
  "table_placement table_id r = map_of (table_placements r) table_id"

definition route_table :: "u16 \<Rightarrow> SymbolId \<Rightarrow> PartitionRouter \<Rightarrow> (route_error + NodeId) \<times> PartitionRouter" where
  "route_table table_id symbol r =
     (case (if table_id \<noteq> 0 then table_placement table_id r else None) of
        None \<Rightarrow> route (table_route_key table_id symbol) r
      | Some p \<Rightarrow>
          (case placement_policy p of
             PinnedNode \<Rightarrow>
               if placement_node p = INVALID_NODE_ID
               then (Inl (Thrown ''PartitionRouter: pinned table placement has no node''), r)
               else (Inr (placement_node p), r)
           | HashByTable \<Rightarrow> route (table_route_key table_id 0) r
           | HashByTableAndSymbol \<Rightarrow> route (table_route_key table_id symbol) r))"

definition set_table_placement ::
  "u16 \<Rightarrow> TablePlacementPolicy \<Rightarrow> NodeId \<Rightarrow> PartitionRouter \<Rightarrow> route_error + PartitionRouter" where
  "set_table_placement table_id policy node_id r =
     (if table_id = 0 then Inl (Thrown ''PartitionRouter: table placement requires non-zero table_id'')
      else if policy = PinnedNode \<and> node_id = INVALID_NODE_ID
      then Inl (Thrown ''PartitionRouter: pinned table placement requires node_id'')
      else Inr (r\<lparr>table_placements :=
             umap_put table_id \<lparr>placement_policy = policy, placement_node = node_id\<rparr> (table_placements r),
             route_cache := []\<rparr>))"

definition clear_table_placement :: "u16 \<Rightarrow> PartitionRouter \<Rightarrow> PartitionRouter" where
  "clear_table_placement table_id r =
     r\<lparr>table_placements := umap_erase table_id (table_placements r), route_cache := []\<rparr>"

section \<open>Pins and migrations\<close>

definition pin_symbol :: "SymbolId \<Rightarrow> NodeId \<Rightarrow> PartitionRouter \<Rightarrow> PartitionRouter" where
  "pin_symbol symbol node r =
     r\<lparr>pinned := umap_put symbol node (pinned r), route_cache := umap_erase symbol (route_cache r)\<rparr>"

definition unpin_symbol :: "SymbolId \<Rightarrow> PartitionRouter \<Rightarrow> PartitionRouter" where
  "unpin_symbol symbol r =
     r\<lparr>pinned := umap_erase symbol (pinned r), route_cache := umap_erase symbol (route_cache r)\<rparr>"

definition begin_migration :: "SymbolId \<Rightarrow> NodeId \<Rightarrow> NodeId \<Rightarrow> PartitionRouter \<Rightarrow> PartitionRouter" where
  "begin_migration symbol from to r = r\<lparr>migrating := umap_put symbol (from, to) (migrating r)\<rparr>"

definition end_migration :: "int \<Rightarrow> SymbolId \<Rightarrow> PartitionRouter \<Rightarrow> PartitionRouter" where
  "end_migration now symbol r =
     (case map_of (migrating r) symbol of
        None \<Rightarrow> r
      | Some ft \<Rightarrow> r\<lparr>recently := umap_put symbol (ft, now) (recently r),
                     migrating := umap_erase symbol (migrating r)\<rparr>)"

definition commit_migration :: "SymbolId \<Rightarrow> NodeId \<Rightarrow> PartitionRouter \<Rightarrow> PartitionRouter" where
  "commit_migration symbol owner r =
     r\<lparr>pinned := umap_put symbol owner (pinned r), migrating := umap_erase symbol (migrating r),
        recently := umap_erase symbol (recently r), route_cache := umap_erase symbol (route_cache r)\<rparr>"

definition abort_migration :: "SymbolId \<Rightarrow> PartitionRouter \<Rightarrow> PartitionRouter" where
  "abort_migration symbol r = r\<lparr>migrating := umap_erase symbol (migrating r)\<rparr>"

definition migration_target :: "SymbolId \<Rightarrow> PartitionRouter \<Rightarrow> (NodeId \<times> NodeId) option" where
  "migration_target symbol r = map_of (migrating r) symbol"

definition recently_migrated ::
  "int \<Rightarrow> SymbolId \<Rightarrow> PartitionRouter \<Rightarrow> (NodeId \<times> NodeId) option \<times> PartitionRouter" where
  "recently_migrated now symbol r =
     (case map_of (recently r) symbol of
        None \<Rightarrow> (None, r)
      | Some (ft, ended) \<Rightarrow>
          if now - ended > grace_period r * 1000000000
          then (None, r\<lparr>recently := umap_erase symbol (recently r)\<rparr>)
          else (Some ft, r))"

definition set_migration_grace_period :: "int \<Rightarrow> PartitionRouter \<Rightarrow> PartitionRouter" where
  "set_migration_grace_period sec r = r\<lparr>grace_period := sec\<rparr>"

section \<open>Replicas and migration plans\<close>

text \<open>The walk of \<open>route_replica\<close>: at most \<open>k\<close> steps, each to the next entry of the ring.\<close>

fun replica_walk :: "(u64, NodeId) omap \<Rightarrow> NodeId \<Rightarrow> nat \<Rightarrow> nat \<Rightarrow> NodeId" where
  "replica_walk ring primary 0 it = INVALID_NODE_ID"
| "replica_walk ring primary (Suc k) it =
     (let it = (if Suc it = length ring then 0 else Suc it)
      in if snd (ring ! it) \<noteq> primary then snd (ring ! it) else replica_walk ring primary k it)"

definition route_replica :: "SymbolId \<Rightarrow> PartitionRouter \<Rightarrow> route_error + NodeId" where
  "route_replica symbol r =
     (if card (node_set r) < 2 then Inr INVALID_NODE_ID
      else let h = symbol_hash symbol
           in case find_node (hring r) h of
                None \<Rightarrow> Inl Undefined
              | Some primary \<Rightarrow> Inr (replica_walk (hring r) primary (length (hring r)) (ring_pos (hring r) h)))"

definition route_replica_table :: "u16 \<Rightarrow> SymbolId \<Rightarrow> PartitionRouter \<Rightarrow> route_error + NodeId" where
  "route_replica_table table_id symbol r =
     (case (if table_id \<noteq> 0 then table_placement table_id r else None) of
        None \<Rightarrow> route_replica (table_route_key table_id symbol) r
      | Some p \<Rightarrow>
          (case placement_policy p of
             PinnedNode \<Rightarrow>
               if placement_node p = INVALID_NODE_ID
               then Inl (Thrown ''PartitionRouter: pinned table placement has no node'')
               else Inr (placement_node p)
           | HashByTable \<Rightarrow> route_replica (table_route_key table_id 0) r
           | HashByTableAndSymbol \<Rightarrow> route_replica (table_route_key table_id symbol) r))"

record Move =
  move_symbol :: SymbolId
  move_from :: NodeId
  move_to :: NodeId

fun dedup_from :: "(NodeId \<times> NodeId) set \<Rightarrow> Move list \<Rightarrow> Move list" where
  "dedup_from seen [] = []"
| "dedup_from seen (m # ms) =
     (let key = (move_from m, move_to m)
      in if key \<notin> seen then m # dedup_from (insert key seen) ms else dedup_from seen ms)"

definition deduplicate_moves :: "Move list \<Rightarrow> Move list" where
  "deduplicate_moves moves = dedup_from {} moves"

text \<open>The plan for a joining node. The copy of the router the code also builds there is not used by it.\<close>

definition plan_add :: "NodeId \<Rightarrow> PartitionRouter \<Rightarrow> Move list" where
  "plan_add new_node r =
     (if new_node \<in> node_set r then []
      else deduplicate_moves (concat (map (\<lambda>h.
             case find_node (hring r) h of
               None \<Rightarrow> []
             | Some old_owner \<Rightarrow>
                 if old_owner \<noteq> new_node
                 then [\<lparr>move_symbol = ucast (h AND 0xFFFFFFFF), move_from = old_owner, move_to = new_node\<rparr>]
                 else []) (vnode_hashes new_node))))"

definition plan_remove :: "NodeId \<Rightarrow> PartitionRouter \<Rightarrow> Move list option" where
  "plan_remove leaving r =
     (if leaving \<notin> node_set r \<or> card (node_set r) \<le> 1 then Some []
      else let temp = remove_node leaving (router_copy r)
           in map_option deduplicate_moves (those (map (\<lambda>h.
                map_option (\<lambda>new_owner.
                    \<lparr>move_symbol = ucast (h AND 0xFFFFFFFF), move_from = leaving, move_to = new_owner\<rparr>)
                  (find_node (hring temp) h)) (vnode_hashes leaving))))"

section \<open>Virtual nodes never collide\<close>

lemma xorshift_inj:
  fixes x y :: u64
  assumes "x XOR drop_bit k x = y XOR drop_bit k y" "0 < k"
  shows "x = y"
proof (rule bit_word_eqI)
  fix n :: nat
  have step: "bit x n = (bit x (n + k) \<noteq> bit (x XOR drop_bit k x) n)" for x :: u64 and n
    by (auto simp: bit_simps add.commute)
  show "bit x n = bit y n"
  proof (induction "64 - n" arbitrary: n rule: less_induct)
    case less
    show ?case
    proof (cases "n < 64")
      case True
      then have "bit x (n + k) = bit y (n + k)" using assms(2) by (intro less) simp
      then show ?thesis using step [of x n] step [of y n] assms(1) by simp
    next
      case False
      then show ?thesis using bit_imp_le_length [of x n] bit_imp_le_length [of y n] by auto
    qed
  qed
qed

lemma mult_unit_inj:
  fixes x y c :: "'a::comm_ring_1"
  assumes "x * c = y * c" "c * d = 1"
  shows "x = y"
  by (metis assms mult.assoc mult.right_neutral)

lemma splitmix64_inj:
  assumes "splitmix64 x = splitmix64 y"
  shows "x = y"
proof -
  define a where "a z = z + (0x9e3779b97f4a7c15 :: u64)" for z
  define b where "b z = (a z XOR drop_bit 30 (a z)) * 0xbf58476d1ce4e5b9" for z
  define c where "c z = (b z XOR drop_bit 27 (b z)) * 0x94d049bb133111eb" for z
  have "splitmix64 z = c z XOR drop_bit 31 (c z)" for z
    by (simp only: splitmix64_def Let_def a_def b_def c_def)
  then have "c x = c y" using xorshift_inj [of "c x" 31 "c y"] assms by simp
  moreover have "(0x94d049bb133111eb :: u64) * 3573116690164977347 = 1" by simp
  ultimately have "b x XOR drop_bit 27 (b x) = b y XOR drop_bit 27 (b y)"
    unfolding c_def by (rule mult_unit_inj)
  then have "b x = b y" by (rule xorshift_inj) simp
  moreover have "(0xbf58476d1ce4e5b9 :: u64) * 10871156337175269513 = 1" by simp
  ultimately have "a x XOR drop_bit 30 (a x) = a y XOR drop_bit 30 (a y)"
    unfolding b_def by (rule mult_unit_inj)
  then have "a x = a y" by (rule xorshift_inj) simp
  then show ?thesis by (simp add: a_def)
qed

lemma vnode_key_inj:
  assumes "vnode_key n (of_nat i) = vnode_key m (of_nat j)" "i < 2 ^ 32" "j < 2 ^ 32"
  shows "n = m \<and> i = j"
proof -
  have low: "(of_nat k :: u64) AND 0xFFFFFFFF = of_nat k" if "k < 2 ^ 32" for k
  proof -
    have "(of_nat k :: u64) AND mask 32 = of_nat k"
      using that by (metis take_bit_eq_mask take_bit_nat_eq_self take_bit_of_nat)
    moreover have "(mask 32 :: u64) = 0xFFFFFFFF" by (simp add: mask_eq_exp_minus_1)
    ultimately show ?thesis by simp
  qed
  have hi: "\<not> bit (of_nat k :: u64) p" if "k < 2 ^ 32" "32 \<le> p" for k p
    using that by (metis bit_take_bit_iff not_le take_bit_nat_eq_self take_bit_of_nat)
  have key: "bit (vnode_key n (of_nat k)) p \<longleftrightarrow>
      (if p < 32 then bit (of_nat k :: u64) p else p < 64 \<and> bit n (p - 32))" if "k < 2 ^ 32" for n k p
    using hi [OF that] by (auto simp: vnode_key_def low [OF that] bit_simps)
  have "n = m"
  proof (rule bit_word_eqI)
    fix p assume "p < LENGTH(32)"
    then show "bit n p = bit m p"
      using key [OF assms(2), of n "p + 32"] key [OF assms(3), of m "p + 32"] assms(1) by simp
  qed
  moreover have "(of_nat i :: u64) = of_nat j"
  proof (rule bit_word_eqI)
    fix p assume "p < LENGTH(64)"
    show "bit (of_nat i :: u64) p = bit (of_nat j :: u64) p"
      using key [OF assms(2), of n p] key [OF assms(3), of m p] assms(1) hi [OF assms(2), of p] hi [OF assms(3), of p]
      by (cases "p < 32") auto
  qed
  then have "i = j" using assms(2,3) by (simp add: word_of_nat_eq_iff take_bit_nat_eq_self)
  ultimately show ?thesis by blast
qed

lemma vnode_hash_inj:
  assumes "vnode_hash n i = vnode_hash m j" "i < 2 ^ 32" "j < 2 ^ 32"
  shows "n = m \<and> i = j"
  using assms vnode_key_inj splitmix64_inj unfolding vnode_hash_def by blast

section \<open>The ring\<close>

text \<open>The ring holds exactly the virtual nodes of the member nodes.\<close>

definition ring_ok :: "PartitionRouter \<Rightarrow> bool" where
  "ring_ok r \<longleftrightarrow> finite (node_set r) \<and> omap_ok (hring r) \<and>
     set (hring r) = {(vnode_hash n i, n) | n i. n \<in> node_set r \<and> i < VNODES_PER_NODE}"

lemma vnodes_bound: "i < VNODES_PER_NODE \<Longrightarrow> i < 2 ^ 32"
  by (simp add: VNODES_PER_NODE_def)

lemma vnode_hashes_owner:
  "i < VNODES_PER_NODE \<Longrightarrow> vnode_hash m i \<in> set (vnode_hashes n) \<longleftrightarrow> m = n"
  using vnode_hash_inj vnodes_bound by (fastforce simp: vnode_hashes_def)

lemma fold_put_set:
  "set (fold (\<lambda>h ring. omap_put h n ring) hs ring) = {p \<in> set ring. fst p \<notin> set hs} \<union> (\<lambda>h. (h, n)) ` set hs"
  by (induction hs arbitrary: ring) (auto simp: set_omap_put)

lemma fold_put_ok: "omap_ok ring \<Longrightarrow> omap_ok (fold (\<lambda>h ring. omap_put h n ring) hs ring)"
  by (induction hs arbitrary: ring) auto

lemma fold_erase: "fold omap_erase hs ring = filter (\<lambda>p. fst p \<notin> set hs) ring"
proof (induction hs arbitrary: ring)
  case (Cons h hs)
  then show ?case by (auto simp: omap_erase_def intro: filter_cong)
qed simp

lemma ring_ok_add: "ring_ok r \<Longrightarrow> ring_ok (add_node n r)"
proof -
  assume r: "ring_ok r"
  show ?thesis
  proof (cases "n \<in> node_set r")
    case False
    then have "{p \<in> set (hring r). fst p \<notin> set (vnode_hashes n)} = set (hring r)"
      using r vnode_hashes_owner by (auto simp: ring_ok_def)
    then show ?thesis
      using r False by (auto simp: ring_ok_def add_node_def fold_put_set fold_put_ok vnode_hashes_def)
  qed (use r in \<open>simp add: add_node_def\<close>)
qed

lemma hring_remove:
  assumes "ring_ok r" "n \<in> node_set r"
  shows "hring (remove_node n r) = filter (\<lambda>p. snd p \<noteq> n) (hring r)"
proof -
  have "fst p \<notin> set (vnode_hashes n) \<longleftrightarrow> snd p \<noteq> n" if "p \<in> set (hring r)" for p
    using assms(1) that vnode_hashes_owner by (auto simp: ring_ok_def)
  then show ?thesis using assms(2) by (simp add: remove_node_def fold_erase cong: filter_cong)
qed

lemma ring_ok_remove: "ring_ok r \<Longrightarrow> ring_ok (remove_node n r)"
proof (cases "n \<in> node_set r")
  case True
  assume r: "ring_ok r"
  then have "set (hring (remove_node n r)) = {p \<in> set (hring r). snd p \<noteq> n}" by (simp add: hring_remove True)
  with r True show ?thesis
    using hring_remove [OF r True] by (auto simp: ring_ok_def remove_node_def omap_ok_filter)
qed (simp add: remove_node_def)

lemma hring_add:
  assumes "ring_ok r" "n \<notin> node_set r"
  shows "filter (\<lambda>p. snd p \<noteq> n) (hring (add_node n r)) = hring r"
proof (rule omap_eqI)
  have a: "ring_ok (add_node n r)" by (rule ring_ok_add) (rule assms)
  then show "omap_ok (filter (\<lambda>p. snd p \<noteq> n) (hring (add_node n r)))" by (simp add: ring_ok_def omap_ok_filter)
  show "omap_ok (hring r)" using assms by (simp add: ring_ok_def)
  have "node_set (add_node n r) = insert n (node_set r)" using assms(2) by (simp add: add_node_def)
  with a assms show "set (filter (\<lambda>p. snd p \<noteq> n) (hring (add_node n r))) = set (hring r)"
    by (auto simp: ring_ok_def)
qed

lemma hring_empty: "ring_ok r \<Longrightarrow> hring r = [] \<longleftrightarrow> node_set r = {}"
proof -
  assume "ring_ok r"
  then have s: "set (hring r) = {(vnode_hash n i, n) | n i. n \<in> node_set r \<and> i < VNODES_PER_NODE}"
    by (simp add: ring_ok_def)
  have "0 < VNODES_PER_NODE" by (simp add: VNODES_PER_NODE_def)
  then have "set (hring r) = {} \<longleftrightarrow> node_set r = {}" unfolding s by blast
  then show ?thesis by simp
qed

section \<open>Walking the ring clockwise\<close>

definition clockwise :: "(u64, NodeId) omap \<Rightarrow> u64 \<Rightarrow> (u64, NodeId) omap" where
  "clockwise ring h = filter (\<lambda>p. h \<le> fst p) ring @ filter (\<lambda>p. fst p < h) ring"

lemma clockwise_filter: "clockwise (filter P ring) h = filter P (clockwise ring h)"
  by (simp add: clockwise_def conj_commute)

lemma set_clockwise [simp]: "set (clockwise ring h) = set ring"
  by (auto simp: clockwise_def)

lemma clockwise_Nil [simp]: "clockwise ring h = [] \<longleftrightarrow> ring = []"
  using set_clockwise [of ring h] by (metis set_empty)

lemma rotate_clockwise: "omap_ok ring \<Longrightarrow> rotate (ring_pos ring h) ring = clockwise ring h"
proof -
  assume "omap_ok ring"
  note split = omap_lower_bound_split [OF this, of h]
  have le: "omap_lower_bound h ring \<le> length ring" by (simp add: omap_lower_bound_def length_takeWhile_le)
  show ?thesis
  proof (cases "omap_lower_bound h ring = length ring")
    case True
    with split show ?thesis by (simp add: ring_pos_def clockwise_def flip: split)
  next
    case False
    with le show ?thesis by (simp add: ring_pos_def rotate_drop_take clockwise_def flip: split)
  qed
qed

lemma ring_pos_less: "ring \<noteq> [] \<Longrightarrow> ring_pos ring h < length ring"
  using length_takeWhile_le [of "\<lambda>p. fst p < h" ring]
  by (auto simp: ring_pos_def omap_lower_bound_def Let_def le_less)

lemma find_node_clockwise:
  "omap_ok ring \<Longrightarrow> find_node ring h = (case clockwise ring h of [] \<Rightarrow> None | p # _ \<Rightarrow> Some (snd p))"
proof (cases "ring = []")
  case False
  assume "omap_ok ring"
  from rotate_clockwise [OF this, of h] have "hd (clockwise ring h) = ring ! ring_pos ring h"
    using False ring_pos_less [OF False, of h] by (metis hd_rotate_conv_nth mod_less)
  with False show ?thesis by (cases "clockwise ring h") (auto simp: find_node_def)
qed (simp add: find_node_def clockwise_def)

lemma find_node_filter:
  assumes "omap_ok ring" "find_node ring h = Some n" "n \<noteq> m"
  shows "find_node (filter (\<lambda>p. snd p \<noteq> m) ring) h = Some n"
  using assms
  by (auto simp: find_node_clockwise omap_ok_filter clockwise_filter split: list.splits)

lemma find_node_member:
  assumes "omap_ok ring" "find_node ring h = Some n"
  shows "n \<in> snd ` set ring"
proof -
  obtain p ps where "clockwise ring h = p # ps" "n = snd p"
    using assms by (auto simp: find_node_clockwise split: list.splits)
  moreover from this have "p \<in> set ring" using set_clockwise [of ring h] by auto
  ultimately show ?thesis by blast
qed

lemma replica_walk_eq:
  assumes "it < length ring"
  shows "replica_walk ring p k it =
    (case filter (\<lambda>q. snd q \<noteq> p) (map (\<lambda>j. ring ! ((Suc it + j) mod length ring)) [0..<k]) of
       [] \<Rightarrow> INVALID_NODE_ID | q # _ \<Rightarrow> snd q)"
  using assms
proof (induction k arbitrary: it)
  case (Suc k)
  let ?n = "length ring"
  let ?it = "if Suc it = ?n then 0 else Suc it"
  have it: "?it = Suc it mod ?n" "?it < ?n" using Suc.prems by auto
  have shift: "map (\<lambda>j. ring ! ((Suc it + j) mod ?n)) [0..<Suc k] =
    ring ! ?it # map (\<lambda>j. ring ! ((Suc ?it + j) mod ?n)) [0..<k]"
    unfolding upt_conv_Cons [OF zero_less_Suc] map_Suc_upt [symmetric] it(1)
    by (simp add: mod_simps) (metis add_Suc mod_Suc_eq mod_add_left_eq)
  show ?case unfolding shift using Suc.IH [OF it(2)] by (simp add: Let_def)
qed simp

lemma route_replica_walk:
  assumes "omap_ok ring" "find_node ring h = Some primary"
  shows "replica_walk ring primary (length ring) (ring_pos ring h) =
    (case find_node (filter (\<lambda>p. snd p \<noteq> primary) ring) h of None \<Rightarrow> INVALID_NODE_ID | Some n \<Rightarrow> n)"
proof -
  let ?n = "length ring" and ?i = "ring_pos ring h"
  have ne: "ring \<noteq> []" using assms(2) by (auto simp: find_node_def)
  obtain c cs where c: "clockwise ring h = c # cs" "snd c = primary"
    using assms by (auto simp: find_node_clockwise split: list.splits)
  have "map (\<lambda>j. ring ! ((Suc ?i + j) mod ?n)) [0..<?n] = rotate (Suc ?i) ring"
    using ne by (intro nth_equalityI) (auto simp: nth_rotate simp del: rotate_Suc)
  also have "\<dots> = cs @ [c]" using rotate_clockwise [OF assms(1), of h] by (simp add: rotate_Suc c(1))
  finally have "replica_walk ring primary ?n ?i =
    (case filter (\<lambda>q. snd q \<noteq> primary) (clockwise ring h) of [] \<Rightarrow> INVALID_NODE_ID | q # _ \<Rightarrow> snd q)"
    using replica_walk_eq [OF ring_pos_less [OF ne, of h], of primary ?n] c by simp
  then show ?thesis
    by (simp add: find_node_clockwise omap_ok_filter assms(1) clockwise_filter split: list.splits)
qed

section \<open>Invariant of the router\<close>

definition cache_ok :: "PartitionRouter \<Rightarrow> bool" where
  "cache_ok r \<longleftrightarrow> umap_ok (route_cache r) \<and> length (route_cache r) \<le> MAX_CACHE_SIZE \<and>
     (\<forall>symbol n. map_of (route_cache r) symbol = Some n \<longrightarrow> find_node (hring r) (symbol_hash symbol) = Some n)"

definition router_ok :: "PartitionRouter \<Rightarrow> bool" where
  "router_ok r \<longleftrightarrow> ring_ok r \<and> cache_ok r"

text \<open>Every call of a client on a router; a refused placement leaves the router as it is.\<close>

datatype router_op =
    AddNode NodeId | RemoveNode NodeId | Route SymbolId | RouteTable u16 SymbolId
  | SetTablePlacement u16 TablePlacementPolicy NodeId | ClearTablePlacement u16
  | PinSymbol SymbolId NodeId | UnpinSymbol SymbolId
  | BeginMigration SymbolId NodeId NodeId | EndMigration int SymbolId
  | CommitMigration SymbolId NodeId | AbortMigration SymbolId | RecentlyMigrated int SymbolId
  | SetGracePeriod int

fun router_exec :: "router_op \<Rightarrow> PartitionRouter \<Rightarrow> PartitionRouter" where
  "router_exec (AddNode n) r = add_node n r"
| "router_exec (RemoveNode n) r = remove_node n r"
| "router_exec (Route s) r = snd (route s r)"
| "router_exec (RouteTable t s) r = snd (route_table t s r)"
| "router_exec (SetTablePlacement t p n) r = (case set_table_placement t p n r of Inl _ \<Rightarrow> r | Inr r \<Rightarrow> r)"
| "router_exec (ClearTablePlacement t) r = clear_table_placement t r"
| "router_exec (PinSymbol s n) r = pin_symbol s n r"
| "router_exec (UnpinSymbol s) r = unpin_symbol s r"
| "router_exec (BeginMigration s from to) r = begin_migration s from to r"
| "router_exec (EndMigration now s) r = end_migration now s r"
| "router_exec (CommitMigration s n) r = commit_migration s n r"
| "router_exec (AbortMigration s) r = abort_migration s r"
| "router_exec (RecentlyMigrated now s) r = snd (recently_migrated now s r)"
| "router_exec (SetGracePeriod sec) r = set_migration_grace_period sec r"

lemma router_ok_new: "router_ok router_new"
  by (simp add: router_ok_def ring_ok_def cache_ok_def router_new_def)

text \<open>An operation that leaves ring and nodes alone and only forgets cached routes.\<close>

lemma router_ok_forget:
  assumes "router_ok r" "hring r' = hring r" "node_set r' = node_set r"
    and "route_cache r' = route_cache r \<or> route_cache r' = []"
  shows "router_ok r'"
  using assms
  by (auto simp: router_ok_def ring_ok_def cache_ok_def)

lemma router_ok_erase:
  assumes "router_ok r" "hring r' = hring r" "node_set r' = node_set r"
    and "route_cache r' = umap_erase s (route_cache r)"
  shows "router_ok r'"
  using assms
  by (auto simp: router_ok_def ring_ok_def cache_ok_def intro: order_trans [OF length_umap_erase] split: if_splits)

lemma router_ok_cache_store:
  assumes "router_ok r" "find_node (hring r) (symbol_hash s) = Some n"
  shows "router_ok (cache_store s n r)"
  using assms by (auto simp: cache_store_def router_ok_def ring_ok_def cache_ok_def length_umap_put)

lemma router_ok_route: "router_ok r \<Longrightarrow> router_ok (snd (route s r))"
  by (auto simp: route_def router_ok_cache_store split: option.splits)

lemma router_ok_route_table: "router_ok r \<Longrightarrow> router_ok (snd (route_table t s r))"
  by (auto simp: route_table_def router_ok_route split: option.splits TablePlacementPolicy.splits)

lemma cache_ok_empty: "route_cache r = [] \<Longrightarrow> cache_ok r"
  by (simp add: cache_ok_def)

lemma router_ok_exec:
  assumes "router_ok r"
  shows "router_ok (router_exec p r)"
proof (cases p)
  case (AddNode n)
  have "cache_ok (add_node n r)"
    using assms by (auto simp: router_ok_def add_node_def intro: cache_ok_empty)
  with assms AddNode show ?thesis by (simp add: router_ok_def ring_ok_add)
next
  case (RemoveNode n)
  have "cache_ok (remove_node n r)"
    using assms by (auto simp: router_ok_def remove_node_def intro: cache_ok_empty)
  with assms RemoveNode show ?thesis by (simp add: router_ok_def ring_ok_remove)
next
  case (PinSymbol s n)
  show ?thesis by (rule router_ok_erase [OF assms, of _ s]) (simp_all add: PinSymbol pin_symbol_def)
next
  case (UnpinSymbol s)
  show ?thesis by (rule router_ok_erase [OF assms, of _ s]) (simp_all add: UnpinSymbol unpin_symbol_def)
next
  case (CommitMigration s n)
  show ?thesis by (rule router_ok_erase [OF assms, of _ s]) (simp_all add: CommitMigration commit_migration_def)
qed (use assms in \<open>auto simp: router_ok_route router_ok_route_table set_table_placement_def clear_table_placement_def
      begin_migration_def end_migration_def abort_migration_def
      recently_migrated_def set_migration_grace_period_def split: option.splits sum.splits if_splits intro: router_ok_forget\<close>)

lemma router_ok_run: "router_ok (fold router_exec ops router_new)"
proof -
  have "router_ok r \<Longrightarrow> router_ok (fold router_exec ops r)" for r
    by (induction ops arbitrary: r) (auto simp: router_ok_exec)
  then show ?thesis using router_ok_new .
qed

text \<open>The owner of a symbol without the cache.\<close>

definition owner_of :: "PartitionRouter \<Rightarrow> SymbolId \<Rightarrow> NodeId option" where
  "owner_of r symbol =
     (case map_of (pinned r) symbol of Some n \<Rightarrow> Some n | None \<Rightarrow> find_node (hring r) (symbol_hash symbol))"

lemma route_result:
  assumes "router_ok r"
  shows "fst (route s r) = (case owner_of r s of
    None \<Rightarrow> Inl (Thrown ''PartitionRouter: no nodes in cluster'') | Some n \<Rightarrow> Inr n)"
  using assms
  by (auto simp: route_def owner_of_def find_node_def router_ok_def cache_ok_def split: option.splits)

lemma owner_member:
  assumes "router_ok r" "find_node (hring r) h = Some n"
  shows "n \<in> node_set r"
  using assms find_node_member [of "hring r" h n] by (auto simp: router_ok_def ring_ok_def)

lemma find_node_add:
  assumes "ring_ok r" "n \<notin> node_set r"
  shows "find_node (hring (add_node n r)) h = Some n \<or> find_node (hring (add_node n r)) h = find_node (hring r) h"
proof -
  have ok: "omap_ok (hring (add_node n r))" using ring_ok_add [OF assms(1)] by (simp add: ring_ok_def)
  have "n \<in> node_set (add_node n r)" by (simp add: add_node_def)
  then have "find_node (hring (add_node n r)) h \<noteq> None"
    using hring_empty [OF ring_ok_add [OF assms(1)]] by (auto simp: find_node_def)
  then show ?thesis
    using find_node_filter [OF ok, of h _ n] hring_add [OF assms] by (metis option.exhaust)
qed

lemma find_node_remove:
  assumes "ring_ok r" "find_node (hring r) h = Some m" "m \<noteq> n"
  shows "find_node (hring (remove_node n r)) h = Some m"
  using assms find_node_filter [of "hring r" h m n] hring_remove [of r n]
  by (cases "n \<in> node_set r") (auto simp: ring_ok_def remove_node_def)

text \<open>The entry that serves a position serves every position up to its key.\<close>

lemma clockwise_key:
  assumes ok: "omap_ok ring" and c: "clockwise ring h = (k, n) # cs"
  shows "clockwise ring k = clockwise ring h"
proof (cases "filter (\<lambda>p. h \<le> fst p) ring")
  case Nil
  then have all: "filter (\<lambda>p. fst p < h) ring = ring" by (auto simp: filter_empty_conv not_le intro: filter_True)
  with Nil c have "ring = (k, n) # cs" by (simp add: clockwise_def)
  with ok have "filter (\<lambda>p. k \<le> fst p) ring = ring" "filter (\<lambda>p. fst p < k) ring = []"
    by (auto simp: omap_ok_def filter_empty_conv intro!: filter_True less_imp_le)
  with Nil all show ?thesis by (simp add: clockwise_def)
next
  case (Cons p ps)
  then have p: "p = (k, n)" using c by (simp add: clockwise_def)
  have mem: "set ((k, n) # ps) = {q \<in> set ring. h \<le> fst q}" using Cons p by (metis set_filter)
  then have "(k, n) \<in> {q \<in> set ring. h \<le> fst q}" by (metis list.set_intros(1))
  then have hk: "h \<le> k" by simp
  have "omap_ok ((k, n) # ps)" using omap_ok_filter [OF ok, of "\<lambda>p. h \<le> fst p"] Cons p by simp
  then have "k \<le> fst q" if "q \<in> set ((k, n) # ps)" for q using that by (auto simp: omap_ok_def intro: less_imp_le)
  then have "h \<le> fst q \<longleftrightarrow> k \<le> fst q" if "q \<in> set ring" for q
    using mem hk that by (metis (no_types, lifting) mem_Collect_eq order_trans)
  then have "filter (\<lambda>p. h \<le> fst p) ring = filter (\<lambda>p. k \<le> fst p) ring"
    "filter (\<lambda>p. fst p < h) ring = filter (\<lambda>p. fst p < k) ring"
    by (auto simp flip: not_le intro: filter_cong)
  then show ?thesis by (simp add: clockwise_def)
qed

lemma find_node_first:
  assumes ok: "omap_ok ring" and k: "(k, n) \<in> set ring" "h \<le> k"
    and first: "\<And>q. q \<in> set ring \<Longrightarrow> h \<le> fst q \<Longrightarrow> k \<le> fst q"
  shows "find_node ring h = Some n"
proof -
  let ?f = "filter (\<lambda>p. h \<le> fst p) ring"
  have "(k, n) \<in> set ?f" using k by simp
  then obtain p ps where f: "?f = p # ps" by (cases ?f) auto
  then have "set (p # ps) = {q \<in> set ring. h \<le> fst q}" by (metis set_filter)
  then have "p \<in> set ring" "h \<le> fst p" by auto
  then have "k \<le> fst p" by (rule first)
  moreover have "p = (k, n) \<or> fst p < k"
    using omap_ok_filter [OF ok, of "\<lambda>p. h \<le> fst p"] f \<open>(k, n) \<in> set ?f\<close> by (auto simp: omap_ok_def)
  ultimately have "p = (k, n)" by auto
  with f show ?thesis by (simp add: find_node_clockwise [OF ok] clockwise_def)
qed

section \<open>Migration plans\<close>

lemma dedup_from_pairs:
  "(\<lambda>m. (move_from m, move_to m)) ` set (dedup_from seen ms) = (\<lambda>m. (move_from m, move_to m)) ` set ms - seen"
  by (induction seen ms rule: dedup_from.induct) (auto simp: Let_def)

lemma dedup_from_distinct: "distinct (map (\<lambda>m. (move_from m, move_to m)) (dedup_from seen ms))"
proof (induction seen ms rule: dedup_from.induct)
  case (2 seen m ms)
  have "(move_from m, move_to m) \<notin>
    (\<lambda>m. (move_from m, move_to m)) ` set (dedup_from (insert (move_from m, move_to m) seen) ms)"
    unfolding dedup_from_pairs by simp
  with 2 show ?case by (simp add: Let_def)
qed simp

definition plan_pairs :: "Move list \<Rightarrow> (NodeId \<times> NodeId) list" where
  "plan_pairs ms = map (\<lambda>m. (move_from m, move_to m)) ms"

lemma plan_pairs_dedup:
  "set (plan_pairs (deduplicate_moves ms)) = set (plan_pairs ms)" "distinct (plan_pairs (deduplicate_moves ms))"
  using dedup_from_pairs [of "{}" ms] dedup_from_distinct [of "{}" ms]
  by (simp_all add: plan_pairs_def deduplicate_moves_def)

lemma plan_add_pairs:
  assumes "ring_ok r" "n \<notin> node_set r"
  shows "set (plan_pairs (plan_add n r)) = {(m, n) | m h. h \<in> set (vnode_hashes n) \<and> find_node (hring r) h = Some m}"
proof -
  have "m \<noteq> n" if "find_node (hring r) h = Some m" for m h
    using find_node_member [of "hring r" h m] that assms by (auto simp: ring_ok_def)
  then show ?thesis
    using assms(2)
    by (simp add: plan_add_def plan_pairs_dedup) (force simp: plan_pairs_def split: option.splits if_splits)
qed

lemma those_Some: "(\<And>x. x \<in> set xs \<Longrightarrow> f x \<noteq> None) \<Longrightarrow> those (map f xs) = Some (map (the \<circ> f) xs)"
  by (induction xs) (auto split: option.splits)

lemma hring_copy_remove: "hring (remove_node n (router_copy r)) = hring (remove_node n r)"
  by (simp add: remove_node_def router_copy_def)

lemma find_node_remove_total:
  assumes "ring_ok r" "n \<in> node_set r" "1 < card (node_set r)"
  shows "find_node (hring (remove_node n r)) h \<noteq> None"
proof -
  have "node_set (remove_node n r) = node_set r - {n}" using assms(2) by (simp add: remove_node_def)
  moreover have "node_set r - {n} \<noteq> {}" using assms(2,3) by (metis Diff_eq_empty_iff card.empty card_insert_disjoint
        card_mono finite.emptyI finite_insert insert_absorb leD One_nat_def empty_iff)
  ultimately show ?thesis using hring_empty [OF ring_ok_remove [OF assms(1), of n]] by (simp add: find_node_def)
qed

lemma plan_remove_pairs:
  assumes "ring_ok r" "n \<in> node_set r" "1 < card (node_set r)"
  shows "\<exists>ms. plan_remove n r = Some ms \<and> distinct (plan_pairs ms) \<and>
    set (plan_pairs ms) = {(n, m) | m h. h \<in> set (vnode_hashes n) \<and> find_node (hring (remove_node n r)) h = Some m}"
proof -
  let ?f = "find_node (hring (remove_node n r))"
  have tot: "?f h \<noteq> None" for h by (rule find_node_remove_total [OF assms])
  then have "those (map (\<lambda>h. map_option (\<lambda>m. \<lparr>move_symbol = ucast (h AND 0xFFFFFFFF), move_from = n, move_to = m\<rparr>) (?f h))
      (vnode_hashes n)) =
    Some (map (\<lambda>h. \<lparr>move_symbol = ucast (h AND 0xFFFFFFFF), move_from = n, move_to = the (?f h)\<rparr>) (vnode_hashes n))"
    by (subst those_Some) (auto simp: comp_def option.map_sel)
  moreover have "{(n, m) | m h. h \<in> set (vnode_hashes n) \<and> ?f h = Some m} = (\<lambda>h. (n, the (?f h))) ` set (vnode_hashes n)"
    using tot by (force simp: image_iff)
  ultimately show ?thesis
    using assms(2,3)
    by (simp add: plan_remove_def Let_def hring_copy_remove plan_pairs_dedup) (simp add: plan_pairs_def image_image)
qed

text \<open>
  A position served by a virtual node of \<open>n\<close> is, in the ring without \<open>n\<close>, served by whoever serves the hash of
  that virtual node there.
\<close>

lemma served_by_vnode:
  assumes "ring_ok r" "find_node (hring r) h = Some n"
  shows "\<exists>k \<in> set (vnode_hashes n).
    find_node (filter (\<lambda>p. snd p \<noteq> n) (hring r)) h = find_node (filter (\<lambda>p. snd p \<noteq> n) (hring r)) k"
proof -
  have ok: "omap_ok (hring r)" using assms(1) by (simp add: ring_ok_def)
  obtain k cs where c: "clockwise (hring r) h = (k, n) # cs"
    using assms(2) by (auto simp: find_node_clockwise [OF ok] split: list.splits)
  then have "(k, n) \<in> set (hring r)" using set_clockwise [of "hring r" h] by auto
  then have "k \<in> set (vnode_hashes n)" using assms(1) by (auto simp: ring_ok_def vnode_hashes_def)
  moreover have "clockwise (hring r) k = clockwise (hring r) h" by (rule clockwise_key [OF ok c])
  ultimately show ?thesis
    by (intro bexI [of _ k]) (simp_all add: find_node_clockwise omap_ok_filter ok clockwise_filter)
qed

section \<open>Properties\<close>

text \<open>
  C8. The cache never shows. After any sequence of calls on a new router, \<open>route\<close> answers exactly what the pin
  table and the ring say: the pinned node, else the owner on the ring, else the documented exception; it never
  runs into undefined behaviour, the cache never exceeds its limit, and the ring holds 128 entries per member.
\<close>

theorem route_cache_transparent:
  fixes ops :: "router_op list"
  defines "r \<equiv> fold router_exec ops router_new"
  shows "fst (route s r) = (case owner_of r s of
      None \<Rightarrow> Inl (Thrown ''PartitionRouter: no nodes in cluster'') | Some n \<Rightarrow> Inr n) \<and>
    (\<exists>c. snd (route s r) = r\<lparr>route_cache := c\<rparr>) \<and> length (route_cache r) \<le> MAX_CACHE_SIZE"
proof -
  have ok: "router_ok r" unfolding r_def by (rule router_ok_run)
  have id: "\<exists>c. r = r\<lparr>route_cache := c\<rparr>" by (rule exI [of _ "route_cache r"]) simp
  then have "\<exists>c. snd (route s r) = r\<lparr>route_cache := c\<rparr>"
    by (auto simp: route_def cache_store_def split: option.splits)
  with route_result [OF ok] ok show ?thesis by (simp add: router_ok_def cache_ok_def)
qed

text \<open>
  C26. Virtual nodes never collide: the hash of a virtual node determines its node and its index, so after any
  sequence of calls the ring holds exactly 128 entries for every member and none for other nodes.
\<close>

theorem ring_entries:
  fixes ops :: "router_op list"
  defines "r \<equiv> fold router_exec ops router_new"
  shows "length (hring r) = 128 * node_count r \<and>
    (\<forall>n. length (filter (\<lambda>p. snd p = n) (hring r)) = (if n \<in> node_set r then 128 else 0))"
proof -
  have ok: "ring_ok r" using router_ok_run [of ops] by (simp add: r_def router_ok_def)
  let ?v = "\<lambda>(n, i). (vnode_hash n i, n)"
  have inj: "inj_on ?v (N \<times> {..<VNODES_PER_NODE})" for N
    using vnode_hash_inj vnodes_bound by (fastforce simp: inj_on_def)
  have s: "set (hring r) = ?v ` (node_set r \<times> {..<VNODES_PER_NODE})"
    using ok by (auto simp: ring_ok_def)
  have d: "distinct (hring r)" using ok omap_distinct [of "hring r"] by (auto simp: ring_ok_def distinct_map)
  have "length (hring r) = card (?v ` (node_set r \<times> {..<VNODES_PER_NODE}))"
    using distinct_card [OF d] s by simp
  then have len: "length (hring r) = 128 * node_count r"
    unfolding card_image [OF inj] by (simp add: card_cartesian_product node_count_def VNODES_PER_NODE_def)
  have "length (filter (\<lambda>p. snd p = n) (hring r)) = (if n \<in> node_set r then 128 else 0)" for n
  proof -
    have "set (filter (\<lambda>p. snd p = n) (hring r)) = ?v ` ((node_set r \<inter> {n}) \<times> {..<VNODES_PER_NODE})"
      using s by auto
    then have "length (filter (\<lambda>p. snd p = n) (hring r)) = card (?v ` ((node_set r \<inter> {n}) \<times> {..<VNODES_PER_NODE}))"
      using distinct_card [OF distinct_filter [OF d]] by metis
    then show ?thesis unfolding card_image [OF inj] by (simp add: card_cartesian_product VNODES_PER_NODE_def)
  qed
  with len show ?thesis by blast
qed

text \<open>
  C10. Consistent hashing moves the minimum. After any sequence of calls: adding a node changes the owner of a
  symbol only to that node; removing a node changes only the owners of the symbols it owned; adding a node and
  removing it again restores every owner.
\<close>

theorem minimal_movement:
  fixes ops :: "router_op list"
  defines "r \<equiv> fold router_exec ops router_new"
  assumes "n \<notin> node_set r"
  shows "(owner_of (add_node n r) s = Some n \<or> owner_of (add_node n r) s = owner_of r s) \<and>
    (\<forall>k m. owner_of r s = Some m \<longrightarrow> m \<noteq> k \<longrightarrow> owner_of (remove_node k r) s = Some m) \<and>
    owner_of (remove_node n (add_node n r)) s = owner_of r s"
proof -
  have ok: "ring_ok r" using router_ok_run [of ops] by (simp add: r_def router_ok_def)
  have pins: "pinned (add_node k q) = pinned q" "pinned (remove_node k q) = pinned q" for k q
    by (simp_all add: add_node_def remove_node_def)
  have "hring (remove_node n (add_node n r)) = hring r"
    using hring_remove [OF ring_ok_add [OF ok], of n n] hring_add [OF ok assms(2)] by (simp add: add_node_def)
  then show ?thesis
    using find_node_add [OF ok assms(2)] find_node_remove [OF ok]
    by (auto simp: owner_of_def pins split: option.splits)
qed

theorem minimal_movement_witness:
  "(3 :: NodeId) \<notin> node_set (fold router_exec [AddNode 1, AddNode 2] router_new) \<and>
   owner_of (remove_node 3 (add_node 3 (fold router_exec [AddNode 1, AddNode 2] router_new))) 7 =
   owner_of (fold router_exec [AddNode 1, AddNode 2] router_new) 7"
proof -
  have n: "(3 :: NodeId) \<notin> node_set (fold router_exec [AddNode 1, AddNode 2] router_new)"
    by (simp add: add_node_def router_new_def)
  with minimal_movement [OF n, of 7] show ?thesis by blast
qed



lemma plan_add_complete:
  assumes "ring_ok r" "n \<notin> node_set r" "find_node (hring r) h = Some m" "find_node (hring (add_node n r)) h = Some n"
  shows "(m, n) \<in> set (plan_pairs (plan_add n r))"
  using served_by_vnode [OF ring_ok_add [OF assms(1)] assms(4)] assms(3)
  unfolding hring_add [OF assms(1,2)] plan_add_pairs [OF assms(1,2)] by auto

lemma plan_add_distinct: "distinct (plan_pairs (plan_add n r))"
  by (simp add: plan_add_def plan_pairs_dedup) (simp add: plan_pairs_def)

lemma remove_last_node:
  assumes "ring_ok r" "\<not> (n \<in> node_set r \<and> 1 < card (node_set r))"
    "find_node (hring r) h = Some n" "find_node (hring (remove_node n r)) h = Some m"
  shows False
proof -
  have "n \<in> node_set r" using find_node_member [of "hring r" h n] assms(1,3) by (auto simp: ring_ok_def)
  with assms(1,2) have "node_set r = {n}" by (auto simp: ring_ok_def card_le_Suc0_iff_eq not_less)
  then have "node_set (remove_node n r) = {}" by (simp add: remove_node_def)
  then show False using hring_empty [OF ring_ok_remove [OF assms(1), of n]] assms(4) by (simp add: find_node_def)
qed

lemma plan_remove_complete:
  assumes ok: "ring_ok r"
  shows "\<exists>ms. plan_remove n r = Some ms \<and> distinct (plan_pairs ms) \<and>
    (\<forall>h m. find_node (hring r) h = Some n \<longrightarrow> find_node (hring (remove_node n r)) h = Some m \<longrightarrow>
       (n, m) \<in> set (plan_pairs ms))"
proof (cases "n \<in> node_set r \<and> 1 < card (node_set r)")
  case True
  then obtain ms where ms: "plan_remove n r = Some ms" "distinct (plan_pairs ms)"
    "set (plan_pairs ms) = {(n, m) | m h. h \<in> set (vnode_hashes n) \<and> find_node (hring (remove_node n r)) h = Some m}"
    using plan_remove_pairs [OF ok] by blast
  have "(n, m) \<in> set (plan_pairs ms)"
    if "find_node (hring r) h = Some n" "find_node (hring (remove_node n r)) h = Some m" for h m
    using served_by_vnode [OF ok that(1)] that(2) True unfolding ms(3) hring_remove [OF ok conjunct1 [OF True]] by auto
  with ms show ?thesis by blast
next
  case False
  then have "plan_remove n r = Some []" by (auto simp: plan_remove_def)
  moreover have "distinct (plan_pairs [])" by (simp add: plan_pairs_def)
  ultimately show ?thesis using remove_last_node [OF ok False] by blast
qed

text \<open>
  C27. Migration plans are complete. After any sequence of calls: whenever adding a node moves a symbol from one
  owner to the new node, or removing a node moves a symbol it owned to another node, that pair of nodes is in the
  plan made beforehand; every pair appears once, and planning a removal never runs into undefined behaviour.
\<close>

theorem plans_complete:
  fixes ops :: "router_op list"
  defines "r \<equiv> fold router_exec ops router_new"
  shows "(\<forall>n s m. n \<notin> node_set r \<longrightarrow> find_node (hring r) (symbol_hash s) = Some m \<longrightarrow>
      find_node (hring (add_node n r)) (symbol_hash s) = Some n \<longrightarrow> (m, n) \<in> set (plan_pairs (plan_add n r))) \<and>
    (\<forall>n. distinct (plan_pairs (plan_add n r))) \<and>
    (\<forall>n. \<exists>ms. plan_remove n r = Some ms \<and> distinct (plan_pairs ms) \<and>
      (\<forall>s m. find_node (hring r) (symbol_hash s) = Some n \<longrightarrow>
         find_node (hring (remove_node n r)) (symbol_hash s) = Some m \<longrightarrow> (n, m) \<in> set (plan_pairs ms)))"
proof -
  have ok: "ring_ok r" using router_ok_run [of ops] by (simp add: r_def router_ok_def)
  show ?thesis using plan_add_complete [OF ok] plan_add_distinct plan_remove_complete [OF ok] by blast
qed

text \<open>A symbol whose hash is that of a virtual node, so that it moves to that node as soon as it joins.\<close>

definition demo_symbol :: SymbolId where
  "demo_symbol = 174308406"

definition demo_node :: NodeId where
  "demo_node = 1875979482"

lemma demo_hash: "symbol_hash demo_symbol = vnode_hash demo_node 98"
  by code_simp

lemma demo_moves:
  "find_node (hring (add_node demo_node (fold router_exec [AddNode 1] router_new))) (symbol_hash demo_symbol) = Some demo_node"
  "find_node (hring (fold router_exec [AddNode 1] router_new)) (symbol_hash demo_symbol) = Some 1"
proof -
  let ?r = "fold router_exec [AddNode 1] router_new"
  let ?r2 = "add_node demo_node ?r"
  have ok: "ring_ok ?r" using router_ok_run [of "[AddNode 1]"] by (simp add: router_ok_def)
  then have ok2: "ring_ok ?r2" by (rule ring_ok_add)
  have nodes: "node_set ?r = {1}" "demo_node \<in> node_set ?r2" by (auto simp: add_node_def router_new_def)
  show "find_node (hring ?r2) (symbol_hash demo_symbol) = Some demo_node"
  proof (rule find_node_first)
    show "omap_ok (hring ?r2)" using ok2 by (simp add: ring_ok_def)
    have "(98 :: nat) < VNODES_PER_NODE" by (simp add: VNODES_PER_NODE_def)
    then show "(symbol_hash demo_symbol, demo_node) \<in> set (hring ?r2)"
      using ok2 nodes(2) demo_hash unfolding ring_ok_def by blast
  qed simp_all
  obtain n where n: "find_node (hring ?r) (symbol_hash demo_symbol) = Some n"
    using hring_empty [OF ok] nodes by (auto simp: find_node_def)
  with owner_member [OF router_ok_run n] nodes show "find_node (hring ?r) (symbol_hash demo_symbol) = Some 1" by simp
qed

lemma demo_node_new: "demo_node \<notin> node_set (fold router_exec [AddNode 1] router_new)" "(1 :: NodeId) \<noteq> demo_node"
  by (simp_all add: add_node_def router_new_def demo_node_def)

theorem plans_complete_witness:
  "(1, demo_node) \<in> set (plan_pairs (plan_add demo_node (fold router_exec [AddNode 1] router_new)))"
  using plans_complete [of "[AddNode 1]"] demo_moves demo_node_new by blast


text \<open>
  C28. Pins and migrations. A pin decides the route until it is removed. A migration in progress is visible as its
  pair of nodes and does not change the route; ending it keeps the pair visible to readers exactly for the grace
  period; committing pins the symbol to its new owner and ends all dual treatment; aborting leaves no trace.
\<close>

theorem migration_lifecycle:
  fixes ops :: "router_op list" and now later :: int and s :: SymbolId and src dst :: NodeId
  defines "r \<equiv> fold router_exec ops router_new"
  defines "b \<equiv> begin_migration s src dst r"
  shows "fst (route s (pin_symbol s n r)) = Inr n \<and>
    fst (route s (unpin_symbol s (pin_symbol s n r))) = fst (route s (unpin_symbol s r)) \<and>
    migration_target s b = Some (src, dst) \<and> fst (route s b) = fst (route s r) \<and>
    migration_target s (end_migration now s b) = None \<and> fst (route s (end_migration now s b)) = fst (route s r) \<and>
    fst (recently_migrated later s (end_migration now s b)) =
      (if later - now > grace_period r * 1000000000 then None else Some (src, dst)) \<and>
    fst (route s (commit_migration s dst b)) = Inr dst \<and> migration_target s (commit_migration s dst b) = None \<and>
    fst (recently_migrated later s (commit_migration s dst b)) = None \<and>
    migration_target s (abort_migration s b) = None \<and> fst (route s (abort_migration s b)) = fst (route s r)"
proof -
  have ok: "router_ok r" unfolding r_def by (rule router_ok_run)
  have ex: "router_ok (router_exec p q)" if "router_ok q" for p q by (rule router_ok_exec) (rule that)
  have okb: "router_ok b" using ex [OF ok, of "BeginMigration s src dst"] by (simp add: b_def)
  have oks: "router_ok (pin_symbol s n r)" "router_ok (unpin_symbol s r)" "router_ok (unpin_symbol s (pin_symbol s n r))"
    "router_ok (end_migration now s b)" "router_ok (commit_migration s dst b)" "router_ok (abort_migration s b)"
    using ex [OF ok, of "PinSymbol s n"] ex [OF ok, of "UnpinSymbol s"] ex [OF ex [OF ok, of "PinSymbol s n"], of "UnpinSymbol s"]
      ex [OF okb, of "EndMigration now s"] ex [OF okb, of "CommitMigration s dst"] ex [OF okb, of "AbortMigration s"]
    by simp_all
  show ?thesis
    unfolding route_result [OF ok] route_result [OF okb] oks [THEN route_result]
    by (simp add: b_def owner_of_def pin_symbol_def unpin_symbol_def begin_migration_def end_migration_def
        commit_migration_def abort_migration_def migration_target_def recently_migrated_def cong: option.case_cong)
qed



end
