(* ===== verification/String_Dictionary.thy ===== *)
theory String_Dictionary
  imports Std_Map
begin

text \<open>
  The dictionary that interns symbol names, \<^verbatim>\<open>src/include/zeptodb/storage/string_dictionary.h\<close>: codes are
  positions in a table of strings, a second table marks the assigned codes, and an index leads back from the
  string to its code.
\<close>

record StringDictionary =
  strings :: "string list"
  assigned :: "bool list"
  index :: "(string, u32) umap"

definition dict_new :: StringDictionary where
  "dict_new = \<lparr>strings = [], assigned = [], index = []\<rparr>"

text \<open>
  \<^verbatim>\<open>emplace\<close> keeps an existing entry; both calls below insert a key that is not present.
\<close>

definition intern :: "string \<Rightarrow> StringDictionary \<Rightarrow> u32 \<times> StringDictionary" where
  "intern s d =
     (case map_of (index d) s of
        Some code \<Rightarrow> (code, d)
      | None \<Rightarrow>
          (let code = of_nat (length (strings d))
           in (code, \<lparr>strings = strings d @ [s], assigned = assigned d @ [True],
                      index = umap_put s code (index d)\<rparr>)))"

text \<open>\<^verbatim>\<open>resize\<close>: grow with copies of a value, or cut.\<close>

definition vec_resize :: "nat \<Rightarrow> 'a \<Rightarrow> 'a list \<Rightarrow> 'a list" where
  "vec_resize n x xs = take n xs @ replicate (n - length xs) x"

definition ensure_code :: "u32 \<Rightarrow> string \<Rightarrow> StringDictionary \<Rightarrow> (bool \<times> StringDictionary) option" where
  "ensure_code code s d =
     (case map_of (index d) s of
        Some c \<Rightarrow> Some (c = code, d)
      | None \<Rightarrow>
          (let c = unat code;
               d = (if length (strings d) \<le> c
                    then d\<lparr>strings := vec_resize (Suc c) [] (strings d),
                           assigned := vec_resize (Suc c) False (assigned d)\<rparr>
                    else d)
           in if length (assigned d) \<le> c then None
              else if assigned d ! c \<and> strings d ! c \<noteq> s then Some (False, d)
              else Some (True, \<lparr>strings = (strings d)[c := s], assigned = (assigned d)[c := True],
                                index = umap_put s code (index d)\<rparr>)))"

definition dict_lookup :: "StringDictionary \<Rightarrow> u32 \<Rightarrow> string" where
  "dict_lookup d code =
     (let c = unat code
      in if c < length (strings d) \<and> c < length (assigned d) \<and> assigned d ! c then strings d ! c else [])"

definition dict_find :: "StringDictionary \<Rightarrow> string \<Rightarrow> i64" where
  "dict_find d s = (case map_of (index d) s of Some code \<Rightarrow> uint code | None \<Rightarrow> - 1)"

text \<open>Index and tables agree: the index holds exactly the assigned codes with their strings.\<close>

definition dict_ok :: "StringDictionary \<Rightarrow> bool" where
  "dict_ok d \<longleftrightarrow> length (assigned d) = length (strings d) \<and> length (strings d) \<le> 2 ^ 32 \<and>
     (\<forall>s code. map_of (index d) s = Some code \<longleftrightarrow>
        unat code < length (strings d) \<and> assigned d ! unat code \<and> strings d ! unat code = s)"

lemma dict_ok_new: "dict_ok dict_new"
  by (simp add: dict_ok_def dict_new_def)

lemma dict_ok_index:
  "dict_ok d \<Longrightarrow> map_of (index d) s = Some code \<longleftrightarrow>
     unat code < length (strings d) \<and> assigned d ! unat code \<and> strings d ! unat code = s"
  unfolding dict_ok_def by blast

lemma dict_ok_unassigned:
  "dict_ok d \<Longrightarrow> map_of (index d) s = None \<Longrightarrow> c < length (strings d) \<Longrightarrow> assigned d ! c \<Longrightarrow> strings d ! c \<noteq> s"
proof
  assume d: "dict_ok d" "map_of (index d) s = None" "c < length (strings d)" "assigned d ! c" "strings d ! c = s"
  have "unat (of_nat c :: u32) = c" using d(1,3) by (simp add: dict_ok_def unat_of_nat)
  with dict_ok_index [OF d(1), of s "of_nat c"] d show False by simp
qed

text \<open>Binding a string that has no code yet to a free code.\<close>

lemma dict_ok_bind:
  assumes d: "dict_ok d" and s: "map_of (index d) s = None"
    and c: "unat code < length xs" "length as = length xs" "length xs \<le> 2 ^ 32"
    and old: "\<And>i. i < length xs \<Longrightarrow> i \<noteq> unat code \<Longrightarrow>
      (as ! i \<longleftrightarrow> i < length (strings d) \<and> assigned d ! i) \<and> (as ! i \<longrightarrow> xs ! i = strings d ! i)"
    and "length (strings d) \<le> length xs"
    and free: "unat code < length (strings d) \<longrightarrow> \<not> assigned d ! unat code"
  shows "dict_ok \<lparr>strings = xs[unat code := s], assigned = as[unat code := True], index = umap_put s code (index d)\<rparr>"
proof -
  have "(map_of (umap_put s code (index d)) t = Some k) \<longleftrightarrow>
    unat k < length xs \<and> as[unat code := True] ! unat k \<and> xs[unat code := s] ! unat k = t" for t k
  proof (cases "k = code")
    case True
    have "map_of (index d) t \<noteq> Some code" using dict_ok_index [OF d, of t code] free by auto
    with True c show ?thesis by auto
  next
    case False
    then have k: "unat k \<noteq> unat code" by (simp add: word_unat_eq_iff)
    have "map_of (index d) t = Some k \<longleftrightarrow> unat k < length xs \<and> as ! unat k \<and> xs ! unat k = t"
      using dict_ok_index [OF d, of t k] old [of "unat k"] k assms(7) by auto
    moreover have "unat k < length xs \<Longrightarrow> as ! unat k \<Longrightarrow> xs ! unat k \<noteq> s"
      using old [of "unat k"] k dict_ok_unassigned [OF d s, of "unat k"] by auto
    ultimately show ?thesis using False k by auto
  qed
  with c show ?thesis by (simp add: dict_ok_def)
qed

lemma dict_ok_intern:
  assumes "dict_ok d" "length (strings d) < 2 ^ 32"
  shows "dict_ok (snd (intern s d)) \<and> map_of (index (snd (intern s d))) s = Some (fst (intern s d))"
proof (cases "map_of (index d) s")
  case None
  let ?n = "length (strings d)" and ?c = "of_nat (length (strings d)) :: u32"
  have c: "unat ?c = ?n" using assms(2) by (simp add: unat_of_nat)
  have len: "length (assigned d) = ?n" using assms(1) by (simp add: dict_ok_def)
  have "dict_ok \<lparr>strings = (strings d @ [s])[unat ?c := s], assigned = (assigned d @ [True])[unat ?c := True],
      index = umap_put s ?c (index d)\<rparr>"
    using assms(2) len by (intro dict_ok_bind [OF assms(1) None]) (auto simp: c nth_append)
  with None show ?thesis by (simp add: intern_def Let_def c len list_update_append)
qed (use assms in \<open>auto simp: intern_def\<close>)

lemma length_vec_resize [simp]: "length (vec_resize n x xs) = n"
  by (simp add: vec_resize_def)

lemma nth_vec_resize: "i < n \<Longrightarrow> vec_resize n x xs ! i = (if i < length xs then xs ! i else x)"
  by (auto simp: vec_resize_def nth_append)

lemma ensure_code_cases:
  assumes "dict_ok d"
  shows "\<exists>ok d'. ensure_code code s d = Some (ok, d') \<and> dict_ok d' \<and>
    (ok \<longleftrightarrow> map_of (index d') s = Some code) \<and> (\<forall>t k. map_of (index d) t = Some k \<longrightarrow> map_of (index d') t = Some k) \<and>
    (ok \<longleftrightarrow> map_of (index d) s = Some code \<or>
       map_of (index d) s = None \<and> (\<forall>t. map_of (index d) t \<noteq> Some code))"
proof (cases "map_of (index d) s")
  case None
  let ?c = "unat code"
  have len: "length (assigned d) = length (strings d)" using assms by (simp add: dict_ok_def)
  define e where "e = (if length (strings d) \<le> ?c
    then d\<lparr>strings := vec_resize (Suc ?c) [] (strings d), assigned := vec_resize (Suc ?c) False (assigned d)\<rparr> else d)"
  have c32: "?c < 2 ^ 32" using unsigned_less [of code] by simp
  have e: "index e = index d" "?c < length (strings e)" "length (assigned e) = length (strings e)"
    "length (strings d) \<le> length (strings e)" "length (strings e) \<le> 2 ^ 32"
    using assms c32 by (auto simp: e_def dict_ok_def len)
  have same: "(assigned e ! i \<longleftrightarrow> i < length (strings d) \<and> assigned d ! i) \<and> (assigned e ! i \<longrightarrow> strings e ! i = strings d ! i)"
    if "i < length (strings e)" for i
    using that len by (auto simp: e_def nth_vec_resize split: if_splits)
  have "map_of (index e) t = Some k \<longleftrightarrow> unat k < length (strings e) \<and> assigned e ! unat k \<and> strings e ! unat k = t" for t k
    using dict_ok_index [OF assms, of t k] same [of "unat k"] e(1,4) by auto
  then have oke: "dict_ok e" using e(3,5) unfolding dict_ok_def by blast
  have run: "ensure_code code s d = (if assigned e ! ?c \<and> strings e ! ?c \<noteq> s then Some (False, e)
      else Some (True, \<lparr>strings = (strings e)[?c := s], assigned = (assigned e)[?c := True],
                        index = umap_put s code (index e)\<rparr>))"
    unfolding ensure_code_def None e_def [symmetric] Let_def using e(2,3) by simp
  have taken: "assigned e ! ?c \<longleftrightarrow> (\<exists>t. map_of (index d) t = Some code)"
    using dict_ok_index [OF assms, of _ code] same [OF e(2)] by auto
  have free: "assigned e ! ?c \<Longrightarrow> strings e ! ?c \<noteq> s"
    using dict_ok_unassigned [OF oke _ e(2)] None e(1) by simp
  show ?thesis
  proof (cases "assigned e ! ?c")
    case True
    with run free have "ensure_code code s d = Some (False, e)" by simp
    with oke e(1) None taken True show ?thesis by auto
  next
    case False
    then have r: "ensure_code code s d = Some (True, \<lparr>strings = (strings e)[?c := s], assigned = (assigned e)[?c := True],
                        index = umap_put s code (index e)\<rparr>)" using run by simp
    have "dict_ok \<lparr>strings = (strings e)[?c := s], assigned = (assigned e)[?c := True], index = umap_put s code (index d)\<rparr>"
      using e same False by (intro dict_ok_bind [OF assms None]) auto
    with r e(1) None taken False show ?thesis by auto
  qed
qed (use assms in \<open>auto simp: ensure_code_def\<close>)

lemma dict_ok_lookup: "dict_ok d \<Longrightarrow> map_of (index d) s = Some code \<Longrightarrow> dict_lookup d code = s"
  by (simp add: dict_ok_index dict_lookup_def dict_ok_def Let_def)

section \<open>Properties\<close>

text \<open>Any sequence of calls that change a dictionary; the first failing one stops.\<close>

datatype dict_op = Intern string | EnsureCode u32 string

fun dict_exec :: "dict_op \<Rightarrow> StringDictionary \<Rightarrow> StringDictionary option" where
  "dict_exec (Intern s) d = Some (snd (intern s d))"
| "dict_exec (EnsureCode code s) d = map_option snd (ensure_code code s d)"

lemma dict_run_ok:
  assumes "dict_ok d" "\<And>n. n \<le> length ops \<Longrightarrow> length (strings (the (run_list dict_exec (take n ops) d))) < 2 ^ 32"
  shows "\<exists>d'. run_list dict_exec ops d = Some d' \<and> dict_ok d'"
  using assms
proof (induction ops arbitrary: d)
  case (Cons p ops)
  have "length (strings d) < 2 ^ 32" using Cons.prems(2) [of 0] by simp
  then have "\<exists>d1. dict_exec p d = Some d1 \<and> dict_ok d1"
    using dict_ok_intern [OF Cons.prems(1)] ensure_code_cases [OF Cons.prems(1)] by (cases p) fastforce+
  then obtain d1 where d1: "dict_exec p d = Some d1" "dict_ok d1" by blast
  moreover have "length (strings (the (run_list dict_exec (take n ops) d1))) < 2 ^ 32" if "n \<le> length ops" for n
    using Cons.prems(2) [of "Suc n"] that d1(1) by simp
  ultimately show ?case using Cons.IH [OF d1(2)] by simp
qed simp

text \<open>
  C30. Round trip of the symbol dictionary. After any sequence of \<open>intern\<close> and \<open>ensure_code\<close> calls during which
  the table stays below 2 to the 32 entries, no call runs out of bounds; interning a string and looking its code
  up gives the string back, finding it gives the code, and \<open>ensure_code\<close> succeeds exactly when the string already
  has that code or both are still free, and it never changes the code of another string.
\<close>

theorem dictionary_roundtrip:
  assumes "\<And>n. n \<le> length ops \<Longrightarrow> length (strings (the (run_list dict_exec (take n ops) dict_new))) < 2 ^ 32"
  shows "\<exists>d. run_list dict_exec ops dict_new = Some d \<and>
    dict_lookup (snd (intern s d)) (fst (intern s d)) = s \<and>
    dict_find (snd (intern s d)) s = uint (fst (intern s d)) \<and>
    (\<exists>ok d'. ensure_code code s d = Some (ok, d') \<and>
      (ok \<longleftrightarrow> dict_find d s = uint code \<or> dict_find d s = - 1 \<and> (\<forall>t. dict_find d t \<noteq> uint code)) \<and>
      (ok \<longrightarrow> dict_lookup d' code = s) \<and> (\<forall>t. dict_find d t \<noteq> - 1 \<longrightarrow> dict_find d' t = dict_find d t))"
proof -
  obtain d where d: "run_list dict_exec ops dict_new = Some d" "dict_ok d"
    using dict_run_ok [OF dict_ok_new assms] by blast
  have "length (strings d) < 2 ^ 32" using assms [of "length ops"] d(1) by simp
  note int = dict_ok_intern [OF d(2) this, of s]
  have neg: "uint c \<noteq> - 1" for c :: u32 using uint_ge_0 [of c] by linarith
  have find: "dict_find e t = uint c \<longleftrightarrow> map_of (index e) t = Some c"
    "dict_find e t = - 1 \<longleftrightarrow> map_of (index e) t = None" for e t c
    using neg neg [symmetric] by (auto simp: dict_find_def word_uint_eq_iff split: option.splits)
  obtain ok d' where e: "ensure_code code s d = Some (ok, d')" "dict_ok d'"
    "ok \<longleftrightarrow> map_of (index d') s = Some code" "\<And>t k. map_of (index d) t = Some k \<Longrightarrow> map_of (index d') t = Some k"
    "ok \<longleftrightarrow> map_of (index d) s = Some code \<or> map_of (index d) s = None \<and> (\<forall>t. map_of (index d) t \<noteq> Some code)"
    using ensure_code_cases [OF d(2), of code s] by blast
  have "dict_find d' t = dict_find d t" if "dict_find d t \<noteq> - 1" for t
    using that e(4) [of t] by (auto simp: dict_find_def split: option.splits)
  moreover have "ok \<longleftrightarrow> dict_find d s = uint code \<or> dict_find d s = - 1 \<and> (\<forall>t. dict_find d t \<noteq> uint code)"
    using e(5) by (simp only: find)
  moreover have "ok \<Longrightarrow> dict_lookup d' code = s" using dict_ok_lookup [OF e(2)] e(3) by blast
  ultimately show ?thesis
    using d(1) e(1) int dict_ok_lookup [of "snd (intern s d)" s "fst (intern s d)"] find(1) by blast
qed

theorem dictionary_roundtrip_witness:
  "\<exists>d. run_list dict_exec [Intern ''AAPL'', EnsureCode 3 ''MSFT''] dict_new = Some d \<and>
     dict_lookup (snd (intern ''GOOG'' d)) (fst (intern ''GOOG'' d)) = ''GOOG''"
proof -
  let ?size = "\<lambda>n. length (strings (the (run_list dict_exec (take n [Intern ''AAPL'', EnsureCode 3 ''MSFT'']) dict_new)))"
  have sizes: "?size 0 = 0" "?size 1 = 1" "?size 2 = 4" by code_simp+
  have "?size n < 2 ^ 32" if "n \<le> length [Intern ''AAPL'', EnsureCode 3 ''MSFT'']" for n
  proof -
    from that have "n = 0 \<or> n = 1 \<or> n = 2" by auto
    with sizes show ?thesis by fastforce
  qed
  from dictionary_roundtrip [OF this] show ?thesis by blast
qed

end
