(* ===== verification/Rpc_Protocol.thy ===== *)
theory Rpc_Protocol
  imports String_Dictionary Ring_Buffer
begin

text \<open>
  The wire format between nodes, \<^verbatim>\<open>src/include/zeptodb/cluster/rpc_protocol.h\<close>: writers that append to a
  byte vector and readers that walk a received buffer with length checks.

  A pointer into the buffer is the list of bytes from it to the end. A read or a store outside its bounds is
  undefined behaviour, the outcome \<open>UB\<close> of a reader; an early return is the outcome \<open>Ret\<close>. Lengths are compared
  as integers. A \<^verbatim>\<open>double\<close> is the 64-bit pattern that is copied.
\<close>

unbundle bit_operations_syntax

section \<open>Bytes\<close>

type_synonym byte = "8 word"
type_synonym bytes = "byte list"

definition byte_of_char :: "char \<Rightarrow> byte" where
  "byte_of_char c = word_of_nat (of_char c)"

definition char_of_byte :: "byte \<Rightarrow> char" where
  "char_of_byte b = char_of (unat b)"

definition proto_write_u32 :: "u32 \<Rightarrow> bytes" where
  "proto_write_u32 v = [ucast v, ucast (drop_bit 8 v), ucast (drop_bit 16 v), ucast (drop_bit 24 v)]"

definition write_u64 :: "u64 \<Rightarrow> bytes" where
  "write_u64 u = [ucast u, ucast (drop_bit 8 u), ucast (drop_bit 16 u), ucast (drop_bit 24 u),
     ucast (drop_bit 32 u), ucast (drop_bit 40 u), ucast (drop_bit 48 u), ucast (drop_bit 56 u)]"

definition proto_write_i64 :: "i64 \<Rightarrow> bytes" where
  "proto_write_i64 v = write_u64 (word_of_int v)"

definition proto_write_str :: "string \<Rightarrow> bytes" where
  "proto_write_str s = proto_write_u32 (of_nat (length s)) @ map byte_of_char s"

fun proto_read_u32 :: "bytes \<Rightarrow> u32 option" where
  "proto_read_u32 (a # b # c # d # _) =
     Some (ucast a OR push_bit 8 (ucast b) OR push_bit 16 (ucast c) OR push_bit 24 (ucast d))"
| "proto_read_u32 _ = None"

fun read_u64 :: "bytes \<Rightarrow> u64 option" where
  "read_u64 (a # b # c # d # e # f # g # h # _) =
     Some (ucast a OR push_bit 8 (ucast b) OR push_bit 16 (ucast c) OR push_bit 24 (ucast d) OR
           push_bit 32 (ucast e) OR push_bit 40 (ucast f) OR push_bit 48 (ucast g) OR push_bit 56 (ucast h))"
| "read_u64 _ = None"

definition proto_read_i64 :: "bytes \<Rightarrow> i64 option" where
  "proto_read_i64 p = map_option sint (read_u64 p)"

section \<open>Readers\<close>

datatype ('r, 'a) flow = UB | Ret 'r | Go 'a

definition flow_bind :: "('r, 'a) flow \<Rightarrow> ('a \<Rightarrow> ('r, 'b) flow) \<Rightarrow> ('r, 'b) flow" where
  "flow_bind m k = (case m of UB \<Rightarrow> UB | Ret r \<Rightarrow> Ret r | Go a \<Rightarrow> k a)"

primrec flow_loop :: "('i \<Rightarrow> 's \<Rightarrow> ('r, 's) flow) \<Rightarrow> 'i list \<Rightarrow> 's \<Rightarrow> ('r, 's) flow" where
  "flow_loop body [] s = Go s"
| "flow_loop body (i # is) s = flow_bind (body i s) (flow_loop body is)"

definition need :: "int \<Rightarrow> bytes \<Rightarrow> bool" where
  "need n p \<longleftrightarrow> n \<le> int (length p)"

definition read_u32 :: "bytes \<Rightarrow> ('r, u32 \<times> bytes) flow" where
  "read_u32 p = (case proto_read_u32 p of None \<Rightarrow> UB | Some v \<Rightarrow> Go (v, drop 4 p))"

definition read_i64 :: "bytes \<Rightarrow> ('r, i64 \<times> bytes) flow" where
  "read_i64 p = (case proto_read_i64 p of None \<Rightarrow> UB | Some v \<Rightarrow> Go (v, drop 8 p))"

definition read_f64 :: "bytes \<Rightarrow> ('r, u64 \<times> bytes) flow" where
  "read_f64 p = (case read_u64 p of None \<Rightarrow> UB | Some v \<Rightarrow> Go (v, drop 8 p))"

definition read_u8 :: "bytes \<Rightarrow> ('r, byte \<times> bytes) flow" where
  "read_u8 p = (case p of [] \<Rightarrow> UB | b # p \<Rightarrow> Go (b, p))"

text \<open>\<^verbatim>\<open>assign(p, n)\<close>: the next \<open>n\<close> bytes as a string.\<close>

definition read_str :: "int \<Rightarrow> bytes \<Rightarrow> ('r, string \<times> bytes) flow" where
  "read_str n p = (if need n p then Go (map char_of_byte (take (nat n) p), drop (nat n) p) else UB)"

text \<open>A store through \<^verbatim>\<open>operator[]\<close>.\<close>

definition store_at :: "nat \<Rightarrow> 'a \<Rightarrow> 'a list \<Rightarrow> ('r, 'a list) flow" where
  "store_at i v xs = (if i < length xs then Go (xs[i := v]) else UB)"

section \<open>Query results\<close>

datatype ColumnType = INT32 | INT64 | FLOAT32 | FLOAT64 | TIMESTAMP_NS | SYMBOL | BOOL | STRING

definition column_types_list :: "ColumnType list" where
  "column_types_list = [INT32, INT64, FLOAT32, FLOAT64, TIMESTAMP_NS, SYMBOL, BOOL, STRING]"

fun type_code :: "ColumnType \<Rightarrow> byte" where
  "type_code INT32 = 0" | "type_code INT64 = 1" | "type_code FLOAT32 = 2" | "type_code FLOAT64 = 3"
| "type_code TIMESTAMP_NS = 4" | "type_code SYMBOL = 5" | "type_code BOOL = 6" | "type_code STRING = 7"

text \<open>The fields of a result set that travel; the float cells of \<^verbatim>\<open>typed_rows\<close> and the timings do not.\<close>

record QueryResultSet =
  column_names :: "string list"
  column_types :: "ColumnType list"
  rows :: "i64 list list"
  string_rows :: "string list"
  symbol_dict :: "StringDictionary option"
  qerror :: string

definition empty_result_set :: QueryResultSet where
  "empty_result_set = \<lparr>column_names = [], column_types = [], rows = [], string_rows = [], symbol_dict = None, qerror = []\<rparr>"

definition rpc_is_string_encoded_type :: "ColumnType \<Rightarrow> bool" where
  "rpc_is_string_encoded_type t \<longleftrightarrow> t = SYMBOL \<or> t = STRING"

definition RPC_RESULT_MAX_COLUMNS :: int where "RPC_RESULT_MAX_COLUMNS = 4096"
definition RPC_RESULT_MAX_ROWS :: int where "RPC_RESULT_MAX_ROWS = 1000000"
definition RPC_RESULT_MAX_STRING_CELLS :: int where "RPC_RESULT_MAX_STRING_CELLS = 1000000"

definition decoded_strings :: "QueryResultSet \<Rightarrow> nat \<Rightarrow> string list" where
  "decoded_strings r ncols =
     (case (string_rows r, symbol_dict r) of
        ([], Some d) \<Rightarrow>
          concat (map (\<lambda>row.
            concat (map (\<lambda>ci.
                if ci < length (column_types r) \<and> rpc_is_string_encoded_type (column_types r ! ci)
                then [dict_lookup d (word_of_int (row ! ci))] else [])
              [0..<min ncols (length row)])) (rows r))
      | (ss, _) \<Rightarrow> ss)"

text \<open>The counts on the wire are 32 bits wide.\<close>

definition serialize_result :: "QueryResultSet \<Rightarrow> bytes" where
  "serialize_result r =
     (let ncols = of_nat (length (column_names r)) :: u32; n = unat ncols; strs = decoded_strings r n
      in proto_write_str (qerror r) @ proto_write_u32 ncols @
         concat (map (\<lambda>i. proto_write_str (column_names r ! i) @
             [if i < length (column_types r) then type_code (column_types r ! i) else 1]) [0..<n]) @
         proto_write_u32 (of_nat (length (rows r))) @
         concat (map (\<lambda>row. concat (map (\<lambda>ci. proto_write_i64 (if ci < length row then row ! ci else 0)) [0..<n]))
           (rows r)) @
         proto_write_u32 (of_nat (length strs)) @ concat (map proto_write_str strs))"

type_synonym 'a result_flow = "(QueryResultSet, 'a) flow"

definition fail :: "QueryResultSet \<Rightarrow> string \<Rightarrow> 'a result_flow" where
  "fail r msg = Ret (r\<lparr>qerror := msg\<rparr>)"

definition ds_error :: "bytes \<Rightarrow> QueryResultSet \<Rightarrow> (bytes \<times> QueryResultSet) result_flow" where
  "ds_error p r =
     (if \<not> need 4 p then fail r ''proto: truncated(error_len)''
      else flow_bind (read_u32 p) (\<lambda>(err_len, p).
        if \<not> need (uint err_len) p then fail r ''proto: truncated(error)''
        else flow_bind (read_str (uint err_len) p) (\<lambda>(s, p). Go (p, r\<lparr>qerror := s\<rparr>))))"

definition ds_column :: "nat \<Rightarrow> bytes \<times> QueryResultSet \<Rightarrow> (bytes \<times> QueryResultSet) result_flow" where
  "ds_column i = (\<lambda>(p, r).
     if \<not> need 4 p then fail r ''proto: truncated(name_len)''
     else flow_bind (read_u32 p) (\<lambda>(nlen, p).
       if \<not> need (uint nlen) p \<or> int (length p) - uint nlen < 1 then fail r ''proto: truncated(name)''
       else flow_bind (read_str (uint nlen) p) (\<lambda>(name, p).
         flow_bind (store_at i name (column_names r)) (\<lambda>names.
           flow_bind (read_u8 p) (\<lambda>(raw_type, p).
             if raw_type > type_code STRING
             then fail (r\<lparr>column_names := names\<rparr>) ''proto: invalid column type''
             else flow_bind (store_at i (column_types_list ! unat raw_type) (column_types r)) (\<lambda>types.
               Go (p, r\<lparr>column_names := names, column_types := types\<rparr>)))))))"

definition ds_columns :: "bytes \<times> QueryResultSet \<Rightarrow> (nat \<times> bytes \<times> QueryResultSet) result_flow" where
  "ds_columns = (\<lambda>(p, r).
     if \<not> need 4 p then fail r ''proto: truncated(col_count)''
     else flow_bind (read_u32 p) (\<lambda>(ncols, p).
       if uint ncols > RPC_RESULT_MAX_COLUMNS then fail r ''proto: col_count exceeds limit''
       else let n = unat ncols;
                r = r\<lparr>column_names := vec_resize n [] (column_names r),
                      column_types := vec_resize n INT32 (column_types r)\<rparr>
            in flow_bind (flow_loop ds_column [0..<n] (p, r)) (\<lambda>(p, r). Go (n, p, r))))"

definition ds_value :: "nat \<Rightarrow> nat \<Rightarrow> bytes \<times> QueryResultSet \<Rightarrow> (bytes \<times> QueryResultSet) result_flow" where
  "ds_value ri ci = (\<lambda>(p, r).
     if \<not> need 8 p then fail r ''proto: truncated(value)''
     else flow_bind (read_i64 p) (\<lambda>(v, p).
       if ri < length (rows r)
       then flow_bind (store_at ci v (rows r ! ri)) (\<lambda>row. Go (p, r\<lparr>rows := (rows r)[ri := row]\<rparr>))
       else UB))"

definition ds_rows :: "nat \<times> bytes \<times> QueryResultSet \<Rightarrow> (bytes \<times> QueryResultSet) result_flow" where
  "ds_rows = (\<lambda>(ncols, p, r).
     if \<not> need 4 p then fail r ''proto: truncated(row_count)''
     else flow_bind (read_u32 p) (\<lambda>(nrows, p).
       if uint nrows > RPC_RESULT_MAX_ROWS then fail r ''proto: row_count exceeds limit''
       else if nrows > 0 \<and> ncols = 0 then fail r ''proto: rows require at least one column''
       else if ncols > 0 \<and> uint nrows > int (length p) div (int ncols * 8) then fail r ''proto: truncated(values)''
       else flow_loop (\<lambda>ri. flow_loop (ds_value ri) [0..<ncols]) [0..<unat nrows]
              (p, r\<lparr>rows := vec_resize (unat nrows) (replicate ncols 0) (rows r)\<rparr>)))"

definition ds_string :: "nat \<Rightarrow> bytes \<times> QueryResultSet \<Rightarrow> (bytes \<times> QueryResultSet) result_flow" where
  "ds_string i = (\<lambda>(p, r).
     if \<not> need 4 p then fail r ''proto: truncated(string_len)''
     else flow_bind (read_u32 p) (\<lambda>(slen, p).
       if \<not> need (uint slen) p then fail r ''proto: truncated(string_value)''
       else flow_bind (read_str (uint slen) p) (\<lambda>(s, p). Go (p, r\<lparr>string_rows := string_rows r @ [s]\<rparr>))))"

definition ds_strings :: "bytes \<times> QueryResultSet \<Rightarrow> (bytes \<times> QueryResultSet) result_flow" where
  "ds_strings = (\<lambda>(p, r).
     if p = [] then Go (p, r)
     else if \<not> need 4 p then fail r ''proto: truncated(string_count)''
     else flow_bind (read_u32 p) (\<lambda>(string_count, p).
       if uint string_count > RPC_RESULT_MAX_STRING_CELLS \<or> uint string_count > int (length p) div 4
       then fail r ''proto: string_count exceeds limit''
       else flow_loop ds_string [0..<unat string_count] (p, r)))"

definition ds_end :: "bytes \<times> QueryResultSet \<Rightarrow> QueryResultSet" where
  "ds_end = (\<lambda>(p, r). if p \<noteq> [] then r\<lparr>qerror := ''proto: trailing result payload''\<rparr> else r)"

text \<open>\<^term>\<open>None\<close> is a null data pointer; the result \<^term>\<open>None\<close> is undefined behaviour.\<close>

definition deserialize_result :: "bytes option \<Rightarrow> QueryResultSet option" where
  "deserialize_result data =
     (let r = empty_result_set
      in case data of
        None \<Rightarrow> Some (r\<lparr>qerror := ''proto: null result payload''\<rparr>)
      | Some p \<Rightarrow>
          (case flow_bind (flow_bind (flow_bind (ds_error p r) ds_columns) ds_rows) ds_strings of
             UB \<Rightarrow> None | Ret r \<Rightarrow> Some r | Go pr \<Rightarrow> Some (ds_end pr)))"

section \<open>Ticks, typed rows and batches\<close>

text \<open>
  The object representation of a tick: the fields at their offsets, little-endian, in 64 bytes; the bytes between
  and after the fields are padding, whose content \<open>pad\<close> is indeterminate.
\<close>

definition write_u16 :: "u16 \<Rightarrow> bytes" where
  "write_u16 v = [ucast v, ucast (drop_bit 8 v)]"

definition serialize_tick :: "(nat \<Rightarrow> byte) \<Rightarrow> TickMessage \<Rightarrow> bytes" where
  "serialize_tick pad msg =
     write_u64 (seq_num msg) @ proto_write_i64 (recv_ts msg) @ proto_write_u32 (symbol_id msg) @ map pad [20..<24] @
     write_u64 (price msg) @ proto_write_i64 (volume msg) @ [msg_type msg, price_is_float msg] @
     write_u16 (table_id msg) @ map pad [44..<64]"

fun read_u16 :: "bytes \<Rightarrow> u16 option" where
  "read_u16 (a # b # _) = Some (ucast a OR push_bit 8 (ucast b))"
| "read_u16 _ = None"

definition tick_of_bytes :: "bytes \<Rightarrow> TickMessage option" where
  "tick_of_bytes p =
     (if length p < 64 then None
      else Some \<lparr>seq_num = the (read_u64 p), recv_ts = the (proto_read_i64 (drop 8 p)),
                 symbol_id = the (proto_read_u32 (drop 16 p)), price = the (read_u64 (drop 24 p)),
                 volume = the (proto_read_i64 (drop 32 p)), msg_type = p ! 40, price_is_float = p ! 41,
                 table_id = the (read_u16 (drop 42 p))\<rparr>)"

definition deserialize_tick :: "bytes \<Rightarrow> TickMessage \<Rightarrow> bool \<times> TickMessage" where
  "deserialize_tick data out = (case tick_of_bytes data of None \<Rightarrow> (False, out) | Some m \<Rightarrow> (True, m))"

text \<open>The count is 32 bits wide, so only that many messages are copied.\<close>

definition serialize_wal_batch :: "(nat \<Rightarrow> nat \<Rightarrow> byte) \<Rightarrow> TickMessage list \<Rightarrow> bytes" where
  "serialize_wal_batch pad msgs =
     (let cnt = of_nat (length msgs) :: u32
      in proto_write_u32 cnt @ concat (map (\<lambda>i. serialize_tick (pad i) (msgs ! i)) [0..<unat cnt]))"

definition deserialize_wal_batch :: "bytes \<Rightarrow> TickMessage list \<Rightarrow> bool \<times> TickMessage list" where
  "deserialize_wal_batch data out =
     (case proto_read_u32 data of
        None \<Rightarrow> (False, out)
      | Some cnt \<Rightarrow>
          if int (length data) < 4 + uint cnt * 64 then (False, out)
          else (True, map (\<lambda>i. the (tick_of_bytes (drop (4 + 64 * i) data))) [0..<unat cnt]))"

definition serialize_metrics_request :: "i64 \<Rightarrow> u32 \<Rightarrow> bytes" where
  "serialize_metrics_request since_ms limit = proto_write_i64 since_ms @ proto_write_u32 limit"

definition deserialize_metrics_request :: "bytes \<Rightarrow> (i64 \<times> u32) option" where
  "deserialize_metrics_request data =
     (if length data < 12 then None
      else Some (the (proto_read_i64 data), the (proto_read_u32 (drop 8 data))))"

text \<open>The type of a column is kept as its raw code: the reader of typed rows does not check it.\<close>

record TypedColumnValue =
  tc_name :: string
  tc_type :: byte
  tc_i64 :: i64
  tc_f64 :: u64
  tc_u32 :: u32
  tc_u8 :: byte
  has_string_value :: bool
  string_value :: string

record TypedRowMessage =
  tr_table_id :: u16
  tr_symbol_id :: u32
  tr_timestamp :: i64
  tr_columns :: "TypedColumnValue list"

definition write_column :: "TypedColumnValue \<Rightarrow> bytes" where
  "write_column col = proto_write_str (tc_name col) @ [tc_type col] @ proto_write_i64 (tc_i64 col) @
     write_u64 (tc_f64 col) @ proto_write_u32 (tc_u32 col) @ [tc_u8 col]"

definition string_columns :: "TypedColumnValue list \<Rightarrow> nat list" where
  "string_columns cols = filter (\<lambda>i. has_string_value (cols ! i)) [0..<length cols]"

definition serialize_typed_row :: "TypedRowMessage \<Rightarrow> bytes" where
  "serialize_typed_row row =
     (let cols = tr_columns row;
          buf = proto_write_u32 (ucast (tr_table_id row)) @ proto_write_u32 (tr_symbol_id row) @
                proto_write_i64 (tr_timestamp row) @ proto_write_u32 (of_nat (length cols)) @ concat (map write_column cols);
          string_count = of_nat (length (string_columns cols)) :: u32
      in if string_count = 0 then buf
         else buf @ proto_write_u32 string_count @
              concat (map (\<lambda>i. proto_write_u32 (of_nat i) @ proto_write_str (string_value (cols ! i))) (string_columns cols)))"

type_synonym 'a row_flow = "(bool \<times> TypedRowMessage, 'a) flow"

definition dt_column :: "nat \<Rightarrow> bytes \<times> TypedRowMessage \<Rightarrow> (bytes \<times> TypedRowMessage) row_flow" where
  "dt_column i = (\<lambda>(p, out).
     if \<not> need 4 p then Ret (False, out)
     else flow_bind (read_u32 p) (\<lambda>(name_len, p).
       if \<not> need (uint (name_len + 1 + 8 + 8 + 4 + 1)) p then Ret (False, out)
       else flow_bind (read_str (uint name_len) p) (\<lambda>(name, p).
         flow_bind (read_u8 p) (\<lambda>(ty, p).
         flow_bind (read_i64 p) (\<lambda>(v, p).
         flow_bind (read_f64 p) (\<lambda>(f, p).
         flow_bind (read_u32 p) (\<lambda>(u, p).
         flow_bind (read_u8 p) (\<lambda>(b, p).
           Go (p, out\<lparr>tr_columns := tr_columns out @
             [\<lparr>tc_name = name, tc_type = ty, tc_i64 = v, tc_f64 = f, tc_u32 = u, tc_u8 = b,
               has_string_value = False, string_value = []\<rparr>]\<rparr>)))))))))"

definition dt_string :: "nat \<Rightarrow> bytes \<times> TypedRowMessage \<Rightarrow> (bytes \<times> TypedRowMessage) row_flow" where
  "dt_string i = (\<lambda>(p, out).
     if \<not> need 4 p then Ret (False, out)
     else flow_bind (read_u32 p) (\<lambda>(column_index, p).
       if uint column_index \<ge> int (length (tr_columns out)) then Ret (False, out)
       else if \<not> need 4 p then Ret (False, out)
       else flow_bind (read_u32 p) (\<lambda>(value_len, p).
         if \<not> need (uint value_len) p then Ret (False, out)
         else flow_bind (read_str (uint value_len) p) (\<lambda>(v, p).
           let c = unat column_index
           in Go (p, out\<lparr>tr_columns := (tr_columns out)[c :=
                (tr_columns out ! c)\<lparr>string_value := v, has_string_value := True\<rparr>]\<rparr>)))))"

definition dt_header :: "bytes \<Rightarrow> TypedRowMessage \<Rightarrow> (u32 \<times> bytes \<times> TypedRowMessage) row_flow" where
  "dt_header p out =
     (if \<not> need (4 + 4 + 8 + 4) p then Ret (False, out)
      else flow_bind (read_u32 p) (\<lambda>(table, p).
        flow_bind (read_u32 p) (\<lambda>(symbol, p).
        flow_bind (read_i64 p) (\<lambda>(ts, p).
        flow_bind (read_u32 p) (\<lambda>(column_count, p).
          let out = out\<lparr>tr_timestamp := ts\<rparr>
          in if uint table > 65535 then Ret (False, out)
             else if uint column_count > RPC_RESULT_MAX_COLUMNS \<or> uint column_count > int (length p) div 26 then Ret (False, out)
             else Go (column_count, p, out\<lparr>tr_table_id := ucast table, tr_symbol_id := symbol, tr_columns := []\<rparr>))))))"

definition dt_tail :: "u32 \<Rightarrow> bytes \<times> TypedRowMessage \<Rightarrow> (bytes \<times> TypedRowMessage) row_flow" where
  "dt_tail column_count = (\<lambda>(p, out).
     if p = [] then Ret (True, out)
     else if \<not> need 4 p then Ret (False, out)
     else flow_bind (read_u32 p) (\<lambda>(string_count, p).
       if string_count > column_count \<or> uint string_count > int (length p) div (2 * 4) then Ret (False, out)
       else flow_loop dt_string [0..<unat string_count] (p, out)))"

definition deserialize_typed_row :: "bytes \<Rightarrow> TypedRowMessage \<Rightarrow> (bool \<times> TypedRowMessage) option" where
  "deserialize_typed_row data out =
     (case flow_bind (dt_header data out) (\<lambda>(column_count, p, out).
             flow_bind (flow_loop dt_column [0..<unat column_count] (p, out)) (dt_tail column_count)) of
        UB \<Rightarrow> None | Ret r \<Rightarrow> Some r | Go (p, out) \<Rightarrow> Some (p = [], out))"

section \<open>Reading back what was written\<close>

lemma char_byte [simp]: "char_of_byte (byte_of_char c) = c"
proof -
  have "of_char c < (256 :: nat)" by (rule nat_of_char_less_256)
  then have "unat (word_of_nat (of_char c) :: byte) = of_char c" by (subst unat_of_nat) simp
  then show ?thesis by (simp add: char_of_byte_def byte_of_char_def)
qed

lemma chars_bytes [simp]: "map (char_of_byte \<circ> byte_of_char) s = s"
  by (simp add: comp_def)

lemma byte_bit32:
  "bit (push_bit k (ucast (ucast (drop_bit k v) :: byte)) :: u32) n \<longleftrightarrow> k \<le> n \<and> n < k + 8 \<and> n < 32 \<and> bit v n"
  for v :: u32
  by (auto simp: bit_simps)

lemma byte_bit64:
  "bit (push_bit k (ucast (ucast (drop_bit k v) :: byte)) :: u64) n \<longleftrightarrow> k \<le> n \<and> n < k + 8 \<and> n < 64 \<and> bit v n"
  for v :: u64
  by (auto simp: bit_simps)

lemma u32_bytes:
  "ucast (ucast v :: byte) OR push_bit 8 (ucast (ucast (drop_bit 8 v) :: byte)) OR
   push_bit 16 (ucast (ucast (drop_bit 16 v) :: byte)) OR push_bit 24 (ucast (ucast (drop_bit 24 v) :: byte)) = (v :: u32)"
  (is "?w = v")
proof (rule bit_word_eqI)
  fix n assume "n < LENGTH(32)"
  then have "n < 8 \<or> 8 \<le> n \<and> n < 16 \<or> 16 \<le> n \<and> n < 24 \<or> 24 \<le> n \<and> n < 32" by auto
  then show "bit ?w n = bit v n" unfolding bit_or_iff byte_bit32 by (auto simp: bit_ucast_iff)
qed

lemma u64_bytes:
  "ucast (ucast v :: byte) OR push_bit 8 (ucast (ucast (drop_bit 8 v) :: byte)) OR
   push_bit 16 (ucast (ucast (drop_bit 16 v) :: byte)) OR push_bit 24 (ucast (ucast (drop_bit 24 v) :: byte)) OR
   push_bit 32 (ucast (ucast (drop_bit 32 v) :: byte)) OR push_bit 40 (ucast (ucast (drop_bit 40 v) :: byte)) OR
   push_bit 48 (ucast (ucast (drop_bit 48 v) :: byte)) OR push_bit 56 (ucast (ucast (drop_bit 56 v) :: byte)) = (v :: u64)"
  (is "?w = v")
proof (rule bit_word_eqI)
  fix n assume "n < LENGTH(64)"
  then have n: "n < 64" by simp
  then have "n < 8 \<or> 8 \<le> n \<and> n < 16 \<or> 16 \<le> n \<and> n < 24 \<or> 24 \<le> n \<and> n < 32 \<or>
    32 \<le> n \<and> n < 40 \<or> 40 \<le> n \<and> n < 48 \<or> 48 \<le> n \<and> n < 56 \<or> 56 \<le> n \<and> n < 64" by (metis not_le)
  with n show "bit ?w n = bit v n" unfolding bit_or_iff byte_bit64 by (cases "bit v n") (simp_all add: bit_ucast_iff)
qed

lemma length_write [simp]: "length (proto_write_u32 v) = 4" "length (write_u64 u) = 8" "length (proto_write_i64 i) = 8"
  by (simp_all add: proto_write_u32_def write_u64_def proto_write_i64_def)

named_theorems wire

lemma flow_bind_simps [simp, wire]:
  "flow_bind UB k = UB" "flow_bind (Ret r) k = Ret r" "flow_bind (Go a) k = k a"
  by (simp_all add: flow_bind_def)

lemma read_u32_write [wire]: "read_u32 (proto_write_u32 v @ p) = Go (v, p)"
  by (simp add: read_u32_def proto_write_u32_def u32_bytes)

lemma read_u64_write: "read_u64 (write_u64 u @ p) = Some u"
  by (simp add: write_u64_def u64_bytes)

lemma read_f64_write [wire]: "read_f64 (write_u64 u @ p) = Go (u, p)"
  by (simp add: read_f64_def read_u64_write)

lemma sint_word_of_int: "in_i64 v \<Longrightarrow> sint (word_of_int v :: u64) = v"
  using wrap64_id [of v] by (simp add: int_word_sint wrap64_def)

lemma read_i64_write [wire]: "in_i64 v \<Longrightarrow> read_i64 (proto_write_i64 v @ p) = Go (v, p)"
  by (simp add: read_i64_def proto_read_i64_def proto_write_i64_def read_u64_write sint_word_of_int)

lemma read_u8_write [wire]: "read_u8 (b # p) = Go (b, p)"
  by (simp add: read_u8_def)

lemma read_str_write [wire]: "n = int (length s) \<Longrightarrow> read_str n (map byte_of_char s @ p) = Go (s, p)"
  by (simp add: read_str_def need_def)

lemma need_app [wire]: "need n (xs @ ys) \<longleftrightarrow> n - int (length xs) \<le> int (length ys)"
  by (auto simp: need_def)

lemma unat_count: "n < 2 ^ 32 \<Longrightarrow> unat (of_nat n :: u32) = n"
  by (simp add: unat_of_nat)

lemma uint_count: "n < 2 ^ 32 \<Longrightarrow> uint (of_nat n :: u32) = int n"
  using unat_count [of n] by (metis uint_nat)

lemma store_at_Go: "i < length xs \<Longrightarrow> store_at i v xs = Go (xs[i := v])"
  by (simp add: store_at_def)

lemma type_code_le [simp]: "\<not> 7 < type_code t" "column_types_list ! unat (type_code t) = t"
  by (cases t; simp add: column_types_list_def)+

section \<open>Every buffer is read inside its bounds\<close>

text \<open>An outcome that is not undefined, with a property of the early returns and one of the continuation.\<close>

definition flow_ok :: "('r \<Rightarrow> bool) \<Rightarrow> ('a \<Rightarrow> bool) \<Rightarrow> ('r, 'a) flow \<Rightarrow> bool" where
  "flow_ok R I m = (case m of UB \<Rightarrow> False | Ret r \<Rightarrow> R r | Go a \<Rightarrow> I a)"

lemma flow_ok_simps [simp]: "flow_ok R I UB = False" "flow_ok R I (Ret r) = R r" "flow_ok R I (Go a) = I a"
  by (simp_all add: flow_ok_def)

lemma flow_ok_bind:
  "flow_ok R I m \<Longrightarrow> (\<And>a. I a \<Longrightarrow> flow_ok R J (k a)) \<Longrightarrow> flow_ok R J (flow_bind m k)"
  by (cases m) auto

lemma flow_ok_mono: "flow_ok R I m \<Longrightarrow> (\<And>a. I a \<Longrightarrow> J a) \<Longrightarrow> flow_ok R J m"
  by (cases m) auto

lemma flow_ok_loop:
  assumes "\<And>i s. lo \<le> i \<Longrightarrow> i < hi \<Longrightarrow> I i s \<Longrightarrow> flow_ok R (I (Suc i)) (body i s)" "I lo s" "lo \<le> hi"
  shows "flow_ok R (I hi) (flow_loop body [lo..<hi] s)"
  using assms
proof (induction "hi - lo" arbitrary: lo s)
  case (Suc n)
  then have lo: "lo < hi" by simp
  have "flow_ok R (I hi) (flow_bind (body lo s) (flow_loop body [Suc lo..<hi]))"
    by (rule flow_ok_bind [OF Suc.prems(1)]) (use Suc lo in auto)
  with lo show ?case by (simp add: upt_conv_Cons)
qed simp

lemma read_u32_ok: "need 4 p \<Longrightarrow> flow_ok R (\<lambda>(v, q). True) (read_u32 p)"
  by (cases p rule: proto_read_u32.cases) (auto simp: read_u32_def need_def)

lemma read_i64_ok: "need 8 p \<Longrightarrow> flow_ok R (\<lambda>(v, q). in_i64 v) (read_i64 p)"
proof -
  have "in_i64 (sint (w :: u64))" for w
    using sint_ge [of w] sint_lt [of w] by (simp add: in_i64_def INT64_MIN_def INT64_MAX_def)
  then show "need 8 p \<Longrightarrow> ?thesis"
    by (cases p rule: read_u64.cases) (auto simp: read_i64_def proto_read_i64_def need_def)
qed

lemma read_str_ok: "need n p \<Longrightarrow> 0 \<le> n \<Longrightarrow> flow_ok R (\<lambda>(v, q). int (length q) = int (length p) - n) (read_str n p)"
  by (simp add: read_str_def need_def)

lemma read_u8_ok: "p \<noteq> [] \<Longrightarrow> flow_ok R (\<lambda>(v, q). True) (read_u8 p)"
  by (cases p) (simp_all add: read_u8_def)

lemma store_at_ok: "i < length xs \<Longrightarrow> flow_ok R (\<lambda>ys. ys = xs[i := v]) (store_at i v xs)"
  by (simp add: store_at_def)

definition qrs_ok :: "QueryResultSet \<Rightarrow> bool" where
  "qrs_ok r \<longleftrightarrow> length (column_types r) = length (column_names r) \<and>
     int (length (column_names r)) \<le> RPC_RESULT_MAX_COLUMNS \<and> int (length (rows r)) \<le> RPC_RESULT_MAX_ROWS \<and>
     (\<forall>row \<in> set (rows r). length row = length (column_names r) \<and> (\<forall>v \<in> set row. in_i64 v)) \<and>
     int (length (string_rows r)) \<le> RPC_RESULT_MAX_STRING_CELLS"

lemma qrs_ok_error [simp]: "qrs_ok (r\<lparr>qerror := e\<rparr>) = qrs_ok r"
  by (simp add: qrs_ok_def)

lemma fail_ok [simp]: "flow_ok qrs_ok I (fail r msg) = qrs_ok r"
  by (simp add: fail_def)

definition qrs_start :: "QueryResultSet \<Rightarrow> bool" where
  "qrs_start r \<longleftrightarrow> column_names r = [] \<and> column_types r = [] \<and> rows r = [] \<and> string_rows r = []"

lemma qrs_start_ok: "qrs_start r \<Longrightarrow> qrs_ok r"
  by (simp add: qrs_start_def qrs_ok_def RPC_RESULT_MAX_COLUMNS_def RPC_RESULT_MAX_ROWS_def RPC_RESULT_MAX_STRING_CELLS_def)

lemma ds_error_ok:
  assumes "qrs_start r"
  shows "flow_ok qrs_ok (\<lambda>(p, r). qrs_start r) (ds_error p r)"
  using assms qrs_start_ok [OF assms] unfolding ds_error_def
  by (auto intro!: flow_ok_bind [OF read_u32_ok] flow_ok_bind [OF read_str_ok] simp: qrs_start_def split: if_splits)

lemma ds_column_ok:
  assumes "qrs_ok r" "rows r = []" "i < length (column_names r)"
  shows "flow_ok qrs_ok (\<lambda>(p, r'). qrs_ok r' \<and> rows r' = [] \<and> string_rows r' = string_rows r \<and>
    length (column_names r') = length (column_names r)) (ds_column i (p, r))"
  using assms unfolding ds_column_def
  by (auto intro!: flow_ok_bind [OF read_u32_ok] flow_ok_bind [OF read_str_ok] flow_ok_bind [OF store_at_ok]
      flow_ok_bind [OF read_u8_ok] simp: qrs_ok_def fail_def split: if_splits)

lemma ds_columns_ok:
  assumes r: "qrs_start r"
  shows "flow_ok qrs_ok (\<lambda>(n, p, r). n = length (column_names r) \<and> qrs_ok r \<and> rows r = [] \<and> string_rows r = [])
    (ds_columns (p, r))" (is "flow_ok qrs_ok ?J _")
proof -
  let ?I = "\<lambda>n (_ :: nat) (p :: bytes, r). length (column_names r) = n \<and> qrs_ok r \<and> rows r = [] \<and> string_rows r = []"
  let ?r = "\<lambda>n. r\<lparr>column_names := vec_resize n [] (column_names r), column_types := vec_resize n INT32 (column_types r)\<rparr>"
  have step: "flow_ok qrs_ok (?I n (Suc i)) (ds_column i s)" if "i < n" "?I n i s" for n i s
    using that by (cases s) (auto intro!: flow_ok_mono [OF ds_column_ok])
  have start: "?I n 0 (p, ?r n)" if "int n \<le> RPC_RESULT_MAX_COLUMNS" for n p
    using r that by (simp add: qrs_start_def qrs_ok_def RPC_RESULT_MAX_ROWS_def RPC_RESULT_MAX_STRING_CELLS_def)
  have loop: "flow_ok qrs_ok ?J (flow_bind (flow_loop ds_column [0..<n] (p, ?r n)) (\<lambda>(p, r). Go (n, p, r)))"
    if n: "int n \<le> RPC_RESULT_MAX_COLUMNS" for n p
  proof (rule flow_ok_bind)
    show "flow_ok qrs_ok (?I n n) (flow_loop ds_column [0..<n] (p, ?r n))"
      by (rule flow_ok_loop [where I = "?I n"]) (rule step, assumption+, rule start [OF n], simp)
  qed auto
  have "flow_ok qrs_ok ?J (case v of (ncols, p) \<Rightarrow>
      if uint ncols > RPC_RESULT_MAX_COLUMNS then fail r ''proto: col_count exceeds limit''
      else let n = unat ncols in flow_bind (flow_loop ds_column [0..<n] (p, ?r n)) (\<lambda>(p, r). Go (n, p, r)))"
    for v :: "u32 \<times> bytes"
    using loop [of "unat (fst v)" "snd v"] qrs_start_ok [OF r] by (cases v) (simp add: Let_def)
  then show ?thesis
    using qrs_start_ok [OF r] unfolding ds_columns_def Let_def
    by (cases "need 4 p") (simp_all add: flow_ok_bind [OF read_u32_ok])
qed

lemma ds_value_ok:
  assumes "qrs_ok r" "ri < length (rows r)" "ci < length (column_names r)"
  shows "flow_ok qrs_ok (\<lambda>(p, r'). qrs_ok r' \<and> length (rows r') = length (rows r) \<and> column_names r' = column_names r \<and>
    string_rows r' = string_rows r) (ds_value ri ci (p, r))"
proof -
  have len: "length (rows r ! ri) = length (column_names r)" using assms by (simp add: qrs_ok_def)
  have "qrs_ok (r\<lparr>rows := (rows r)[ri := (rows r ! ri)[ci := v]]\<rparr>)" if v: "in_i64 v" for v
  proof -
    have "\<forall>w \<in> set ((rows r ! ri)[ci := v]). in_i64 w"
      using assms v by (auto simp: qrs_ok_def dest!: subsetD [OF set_update_subset_insert])
    then show ?thesis
      using assms len by (auto simp: qrs_ok_def dest!: subsetD [OF set_update_subset_insert])
  qed
  then show ?thesis
    using assms len unfolding ds_value_def
    by (auto intro!: flow_ok_bind [OF read_i64_ok] flow_ok_bind [OF store_at_ok] split: if_splits)
qed

lemma ds_rows_ok:
  assumes "n = length (column_names r)" "qrs_ok r" "rows r = []" "string_rows r = []"
  shows "flow_ok qrs_ok (\<lambda>(p, r). qrs_ok r \<and> string_rows r = []) (ds_rows (n, p, r))"
proof -
  let ?I = "\<lambda>m _ (p :: bytes, r'). qrs_ok r' \<and> length (rows r') = m \<and> column_names r' = column_names r \<and> string_rows r' = []"
  have inner: "flow_ok qrs_ok (?I m (Suc ri)) (flow_loop (ds_value ri) [0..<n] s)" if "ri < m" "?I m ri s" for m ri s
    by (rule flow_ok_loop [where I = "\<lambda>_. ?I m ri"])
      (use that assms in \<open>auto intro!: flow_ok_mono [OF ds_value_ok]\<close>)
  have loop: "flow_ok qrs_ok (?I m m) (flow_loop (\<lambda>ri. flow_loop (ds_value ri) [0..<n]) [0..<m] s)"
    if "?I m 0 s" for m s
    by (rule flow_ok_loop [where I = "?I m"]) (use that inner in auto)
  have start: "qrs_ok (r\<lparr>rows := vec_resize m (replicate n 0) (rows r)\<rparr>)" if "int m \<le> RPC_RESULT_MAX_ROWS" for m
    using assms that by (auto simp: qrs_ok_def vec_resize_def in_i64_def INT64_MIN_def INT64_MAX_def)
  have run: "flow_ok qrs_ok (\<lambda>(p, r). qrs_ok r \<and> string_rows r = [])
      (flow_loop (\<lambda>ri. flow_loop (ds_value ri) [0..<n]) [0..<m] (q, r\<lparr>rows := vec_resize m (replicate n 0) (rows r)\<rparr>))"
    if "int m \<le> RPC_RESULT_MAX_ROWS" for m q
    by (rule flow_ok_mono [OF loop]) (use start [OF that] assms(4) in auto)
  have "flow_ok qrs_ok (\<lambda>(p, r). qrs_ok r \<and> string_rows r = []) (case v of (nrows, p) \<Rightarrow>
       if uint nrows > RPC_RESULT_MAX_ROWS then fail r ''proto: row_count exceeds limit''
       else if nrows > 0 \<and> n = 0 then fail r ''proto: rows require at least one column''
       else if n > 0 \<and> uint nrows > int (length p) div (int n * 8) then fail r ''proto: truncated(values)''
       else flow_loop (\<lambda>ri. flow_loop (ds_value ri) [0..<n]) [0..<unat nrows]
              (p, r\<lparr>rows := vec_resize (unat nrows) (replicate n 0) (rows r)\<rparr>))" for v :: "u32 \<times> bytes"
    using run [of "unat (fst v)" "snd v"] assms(2) by (cases v) simp
  then show ?thesis
    using assms(2) unfolding ds_rows_def by (cases "need 4 p") (simp_all add: flow_ok_bind [OF read_u32_ok])
qed

lemma ds_string_ok:
  assumes "qrs_ok r" "int (length (string_rows r)) < RPC_RESULT_MAX_STRING_CELLS"
  shows "flow_ok qrs_ok (\<lambda>(p, r'). qrs_ok r' \<and> length (string_rows r') = Suc (length (string_rows r))) (ds_string i (p, r))"
  using assms unfolding ds_string_def
  by (auto intro!: flow_ok_bind [OF read_u32_ok] flow_ok_bind [OF read_str_ok] simp: qrs_ok_def fail_def split: if_splits)

lemma ds_strings_ok:
  assumes "qrs_ok r" "string_rows r = []"
  shows "flow_ok qrs_ok (\<lambda>(p, r). qrs_ok r) (ds_strings (p, r))"
proof -
  let ?I = "\<lambda>i (p :: bytes, r). qrs_ok r \<and> length (string_rows r) = i"
  have loop: "flow_ok qrs_ok (?I n) (flow_loop ds_string [0..<n] s)"
    if "?I 0 s" "int n \<le> RPC_RESULT_MAX_STRING_CELLS" for n s
    by (rule flow_ok_loop [where I = ?I]) (use that in \<open>auto intro!: flow_ok_mono [OF ds_string_ok]\<close>)
  show ?thesis
    using assms unfolding ds_strings_def
    by (auto intro!: flow_ok_bind [OF read_u32_ok] flow_ok_mono [OF loop] simp: not_less split: if_splits)
qed

lemma deserialize_result_ok: "\<exists>r. deserialize_result data = Some r \<and> qrs_ok r"
proof (cases data)
  case None
  have "qrs_start empty_result_set" by (simp add: qrs_start_def empty_result_set_def)
  with None qrs_start_ok show ?thesis by (simp add: deserialize_result_def Let_def)
next
  case (Some p)
  have "qrs_start empty_result_set" by (simp add: qrs_start_def empty_result_set_def)
  note err = ds_error_ok [OF this, of p]
  have "flow_ok qrs_ok (\<lambda>(n, p, r). n = length (column_names r) \<and> qrs_ok r \<and> rows r = [] \<and> string_rows r = [])
    (flow_bind (ds_error p empty_result_set) ds_columns)"
    by (rule flow_ok_bind [OF err]) (auto intro: ds_columns_ok)
  then have "flow_ok qrs_ok (\<lambda>(p, r). qrs_ok r \<and> string_rows r = [])
    (flow_bind (flow_bind (ds_error p empty_result_set) ds_columns) ds_rows)"
    by (rule flow_ok_bind) (auto intro: ds_rows_ok)
  then have "flow_ok qrs_ok (\<lambda>(p, r). qrs_ok r)
    (flow_bind (flow_bind (flow_bind (ds_error p empty_result_set) ds_columns) ds_rows) ds_strings)"
    by (rule flow_ok_bind) (auto intro: ds_strings_ok)
  then show ?thesis
    by (auto simp: Some deserialize_result_def Let_def ds_end_def flow_ok_def split: flow.splits)
qed

section \<open>Round trip of a result\<close>

lemma fill_front: "lo < hi \<Longrightarrow> hi \<le> length xs \<Longrightarrow> fill f (Suc lo) hi (xs[lo := f lo]) = fill f lo hi xs"
  by (rule nth_equalityI) (auto simp: nth_list_update)

text \<open>A reader that, at index \<open>i\<close>, consumes \<open>enc i\<close> and makes the update \<open>upd i\<close>.\<close>

lemma flow_loop_run:
  assumes "\<And>i q s. lo \<le> i \<Longrightarrow> i < hi \<Longrightarrow> P s \<Longrightarrow> body i (enc i @ q, s) = Go (q, upd i s) \<and> P (upd i s)"
    and "P s" "lo \<le> hi"
  shows "flow_loop body [lo..<hi] (concat (map enc [lo..<hi]) @ q, s) = Go (q, fold upd [lo..<hi] s) \<and>
    P (fold upd [lo..<hi] s)"
  using assms
proof (induction "hi - lo" arbitrary: lo s)
  case (Suc n)
  then have lo: "lo < hi" by simp
  note step = Suc.prems(1) [of lo s "concat (map enc [Suc lo..<hi]) @ q", OF _ lo Suc.prems(2)]
  have "flow_loop body [Suc lo..<hi] (concat (map enc [Suc lo..<hi]) @ q, upd lo s) =
      Go (q, fold upd [Suc lo..<hi] (upd lo s)) \<and> P (fold upd [Suc lo..<hi] (upd lo s))"
    by (rule Suc.hyps(1)) (use Suc step lo in auto)
  with step lo show ?case by (simp add: upt_conv_Cons)
qed simp

lemma ds_column_run:
  assumes "length nm < 2 ^ 32" "i < length (column_names r)" "length (column_types r) = length (column_names r)"
  shows "ds_column i (proto_write_str nm @ [type_code t] @ q, r) =
    Go (q, r\<lparr>column_names := (column_names r)[i := nm], column_types := (column_types r)[i := t]\<rparr>)"
  using assms
  by (simp add: ds_column_def proto_write_str_def wire uint_count store_at_Go)

lemma ds_value_run:
  assumes "in_i64 v" "ri < length (rows r)" "ci < length (rows r ! ri)"
  shows "ds_value ri ci (proto_write_i64 v @ q, r) = Go (q, r\<lparr>rows := (rows r)[ri := (rows r ! ri)[ci := v]]\<rparr>)"
  using assms by (simp add: ds_value_def wire store_at_Go)

lemma ds_string_run:
  "length s < 2 ^ 32 \<Longrightarrow> ds_string i (proto_write_str s @ q, r) = Go (q, r\<lparr>string_rows := string_rows r @ [s]\<rparr>)"
  by (simp add: ds_string_def proto_write_str_def wire uint_count)

lemma ds_error_run:
  "length s < 2 ^ 32 \<Longrightarrow> ds_error (proto_write_str s @ q) r = Go (q, r\<lparr>qerror := s\<rparr>)"
  by (simp add: ds_error_def proto_write_str_def wire uint_count)

text \<open>What the receiver sees of a result: missing types and cells are filled in, codes are resolved.\<close>

definition wire_view :: "QueryResultSet \<Rightarrow> QueryResultSet" where
  "wire_view r =
     (let n = length (column_names r)
      in \<lparr>column_names = column_names r,
          column_types = map (\<lambda>i. if i < length (column_types r) then column_types r ! i else INT64) [0..<n],
          rows = map (\<lambda>row. map (\<lambda>ci. if ci < length row then row ! ci else 0) [0..<n]) (rows r),
          string_rows = decoded_strings r n, symbol_dict = None, qerror = qerror r\<rparr>)"

text \<open>The limits of the protocol.\<close>

definition wire_fits :: "QueryResultSet \<Rightarrow> bool" where
  "wire_fits r \<longleftrightarrow>
     (let n = length (column_names r); strs = decoded_strings r n
      in length (qerror r) < 2 ^ 32 \<and> int n \<le> RPC_RESULT_MAX_COLUMNS \<and> list_all (\<lambda>s. length s < 2 ^ 32) (column_names r) \<and>
         int (length (rows r)) \<le> RPC_RESULT_MAX_ROWS \<and> (rows r \<noteq> [] \<longrightarrow> 0 < n) \<and> list_all (list_all in_i64) (rows r) \<and>
         int (length strs) \<le> RPC_RESULT_MAX_STRING_CELLS \<and> list_all (\<lambda>s. length s < 2 ^ 32) strs)"

lemma fold_columns:
  assumes "n \<le> length (column_names r)" "n \<le> length (column_types r)"
  shows "fold (\<lambda>i r. r\<lparr>column_names := (column_names r)[i := nm i], column_types := (column_types r)[i := ty i]\<rparr>) [0..<n] r =
    r\<lparr>column_names := fill nm 0 n (column_names r), column_types := fill ty 0 n (column_types r)\<rparr>"
  using assms by (induction n) (auto simp: fill_Suc)

lemma fold_row:
  assumes "n \<le> length (rows r ! ri)" "ri < length (rows r)"
  shows "fold (\<lambda>ci r. r\<lparr>rows := (rows r)[ri := (rows r ! ri)[ci := f ci]]\<rparr>) [0..<n] r =
    r\<lparr>rows := (rows r)[ri := fill f 0 n (rows r ! ri)]\<rparr>"
  using assms by (induction n) (auto simp: fill_Suc)

lemma fold_rows:
  assumes "m \<le> length (rows r)"
  shows "fold (\<lambda>ri r. r\<lparr>rows := (rows r)[ri := g ri]\<rparr>) [0..<m] r = r\<lparr>rows := fill g 0 m (rows r)\<rparr>"
  using assms by (induction m) (auto simp: fill_Suc)

lemma fold_strings:
  "n \<le> length ss \<Longrightarrow> fold (\<lambda>i r. r\<lparr>string_rows := string_rows r @ [ss ! i]\<rparr>) [0..<n] r =
    r\<lparr>string_rows := string_rows r @ take n ss\<rparr>"
  by (induction n) (auto simp: take_Suc_conv_app_nth)

lemma ds_columns_run:
  assumes n: "int n \<le> RPC_RESULT_MAX_COLUMNS" and nm: "\<And>i. i < n \<Longrightarrow> length (nm i) < 2 ^ 32"
  shows "ds_columns (proto_write_u32 (of_nat n) @ concat (map (\<lambda>i. proto_write_str (nm i) @ [type_code (ty i)]) [0..<n]) @ q, r) =
    Go (n, q, r\<lparr>column_names := map nm [0..<n], column_types := map ty [0..<n]\<rparr>)"
proof -
  let ?r = "r\<lparr>column_names := vec_resize n [] (column_names r), column_types := vec_resize n INT32 (column_types r)\<rparr>"
  let ?upd = "\<lambda>i r. r\<lparr>column_names := (column_names r)[i := nm i], column_types := (column_types r)[i := ty i]\<rparr>"
  have n32: "n < 2 ^ 32" using n by (simp add: RPC_RESULT_MAX_COLUMNS_def)
  have "flow_loop ds_column [0..<n] (concat (map (\<lambda>i. proto_write_str (nm i) @ [type_code (ty i)]) [0..<n]) @ q, ?r) =
      Go (q, fold ?upd [0..<n] ?r) \<and> length (column_names (fold ?upd [0..<n] ?r)) = n \<and> length (column_types (fold ?upd [0..<n] ?r)) = n"
    by (rule flow_loop_run [where P = "\<lambda>r. length (column_names r) = n \<and> length (column_types r) = n"])
      (use nm ds_column_run in auto)
  then show ?thesis
    using n n32 by (simp add: ds_columns_def wire uint_count unat_count Let_def fold_columns fill_all)
qed

lemma ds_rows_run:
  assumes m: "int m \<le> RPC_RESULT_MAX_ROWS" and n: "0 < m \<longrightarrow> 0 < n" and v: "\<And>i j. i < m \<Longrightarrow> j < n \<Longrightarrow> in_i64 (f i j)"
    and r: "rows r = []"
  shows "ds_rows (n, proto_write_u32 (of_nat m) @
      concat (map (\<lambda>i. concat (map (\<lambda>j. proto_write_i64 (f i j)) [0..<n])) [0..<m]) @ q, r) =
    Go (q, r\<lparr>rows := map (\<lambda>i. map (f i) [0..<n]) [0..<m]\<rparr>)"
proof -
  let ?r = "r\<lparr>rows := vec_resize m (replicate n 0) (rows r)\<rparr>"
  let ?enc = "\<lambda>i. concat (map (\<lambda>j. proto_write_i64 (f i j)) [0..<n])"
  let ?P = "\<lambda>r. length (rows r) = m \<and> (\<forall>i < m. length (rows r ! i) = n)"
  let ?upd = "\<lambda>i r. r\<lparr>rows := (rows r)[i := map (f i) [0..<n]]\<rparr>"
  have m32: "m < 2 ^ 32" using m by (simp add: RPC_RESULT_MAX_ROWS_def)
  have row: "flow_loop (ds_value i) [0..<n] (?enc i @ q, r) = Go (q, ?upd i r) \<and> ?P (?upd i r)"
    if i: "i < m" and P: "?P r" for i q and r :: QueryResultSet
  proof -
    let ?u = "\<lambda>ci r. r\<lparr>rows := (rows r)[i := (rows r ! i)[ci := f i ci]]\<rparr>"
    have "flow_loop (ds_value i) [0..<n] (?enc i @ q, r) = Go (q, fold ?u [0..<n] r) \<and> ?P (fold ?u [0..<n] r)"
      by (rule flow_loop_run [where P = ?P]) (use i P v ds_value_run in \<open>auto simp: nth_list_update\<close>)
    then show ?thesis using i P by (auto simp: fold_row fill_all nth_list_update)
  qed
  define p where "p = concat (map ?enc [0..<m]) @ q"
  have "flow_loop (\<lambda>ri. flow_loop (ds_value ri) [0..<n]) [0..<m] (p, ?r) =
      Go (q, fold ?upd [0..<m] ?r) \<and> ?P (fold ?upd [0..<m] ?r)"
    unfolding p_def by (rule flow_loop_run [where P = ?P]) (use row in \<open>auto simp: nth_vec_resize r\<close>)
  then have run: "flow_loop (\<lambda>ri. flow_loop (ds_value ri) [0..<n]) [0..<m] (p, ?r) =
      Go (q, r\<lparr>rows := map (\<lambda>i. map (f i) [0..<n]) [0..<m]\<rparr>)"
    by (simp add: fold_rows fill_all)
  have "length p = m * (n * 8) + length q"
    unfolding p_def by (simp add: length_concat comp_def sum_list_triv)
  then have "0 < n \<Longrightarrow> int m \<le> int (length p) div (int n * 8)"
    by (simp add: div_add_self1 div_mult_self3 pos_imp_zdiv_nonneg_iff)
  then have room: "\<not> (0 < n \<and> int m > int (length p) div (int n * 8))" by auto
  have "(of_nat m :: u32) > 0 \<longleftrightarrow> 0 < m" using unat_count [OF m32] by (metis unat_gt_0 word_gt_0)
  with n have cols: "\<not> ((of_nat m :: u32) > 0 \<and> n = 0)" by auto
  show ?thesis
    unfolding ds_rows_def append_assoc p_def [symmetric] prod.case
    using m room cols by (simp only: wire uint_count [OF m32] unat_count [OF m32] run prod.case not_less [symmetric]) (simp add: need_def)
qed

lemma map_rows_nth: "map g xs = map (\<lambda>i. g (xs ! i)) [0..<length xs]"
  by (rule nth_equalityI) simp_all

lemma ds_strings_run:
  assumes n: "int (length ss) \<le> RPC_RESULT_MAX_STRING_CELLS" and s: "\<And>s. s \<in> set ss \<Longrightarrow> length s < 2 ^ 32"
    and r: "string_rows r = []"
  shows "ds_strings (proto_write_u32 (of_nat (length ss)) @ concat (map proto_write_str ss), r) =
    Go ([], r\<lparr>string_rows := ss\<rparr>)"
proof -
  let ?n = "length ss"
  have n32: "?n < 2 ^ 32" using n by (simp add: RPC_RESULT_MAX_STRING_CELLS_def)
  have ss: "concat (map proto_write_str ss) = concat (map (\<lambda>i. proto_write_str (ss ! i)) [0..<?n])"
    by (simp only: map_rows_nth [of proto_write_str ss])
  have "flow_loop ds_string [0..<?n] (concat (map (\<lambda>i. proto_write_str (ss ! i)) [0..<?n]) @ [], r) =
      Go ([], fold (\<lambda>i r. r\<lparr>string_rows := string_rows r @ [ss ! i]\<rparr>) [0..<?n] r) \<and> True"
    by (rule flow_loop_run [where P = "\<lambda>_. True"]) (use s ds_string_run in auto)
  then have run: "flow_loop ds_string [0..<?n] (concat (map proto_write_str ss), r) = Go ([], r\<lparr>string_rows := ss\<rparr>)"
    unfolding ss by (simp add: fold_strings r)
  have "?n * 4 \<le> length (concat (map proto_write_str ss))"
    by (induction ss) (simp_all add: proto_write_str_def)
  then have "int ?n \<le> int (length (concat (map proto_write_str ss))) div 4" by linarith
  then have room: "\<not> (int ?n > RPC_RESULT_MAX_STRING_CELLS \<or> int ?n > int (length (concat (map proto_write_str ss))) div 4)"
    using n by simp
  have ne: "proto_write_u32 v @ p \<noteq> []" for v p by (simp add: proto_write_u32_def)
  show ?thesis
    unfolding ds_strings_def prod.case using room ne
    by (simp only: wire uint_count [OF n32] unat_count [OF n32] run prod.case if_False) simp
qed

lemma deserialize_serialize:
  assumes "wire_fits r"
  shows "deserialize_result (Some (serialize_result r)) = Some (wire_view r)"
proof -
  let ?n = "length (column_names r)" and ?m = "length (rows r)"
  let ?strs = "decoded_strings r ?n"
  let ?ty = "\<lambda>i. if i < length (column_types r) then column_types r ! i else INT64"
  let ?f = "\<lambda>i ci. if ci < length (rows r ! i) then rows r ! i ! ci else 0"
  have f: "length (qerror r) < 2 ^ 32" "int ?n \<le> RPC_RESULT_MAX_COLUMNS" "\<And>i. i < ?n \<Longrightarrow> length (column_names r ! i) < 2 ^ 32"
    "int ?m \<le> RPC_RESULT_MAX_ROWS" "0 < ?m \<longrightarrow> 0 < ?n" "int (length ?strs) \<le> RPC_RESULT_MAX_STRING_CELLS"
    "\<And>s. s \<in> set ?strs \<Longrightarrow> length s < 2 ^ 32"
    using assms by (auto simp: wire_fits_def Let_def list_all_iff)
  have "\<forall>row \<in> set (rows r). \<forall>v \<in> set row. in_i64 v" using assms by (simp add: wire_fits_def Let_def list_all_iff)
  moreover have "in_i64 0" by (simp add: in_i64_def INT64_MIN_def INT64_MAX_def)
  ultimately have v: "in_i64 (?f i j)" if "i < ?m" for i j
    using nth_mem [OF that] nth_mem [of j "rows r ! i"] by auto
  have n32: "unat (of_nat ?n :: u32) = ?n" using f(2) by (intro unat_count) (simp add: RPC_RESULT_MAX_COLUMNS_def)
  have ty: "(if i < length (column_types r) then type_code (column_types r ! i) else 1) = type_code (?ty i)" for i by simp
  have ser: "serialize_result r = proto_write_str (qerror r) @ (proto_write_u32 (of_nat ?n) @
      concat (map (\<lambda>i. proto_write_str (column_names r ! i) @ [type_code (?ty i)]) [0..<?n]) @
      (proto_write_u32 (of_nat ?m) @ concat (map (\<lambda>i. concat (map (\<lambda>j. proto_write_i64 (?f i j)) [0..<?n])) [0..<?m]) @
      (proto_write_u32 (of_nat (length ?strs)) @ concat (map proto_write_str ?strs))))"
    unfolding serialize_result_def Let_def n32 ty by (subst map_rows_nth [of _ "rows r"]) simp
  have rws: "map (\<lambda>i. map (?f i) [0..<?n]) [0..<?m] = rows (wire_view r)"
    unfolding wire_view_def Let_def by (subst map_rows_nth [of _ "rows r"]) simp
  let ?r1 = "empty_result_set\<lparr>qerror := qerror r\<rparr>"
  let ?r2 = "?r1\<lparr>column_names := map ((!) (column_names r)) [0..<?n], column_types := map ?ty [0..<?n]\<rparr>"
  let ?r3 = "?r2\<lparr>rows := map (\<lambda>i. map (?f i) [0..<?n]) [0..<?m]\<rparr>"
  have 1: "ds_error (proto_write_str (qerror r) @ q) empty_result_set = Go (q, ?r1)" for q
    using f(1) by (rule ds_error_run)
  have 2: "ds_columns (proto_write_u32 (of_nat ?n) @
      concat (map (\<lambda>i. proto_write_str (column_names r ! i) @ [type_code (?ty i)]) [0..<?n]) @ q, ?r1) = Go (?n, q, ?r2)" for q
    by (rule ds_columns_run) (use f in auto)
  have 3: "ds_rows (?n, proto_write_u32 (of_nat ?m) @
      concat (map (\<lambda>i. concat (map (\<lambda>j. proto_write_i64 (?f i j)) [0..<?n])) [0..<?m]) @ q, ?r2) = Go (q, ?r3)" for q
    by (rule ds_rows_run) (use f v in \<open>auto simp: empty_result_set_def\<close>)
  have 4: "ds_strings (proto_write_u32 (of_nat (length ?strs)) @ concat (map proto_write_str ?strs), ?r3) =
      Go ([], ?r3\<lparr>string_rows := ?strs\<rparr>)"
    by (rule ds_strings_run) (use f in \<open>auto simp: empty_result_set_def\<close>)
  have "?r3\<lparr>string_rows := ?strs\<rparr> = wire_view r"
    unfolding rws by (simp add: empty_result_set_def wire_view_def map_nth Let_def)
  then show ?thesis
    unfolding deserialize_result_def ser Let_def
    by (simp only: option.case 1 2 3 4 flow_bind_simps flow.case ds_end_def prod.case) simp
qed

section \<open>Round trip of ticks and typed rows\<close>

lemma u16_bytes: "ucast (ucast v :: byte) OR push_bit 8 (ucast (ucast (drop_bit 8 v) :: byte)) = (v :: u16)" (is "?w = v")
proof (rule bit_word_eqI)
  fix n assume "n < LENGTH(16)"
  then show "bit ?w n = bit v n" by (auto simp: bit_simps)
qed

lemma length_tick [simp]: "length (serialize_tick pad m) = 64"
  by (simp add: serialize_tick_def write_u16_def)

lemma proto_read_u32_write: "proto_read_u32 (proto_write_u32 v @ q) = Some v"
  by (simp add: proto_write_u32_def u32_bytes)

lemma proto_read_i64_write: "in_i64 v \<Longrightarrow> proto_read_i64 (proto_write_i64 v @ q) = Some v"
  by (simp add: proto_read_i64_def proto_write_i64_def read_u64_write sint_word_of_int)

lemma drop_app: "length xs = n \<Longrightarrow> drop n (xs @ ys) = ys" "length xs = n \<Longrightarrow> drop (n + m) (xs @ ys) = drop m ys"
  by simp_all

definition tick_ok :: "TickMessage \<Rightarrow> bool" where
  "tick_ok m \<longleftrightarrow> in_i64 (recv_ts m) \<and> in_i64 (volume m)"

lemma tick_of_bytes_write:
  assumes "tick_ok m"
  shows "tick_of_bytes (serialize_tick pad m @ q) = Some m"
proof -
  have pads: "map pad [20..<24] = [pad 20, pad 21, pad 22, pad 23]" by (simp add: upt_rec)
  let ?t = "map pad [44..<64] @ q"
  let ?t6 = "[msg_type m, price_is_float m] @ write_u16 (table_id m) @ ?t"
  let ?t5 = "proto_write_i64 (volume m) @ ?t6"
  let ?t4 = "write_u64 (price m) @ ?t5"
  let ?t3 = "proto_write_u32 (symbol_id m) @ map pad [20..<24] @ ?t4"
  let ?t2 = "proto_write_i64 (recv_ts m) @ ?t3"
  let ?p = "write_u64 (seq_num m) @ ?t2"
  have p: "serialize_tick pad m @ q = ?p" by (simp add: serialize_tick_def)
  have d: "drop 8 ?p = ?t2" "drop 16 ?p = ?t3" "drop 24 ?p = ?t4" "drop 32 ?p = ?t5" "drop 40 ?p = ?t6"
    by (simp_all add: pads)
  have at: "?p ! 40 = msg_type m" "?p ! 41 = price_is_float m" "drop 42 ?p = write_u16 (table_id m) @ ?t"
    by (simp_all add: nth_append pads)
  have u16: "read_u16 (write_u16 v @ q) = Some v" for v q by (simp add: write_u16_def u16_bytes)
  have "64 \<le> length ?p" unfolding p [symmetric] by simp
  with assms show ?thesis
    unfolding p tick_of_bytes_def d at u16
    by (simp only: read_u64_write proto_read_i64_write proto_read_u32_write option.sel tick_ok_def not_less [symmetric] if_False) simp
qed

lemma drop_concat_const:
  assumes "\<And>i. length (f i) = k" "i \<le> n"
  shows "drop (k * i) (concat (map f [0..<n])) = concat (map f [i..<n])"
proof -
  have "[0..<n] = [0..<i] @ [i..<n]" using assms(2) by (intro upt_split) auto
  moreover have "length (concat (map f [0..<i])) = k * i"
    by (simp add: length_concat comp_def assms(1) sum_list_triv)
  ultimately show ?thesis by simp
qed

lemma wal_batch_roundtrip:
  assumes "length msgs < 2 ^ 32" "list_all tick_ok msgs"
  shows "deserialize_wal_batch (serialize_wal_batch pad msgs) out = (True, msgs)"
proof -
  let ?n = "length msgs" and ?enc = "\<lambda>i. serialize_tick (pad i) (msgs ! i)"
  have un: "unat (of_nat ?n :: u32) = ?n" "uint (of_nat ?n :: u32) = int ?n"
    using assms(1) by (rule unat_count, rule uint_count)
  have "tick_of_bytes (drop (64 * i) (concat (map ?enc [0..<?n]))) = Some (msgs ! i)" if "i < ?n" for i
    using that assms(2)
    by (subst drop_concat_const) (auto simp: upt_conv_Cons tick_of_bytes_write list_all_length)
  then have "map (\<lambda>i. the (tick_of_bytes (drop (4 + 64 * i) (proto_write_u32 (of_nat ?n) @ concat (map ?enc [0..<?n]))))) [0..<?n] = msgs"
    by (intro nth_equalityI) simp_all
  moreover have "length (concat (map ?enc [0..<?n])) = 64 * ?n"
    by (simp add: length_concat comp_def sum_list_triv)
  ultimately show ?thesis
    by (simp add: deserialize_wal_batch_def serialize_wal_batch_def Let_def un proto_read_u32_write)
qed

definition strip_string :: "TypedColumnValue \<Rightarrow> TypedColumnValue" where
  "strip_string col = col\<lparr>has_string_value := False, string_value := []\<rparr>"

text \<open>A column that is not marked as a string arrives without its string.\<close>

definition column_view :: "TypedColumnValue \<Rightarrow> TypedColumnValue" where
  "column_view col = (if has_string_value col then col else strip_string col)"

definition column_fits :: "TypedColumnValue \<Rightarrow> bool" where
  "column_fits col \<longleftrightarrow> length (tc_name col) + 22 < 2 ^ 32 \<and> in_i64 (tc_i64 col) \<and> length (string_value col) < 2 ^ 32"

definition row_fits :: "TypedRowMessage \<Rightarrow> bool" where
  "row_fits row \<longleftrightarrow> int (length (tr_columns row)) \<le> RPC_RESULT_MAX_COLUMNS \<and> in_i64 (tr_timestamp row) \<and>
     list_all column_fits (tr_columns row)"

lemma dt_column_run:
  assumes "column_fits col"
  shows "dt_column i (write_column col @ q, out) = Go (q, out\<lparr>tr_columns := tr_columns out @ [strip_string col]\<rparr>)"
proof -
  let ?n = "length (tc_name col)"
  have n: "?n < 2 ^ 32" and v: "in_i64 (tc_i64 col)" using assms by (simp_all add: column_fits_def)
  have "(of_nat ?n + 1 + 8 + 8 + 4 + 1 :: u32) = of_nat (?n + 22)" by simp
  then have len: "uint (of_nat ?n + 1 + 8 + 8 + 4 + 1 :: u32) = int (?n + 22)"
    using assms uint_count [of "?n + 22"] by (simp only: column_fits_def)
  show ?thesis
    unfolding dt_column_def write_column_def proto_write_str_def append_assoc prod.case wire
    by (simp only: length_write prod.case len uint_count [OF n] wire read_i64_write [OF v] append_Cons append_Nil)
      (simp add: strip_string_def)
qed

lemma fold_append_columns:
  "n \<le> length cols \<Longrightarrow> fold (\<lambda>i out. out\<lparr>tr_columns := tr_columns out @ [g (cols ! i)]\<rparr>) [0..<n] out =
    out\<lparr>tr_columns := tr_columns out @ map g (take n cols)\<rparr>"
  by (induction n) (auto simp: take_Suc_conv_app_nth)

lemma dt_columns_run:
  assumes "list_all column_fits cols" "tr_columns out = []"
  shows "flow_loop dt_column [0..<length cols] (concat (map write_column cols) @ q, out) =
    Go (q, out\<lparr>tr_columns := map strip_string cols\<rparr>)"
proof -
  have "flow_loop dt_column [0..<length cols] (concat (map (\<lambda>i. write_column (cols ! i)) [0..<length cols]) @ q, out) =
      Go (q, fold (\<lambda>i out. out\<lparr>tr_columns := tr_columns out @ [strip_string (cols ! i)]\<rparr>) [0..<length cols] out) \<and> True"
    by (rule flow_loop_run [where P = "\<lambda>_. True"]) (use assms dt_column_run in \<open>auto simp: list_all_length\<close>)
  then show ?thesis
    unfolding map_rows_nth [of write_column cols] by (simp add: fold_append_columns assms(2))
qed

lemma nth_fold_update:
  "distinct is \<Longrightarrow> list_all (\<lambda>c. c < length xs) is \<Longrightarrow> i < length xs \<Longrightarrow>
   fold (\<lambda>c xs. xs[c := g c (xs ! c)]) is xs ! i = (if i \<in> set is then g i (xs ! i) else xs ! i)"
  by (induction "is" arbitrary: xs) (auto simp: nth_list_update)

lemma length_fold_update: "length (fold (\<lambda>c xs. xs[c := g c (xs ! c)]) is xs) = length xs"
  by (induction "is" arbitrary: xs) auto

lemma dt_string_run:
  assumes "c < length (tr_columns out)" "length (tr_columns out) < 2 ^ 32" "length v < 2 ^ 32"
  shows "dt_string j (proto_write_u32 (of_nat c) @ proto_write_str v @ q, out) =
    Go (q, out\<lparr>tr_columns := (tr_columns out)[c := (tr_columns out ! c)\<lparr>string_value := v, has_string_value := True\<rparr>]\<rparr>)"
  using assms
  by (simp add: dt_string_def proto_write_str_def wire uint_count unat_count Let_def)

lemma fold_tr_columns:
  "fold (\<lambda>j out. out\<lparr>tr_columns := h j (tr_columns out)\<rparr>) js out = out\<lparr>tr_columns := fold h js (tr_columns out)\<rparr>"
  by (induction js arbitrary: out) auto

lemma fold_nth: "fold (\<lambda>j. F (L ! j)) [0..<length L] xs = fold F L xs"
  using fold_map [of F "(!) L" "[0..<length L]"] by (simp add: map_nth comp_def)

lemma dt_strings_run:
  assumes "length cols < 2 ^ 32" "list_all column_fits cols" "tr_columns out = map strip_string cols"
  shows "flow_loop dt_string [0..<length (string_columns cols)]
      (concat (map (\<lambda>i. proto_write_u32 (of_nat i) @ proto_write_str (string_value (cols ! i))) (string_columns cols)) @ q, out) =
    Go (q, out\<lparr>tr_columns := map column_view cols\<rparr>)"
proof -
  let ?L = "string_columns cols" and ?n = "length cols"
  let ?g = "\<lambda>c x. x\<lparr>string_value := string_value (cols ! c), has_string_value := True\<rparr>"
  let ?h = "\<lambda>j xs. xs[?L ! j := ?g (?L ! j) (xs ! (?L ! j))]"
  have L: "distinct ?L" "\<And>c. c \<in> set ?L \<longleftrightarrow> c < ?n \<and> has_string_value (cols ! c)" by (auto simp: string_columns_def)
  have run: "flow_loop dt_string [0..<length ?L]
      (concat (map (\<lambda>j. proto_write_u32 (of_nat (?L ! j)) @ proto_write_str (string_value (cols ! (?L ! j)))) [0..<length ?L]) @ q, out) =
      Go (q, fold (\<lambda>j out. out\<lparr>tr_columns := ?h j (tr_columns out)\<rparr>) [0..<length ?L] out) \<and>
      length (tr_columns (fold (\<lambda>j out. out\<lparr>tr_columns := ?h j (tr_columns out)\<rparr>) [0..<length ?L] out)) = ?n"
  proof (rule flow_loop_run [where P = "\<lambda>out. length (tr_columns out) = ?n"])
    fix j q and out :: TypedRowMessage
    assume j: "j < length ?L" and len: "length (tr_columns out) = ?n"
    then have c: "?L ! j < ?n" using L(2) [of "?L ! j"] by simp
    then have "length (string_value (cols ! (?L ! j))) < 2 ^ 32" using assms(2) by (simp add: list_all_length column_fits_def)
    with dt_string_run [of "?L ! j" out] c len assms(1)
    show "dt_string j ((proto_write_u32 (of_nat (?L ! j)) @ proto_write_str (string_value (cols ! (?L ! j)))) @ q, out) =
        Go (q, out\<lparr>tr_columns := ?h j (tr_columns out)\<rparr>) \<and> length (tr_columns (out\<lparr>tr_columns := ?h j (tr_columns out)\<rparr>)) = ?n"
      by simp
  qed (use assms(3) in simp_all)
  have 1: "fold ?h [0..<length ?L] xs = fold (\<lambda>c xs. xs[c := ?g c (xs ! c)]) ?L xs" for xs
    by (rule fold_nth)
  have 2: "fold (\<lambda>c xs. xs[c := ?g c (xs ! c)]) ?L (map strip_string cols) = map column_view cols"
  proof (rule nth_equalityI)
    have len: "length (fold (\<lambda>c xs. xs[c := ?g c (xs ! c)]) ?L (map strip_string cols)) = ?n"
      using length_fold_update [of ?g ?L "map strip_string cols"] by simp
    then show "length (fold (\<lambda>c xs. xs[c := ?g c (xs ! c)]) ?L (map strip_string cols)) = length (map column_view cols)"
      by simp
    fix i assume "i < length (fold (\<lambda>c xs. xs[c := ?g c (xs ! c)]) ?L (map strip_string cols))"
    then have i: "i < ?n" using len by simp
    have "list_all (\<lambda>c. c < length (map strip_string cols)) ?L" using L(2) by (simp add: list_all_iff)
    from nth_fold_update [OF L(1) this, of i ?g] i L(2) [of i]
    show "fold (\<lambda>c xs. xs[c := ?g c (xs ! c)]) ?L (map strip_string cols) ! i = map column_view cols ! i"
      by (simp add: column_view_def strip_string_def)
  qed
  have 3: "fold (\<lambda>j out. out\<lparr>tr_columns := ?h j (tr_columns out)\<rparr>) [0..<length ?L] out =
      out\<lparr>tr_columns := fold ?h [0..<length ?L] (tr_columns out)\<rparr>"
    by (rule fold_tr_columns)
  show ?thesis
    unfolding map_rows_nth [of _ ?L] using conjunct1 [OF run] by (simp only: 3 assms(3) 1 2)
qed

lemma dt_header_run:
  assumes "int n \<le> RPC_RESULT_MAX_COLUMNS" "in_i64 ts" "n * 26 \<le> length q"
  shows "dt_header (proto_write_u32 (ucast (tab :: u16)) @ proto_write_u32 symbol @ proto_write_i64 ts @
      proto_write_u32 (of_nat n) @ q) out =
    Go (of_nat n, q, out\<lparr>tr_timestamp := ts, tr_table_id := tab, tr_symbol_id := symbol, tr_columns := []\<rparr>)"
proof -
  have n: "n < 2 ^ 32" using assms(1) by (simp add: RPC_RESULT_MAX_COLUMNS_def)
  have "uint tab < 65536" using unsigned_less [of tab] by simp
  then have t: "uint (ucast tab :: u32) = uint tab" "uint tab \<le> 65535"
    by (simp_all add: unsigned_ucast_eq take_bit_int_eq_self)
  have tt: "ucast (ucast tab :: u32) = tab" by (rule bit_word_eqI) (simp add: bit_ucast_iff)
  have "int n \<le> int (length q) div 26" using assms(3) by linarith
  with assms n t tt show ?thesis
    by (simp add: dt_header_def wire uint_count Let_def)
qed

lemma length_columns: "length cols * 26 \<le> length (concat (map write_column cols))"
  by (induction cols) (simp_all add: write_column_def proto_write_str_def)

lemma typed_row_roundtrip:
  assumes "row_fits row"
  shows "deserialize_typed_row (serialize_typed_row row) out = Some (True, row\<lparr>tr_columns := map column_view (tr_columns row)\<rparr>)"
proof -
  let ?cols = "tr_columns row" and ?L = "string_columns (tr_columns row)"
  let ?n = "length ?cols" and ?k = "length (string_columns (tr_columns row))"
  have f: "int ?n \<le> RPC_RESULT_MAX_COLUMNS" "in_i64 (tr_timestamp row)" "list_all column_fits ?cols"
    using assms by (simp_all add: row_fits_def)
  have n: "?n < 2 ^ 32" using f(1) by (simp add: RPC_RESULT_MAX_COLUMNS_def)
  have kn: "?k \<le> ?n" by (simp add: string_columns_def length_filter_le [of _ "[0..<?n]", simplified])
  then have k: "?k < 2 ^ 32" using n by simp
  let ?o1 = "out\<lparr>tr_timestamp := tr_timestamp row, tr_table_id := tr_table_id row, tr_symbol_id := tr_symbol_id row, tr_columns := []\<rparr>"
  let ?o2 = "?o1\<lparr>tr_columns := map strip_string ?cols\<rparr>"
  let ?hd = "\<lambda>q. proto_write_u32 (ucast (tr_table_id row)) @ proto_write_u32 (tr_symbol_id row) @
    proto_write_i64 (tr_timestamp row) @ proto_write_u32 (of_nat ?n) @ concat (map write_column ?cols) @ q"
  have hd: "dt_header (?hd q) out = Go (of_nat ?n, concat (map write_column ?cols) @ q, ?o1)" for q
    using dt_header_run [OF f(1,2)] length_columns [of ?cols] by simp
  have cols: "flow_loop dt_column [0..<?n] (concat (map write_column ?cols) @ q, ?o1) = Go (q, ?o2)" for q
    by (rule dt_columns_run [OF f(3)]) simp
  have fin: "?o1\<lparr>tr_columns := map column_view ?cols\<rparr> = row\<lparr>tr_columns := map column_view ?cols\<rparr>" by simp
  show ?thesis
  proof (cases "?k = 0")
    case True
    then have "map strip_string ?cols = map column_view ?cols"
      by (auto simp: string_columns_def filter_empty_conv column_view_def in_set_conv_nth)
    with True show ?thesis
      using hd [of "[]"] cols [of "[]"] fin unfolding deserialize_typed_row_def serialize_typed_row_def Let_def
      by (simp add: unat_count [OF n] dt_tail_def)
  next
    case False
    let ?tl = "concat (map (\<lambda>i. proto_write_u32 (of_nat i) @ proto_write_str (string_value (?cols ! i))) ?L)"
    have nz: "(of_nat ?k :: u32) \<noteq> 0" using False unat_count [OF k] by (metis unat_0)
    have le: "\<not> (of_nat ?k :: u32) > of_nat ?n" using kn by (simp add: word_less_nat_alt unat_count [OF n] unat_count [OF k])
    have "length is * 8 \<le> length (concat (map (\<lambda>i. proto_write_u32 (of_nat i) @ proto_write_str (string_value (?cols ! i))) is))"
      for "is" by (induction "is") (simp_all add: proto_write_str_def)
    then have "?k * 8 \<le> length ?tl" .
    then have "int ?k \<le> int (length ?tl) div 8" by linarith
    then have room: "\<not> int ?k > int (length ?tl) div (2 * 4)" by simp
    have ser: "serialize_typed_row row = ?hd (proto_write_u32 (of_nat ?k) @ ?tl)"
      using nz by (simp add: serialize_typed_row_def Let_def)
    have ne: "proto_write_u32 (of_nat ?k) @ ?tl \<noteq> []" by (simp add: proto_write_u32_def)
    have "dt_tail (of_nat ?n) (proto_write_u32 (of_nat ?k) @ ?tl, ?o2) = flow_loop dt_string [0..<?k] (?tl, ?o2)"
      unfolding dt_tail_def prod.case using ne le room
      by (simp only: wire uint_count [OF k] unat_count [OF k] prod.case if_False) simp
    also have "\<dots> = Go ([], ?o2\<lparr>tr_columns := map column_view ?cols\<rparr>)"
      using dt_strings_run [OF n f(3), of ?o2 "[]"] by simp
    finally show ?thesis
      unfolding deserialize_typed_row_def ser hd
      by (simp add: cols unat_count [OF n])
  qed
qed

section \<open>Properties\<close>

text \<open>
  C11. Round trip of query results. Decoding the encoding of any result within the protocol's limits gives back its
  error text, its column names and types, all its cells and its decoded strings: what was sent, with missing types
  and cells filled in and symbol codes resolved.
\<close>

theorem result_roundtrip:
  assumes "wire_fits r"
  shows "deserialize_result (Some (serialize_result r)) = Some (wire_view r)"
  using assms by (rule deserialize_serialize)

definition result_demo :: QueryResultSet where
  "result_demo = \<lparr>column_names = [''sym'', ''price''], column_types = [SYMBOL, INT64], rows = [[0, -5], [1]],
     string_rows = [], symbol_dict = Some (snd (intern ''B'' (snd (intern ''A'' dict_new)))), qerror = []\<rparr>"

theorem result_roundtrip_witness:
  "deserialize_result (Some (serialize_result result_demo)) =
   Some \<lparr>column_names = [''sym'', ''price''], column_types = [SYMBOL, INT64], rows = [[0, -5], [1, 0]],
     string_rows = [''A'', ''B''], symbol_dict = None, qerror = []\<rparr>"
proof -
  have strs: "decoded_strings result_demo 2 = [''A'', ''B'']" by code_simp
  have "wire_fits result_demo"
    unfolding wire_fits_def Let_def
    by (simp add: strs result_demo_def numeral_2_eq_2 [symmetric] RPC_RESULT_MAX_COLUMNS_def RPC_RESULT_MAX_ROWS_def
        RPC_RESULT_MAX_STRING_CELLS_def in_i64_def INT64_MIN_def INT64_MAX_def)
      (simp add: strs [unfolded result_demo_def, simplified])
  moreover have "wire_view result_demo =
     \<lparr>column_names = [''sym'', ''price''], column_types = [SYMBOL, INT64], rows = [[0, -5], [1, 0]],
     string_rows = [''A'', ''B''], symbol_dict = None, qerror = []\<rparr>" by code_simp
  ultimately show ?thesis using result_roundtrip by simp
qed

text \<open>
  C12. Every received result buffer is decoded safely: whatever the bytes, no read and no store leaves its bounds, and
  the result is well formed and within the limits (as many types as names, every row as wide as the header says).
\<close>

theorem result_decoding_safe: "\<exists>r. deserialize_result data = Some r \<and> qrs_ok r"
  by (rule deserialize_result_ok)

text \<open>
  C29. Round trip of typed rows and of replication batches, and of metrics requests: decoding what was encoded gives
  it back, whatever the padding bytes are.
\<close>

theorem row_and_batch_roundtrip:
  assumes "row_fits row" "length msgs < 2 ^ 32" "list_all tick_ok msgs" "in_i64 since_ms"
  shows "deserialize_typed_row (serialize_typed_row row) out =
      Some (True, row\<lparr>tr_columns := map column_view (tr_columns row)\<rparr>) \<and>
    deserialize_wal_batch (serialize_wal_batch pad msgs) out' = (True, msgs) \<and>
    (\<forall>m \<in> set msgs. deserialize_tick (serialize_tick (pad 0) m) m' = (True, m)) \<and>
    deserialize_metrics_request (serialize_metrics_request since_ms limit) = Some (since_ms, limit)"
proof -
  have "deserialize_tick (serialize_tick (pad 0) m) m' = (True, m)" if "m \<in> set msgs" for m
    using tick_of_bytes_write [of m "pad 0" "[]"] that assms(3) by (simp add: deserialize_tick_def list_all_iff)
  moreover have "deserialize_metrics_request (serialize_metrics_request since_ms limit) = Some (since_ms, limit)"
    using proto_read_u32_write [of limit "[]"]
    by (simp add: deserialize_metrics_request_def serialize_metrics_request_def proto_read_i64_write [OF assms(4)])
  ultimately show ?thesis using typed_row_roundtrip [OF assms(1)] wal_batch_roundtrip [OF assms(2,3)] by blast
qed

definition row_demo :: TypedRowMessage where
  "row_demo = \<lparr>tr_table_id = 3, tr_symbol_id = 7, tr_timestamp = -1, tr_columns =
     [\<lparr>tc_name = ''note'', tc_type = 7, tc_i64 = 0, tc_f64 = 0, tc_u32 = 0, tc_u8 = 0, has_string_value = True, string_value = ''hi''\<rparr>,
      \<lparr>tc_name = ''qty'', tc_type = 1, tc_i64 = 42, tc_f64 = 0, tc_u32 = 0, tc_u8 = 0, has_string_value = False, string_value = []\<rparr>]\<rparr>"

theorem row_and_batch_roundtrip_witness:
  "deserialize_typed_row (serialize_typed_row row_demo) row_demo = Some (True, row_demo) \<and>
   deserialize_wal_batch (serialize_wal_batch (\<lambda>_ _. 0) [tick_demo 5]) [] = (True, [tick_demo 5])"
proof -
  have "row_fits row_demo"
    by (simp add: row_fits_def row_demo_def column_fits_def RPC_RESULT_MAX_COLUMNS_def in_i64_def INT64_MIN_def INT64_MAX_def)
  moreover have "list_all tick_ok [tick_demo 5]" by (simp add: tick_ok_def tick_demo_def in_i64_def INT64_MIN_def INT64_MAX_def)
  moreover have "in_i64 0" by (simp add: in_i64_def INT64_MIN_def INT64_MAX_def)
  moreover have "row_demo\<lparr>tr_columns := map column_view (tr_columns row_demo)\<rparr> = row_demo"
    by (simp add: row_demo_def column_view_def strip_string_def)
  ultimately show ?thesis
    using row_and_batch_roundtrip [of row_demo "[tick_demo 5]" 0 row_demo "\<lambda>_ _. 0" "[]"] by simp
qed

text \<open>
  C35. Decoding a typed row is not safe: the length check adds the name length to 22 in 32-bit arithmetic, so that a
  name length of 2 to the 32 minus 22 passes it, and the decoder reads four gigabytes from a buffer of 46 bytes.
\<close>

theorem typed_row_overread:
  "deserialize_typed_row (proto_write_u32 3 @ proto_write_u32 7 @ proto_write_i64 0 @ proto_write_u32 1 @
     proto_write_u32 0xFFFFFFEA @ replicate 22 0) out = None"
proof -
  let ?q = "proto_write_u32 0xFFFFFFEA @ replicate 22 0"
  have "dt_header (proto_write_u32 (ucast (3 :: u16)) @ proto_write_u32 7 @ proto_write_i64 0 @ proto_write_u32 (of_nat 1) @ ?q) out =
    Go (of_nat 1, ?q, out\<lparr>tr_timestamp := 0, tr_table_id := 3, tr_symbol_id := 7, tr_columns := []\<rparr>)"
    by (rule dt_header_run) (simp_all add: RPC_RESULT_MAX_COLUMNS_def in_i64_def INT64_MIN_def INT64_MAX_def)
  moreover have "dt_column 0 (?q, o1) = UB" for o1
    by (simp add: dt_column_def wire) (simp add: need_def read_str_def)
  ultimately show ?thesis by (simp add: deserialize_typed_row_def)
qed

end
