(* ===== verification/Sql_Ast.thy ===== *)
theory Sql_Ast
  imports Zepto_Prelude
begin

text \<open>
  The syntax trees of the SQL parser, \<^verbatim>\<open>src/include/zeptodb/sql/ast.h\<close>. A structure whose fields depend on its
  \<^verbatim>\<open>kind\<close> is a datatype with one constructor per kind, holding the fields that kind uses; an optional field or
  a pointer that may be null is an option. \<open>'f\<close> is the type of \<^verbatim>\<open>double\<close>. The recursive structures separate their
  plain fields, a record, from the fields that hold further trees.
\<close>

section \<open>Functions and frames\<close>

datatype AggFunc =
    AGG_NONE | AGG_COUNT | AGG_SUM | AGG_AVG | AGG_MIN | AGG_MAX | AGG_VWAP | AGG_FIRST | AGG_LAST | AGG_XBAR
  | AGG_STDDEV | AGG_VARIANCE | AGG_MEDIAN | AGG_PERCENTILE

datatype WinFunc =
    WF_NONE | WF_ROW_NUMBER | WF_RANK | WF_DENSE_RANK | WF_SUM | WF_AVG | WF_MIN | WF_MAX | WF_LAG | WF_LEAD
  | WF_EMA | WF_DELTA | WF_RATIO

datatype WJAggFunc = WJ_NONE | WJ_AVG | WJ_SUM | WJ_COUNT | WJ_MIN | WJ_MAX

text \<open>Lists of columns and of their table aliases are kept together as pairs of alias and column.\<close>

record WindowSpec =
  partition_by :: "(string \<times> string) list"
  win_order_by :: "((string \<times> string) \<times> bool) list"
  has_frame :: bool
  preceding :: i64
  following :: i64

definition WindowSpec_default :: WindowSpec where
  "WindowSpec_default = \<lparr>partition_by = [], win_order_by = [], has_frame = False, preceding = INT64_MAX, following = 0\<rparr>"

section \<open>Value expressions\<close>

datatype ArithOp = ADD | SUB | MUL | DIV

text \<open>
  \<open>A_LITERAL\<close> has the integer, the floating-point value and whether the literal is a floating-point one;
  \<open>A_FUNC\<close> the name, the unit, the first and second argument and the list of arguments of a call.
\<close>

datatype 'f ArithExpr =
    A_COLUMN string string
  | A_LITERAL i64 'f bool
  | A_BINARY ArithOp "'f ArithExpr" "'f ArithExpr"
  | A_FUNC string string "'f ArithExpr option" "'f ArithExpr option" "'f ArithExpr list"

datatype CompareOp = CMP_EQ | CMP_NE | CMP_GT | CMP_LT | CMP_GE | CMP_LE

text \<open>The left side of a condition, a column or a value expression, and the right side of a comparison.\<close>

datatype 'f Lhs = LhsCol string string | LhsExpr "'f ArithExpr"

datatype 'f Value = ValInt i64 | ValFloat 'f i64 | ValStr string | ValExpr "'f ArithExpr"

section \<open>Clauses\<close>

record JoinCondition =
  left_alias :: string
  left_col :: string
  join_op :: CompareOp
  right_alias :: string
  right_col :: string

datatype JoinClauseType = J_INNER | J_ASOF | J_LEFT | J_RIGHT | J_FULL | J_WINDOW | J_UNION | J_PLUS | J_AJ0

record JoinClause =
  join_type :: JoinClauseType
  join_table :: string
  join_alias :: string
  on_conditions :: "JoinCondition list"
  wj_left_time_col :: string
  wj_right_time_col :: string
  wj_window_before :: i64
  wj_window_after :: i64

text \<open>One entry of GROUP BY: alias, column, XBAR bucket and DATE_TRUNC bucket, 0 where unused.\<close>

record GroupByItem =
  gb_alias :: string
  gb_column :: string
  gb_xbar_bucket :: i64
  gb_date_trunc_bucket :: i64

record OrderByItem =
  ob_alias :: string
  ob_column :: string
  ob_asc :: bool

text \<open>The fields of a SELECT list entry other than its CASE expression, and their defaults.\<close>

record 'f SelectItem =
  agg :: AggFunc
  agg_distinct :: bool
  table_alias :: string
  column :: string
  agg_arg2 :: string
  item_alias :: string
  is_star :: bool
  xbar_bucket :: i64
  percentile_value :: i64
  wj_agg :: WJAggFunc
  window_func :: WinFunc
  window_offset :: i64
  window_default :: i64
  ema_alpha :: 'f
  ema_period :: i64
  window_spec :: "WindowSpec option"
  arith_expr :: "'f ArithExpr option"

definition SelectItem_default :: "('f, 'z) fp_ops_scheme \<Rightarrow> 'f SelectItem" where
  "SelectItem_default D = \<lparr>agg = AGG_NONE, agg_distinct = False, table_alias = [], column = [], agg_arg2 = [], item_alias = [],
     is_star = False, xbar_bucket = 0, percentile_value = 50, wj_agg = WJ_NONE, window_func = WF_NONE,
     window_offset = 1, window_default = 0, ema_alpha = fp_of_int D 0, ema_period = 0, window_spec = None,
     arith_expr = None\<rparr>"

text \<open>The fields of a SELECT other than the expressions and subqueries in it.\<close>

record 'f SelectCore =
  distinct_rows :: bool
  from_table :: string
  from_alias :: string
  join :: "JoinClause option"
  group_by :: "GroupByItem list option"
  order_by :: "OrderByItem list option"
  limit :: "i64 option"
  offset :: "i64 option"
  sample_rate :: "'f option"

section \<open>Conditions and SELECT\<close>

text \<open>
  A condition that is always true is a null pointer in the source, so the parts of AND, OR and NOT and the
  conditions of CASE, WHERE and HAVING are options.
\<close>

datatype 'f Expr =
    E_COMPARE "'f Lhs" CompareOp "'f Value"
  | E_BETWEEN "'f Lhs" i64 i64
  | E_AND "'f Expr option" "'f Expr option"
  | E_OR "'f Expr option" "'f Expr option"
  | E_NOT "'f Expr option"
  | E_IN string string "i64 list"
  | E_IS_NULL string string bool
  | E_LIKE string string bool string
  | E_SCALAR_SUBQUERY string string CompareOp "'f SelectStmt"
  | E_IN_SUBQUERY string string "'f SelectStmt"
and 'f CaseWhenExpr =
    CaseWhenExpr "('f Expr option \<times> 'f ArithExpr) list" "'f ArithExpr option"
and 'f SelectExpr =
    SelectExpr "'f SelectItem" "'f CaseWhenExpr option"
and 'f SelectStmt =
    SelectStmt "'f SelectCore" "'f SelectExpr list" "'f SelectStmt option" "'f Expr option option" "'f Expr option option"

section \<open>Statements\<close>

datatype SetOp = SO_NONE | SO_UNION_ALL | SO_UNION_DISTINCT | SO_INTERSECT | SO_EXCEPT

text \<open>
  The fields of a SELECT that are set for a whole statement only: the CTE definitions, the EXPLAIN flag and the set
  operation with its right-hand side.
\<close>

record 'f SelectQuery =
  cte_defs :: "(string \<times> 'f SelectStmt) list"
  explain :: bool
  select :: "'f SelectStmt"
  set_op :: SetOp
  rhs :: "'f SelectStmt option"

record DdlColumnDef =
  ddl_column :: string
  type_str :: string

record CreateTableStmt =
  ct_table_name :: string
  ct_columns :: "DdlColumnDef list"
  if_not_exists :: bool
  placement_policy :: "string option"
  placement_node_id :: "u32 option"

record DropTableStmt =
  dt_table_name :: string
  if_exists :: bool

datatype AlterAction =
    ADD_COLUMN DdlColumnDef
  | DROP_COLUMN string
  | SET_TTL i64 string
  | SET_ATTRIBUTE string string
  | SET_STORAGE_POLICY i64 i64 i64

record AlterTableStmt =
  at_table_name :: string
  action :: AlterAction

datatype 'f InsertValue = IV_INT i64 | IV_FLOAT 'f | IV_STRING string

record 'f InsertStmt =
  ins_table_name :: string
  ins_columns :: "string list"
  value_rows :: "'f InsertValue list list"

record 'f UpdateStmt =
  upd_table_name :: string
  assignments :: "(string \<times> i64) list"
  upd_where :: "'f Expr option option"

record 'f DeleteStmt =
  del_table_name :: string
  del_where :: "'f Expr option option"

datatype 'f ParsedStatement =
    PS_SELECT "'f SelectQuery"
  | PS_CREATE_TABLE CreateTableStmt
  | PS_DROP_TABLE DropTableStmt
  | PS_ALTER_TABLE AlterTableStmt
  | PS_INSERT "'f InsertStmt"
  | PS_UPDATE "'f UpdateStmt"
  | PS_DELETE "'f DeleteStmt"
  | PS_CREATE_MV string "'f SelectStmt"
  | PS_DROP_MV string
  | PS_SHOW_TABLES
  | PS_DESCRIBE_TABLE string

end
