(* ===== verification/Sql_Tokenizer.thy ===== *)
theory Sql_Tokenizer
  imports Zepto_Prelude
begin

text \<open>
  The SQL tokenizer, \<^verbatim>\<open>src/src/sql/tokenizer.cpp\<close>. The position \<^verbatim>\<open>pos_\<close> is represented by the rest of the
  text from it; the loops that append characters while a condition holds are prefixes and suffixes of that rest.
  Character classes are those of the C locale, on byte values.
\<close>

section \<open>Characters\<close>

definition code :: "char \<Rightarrow> nat" where
  "code c = of_char c"

definition isdigit :: "char \<Rightarrow> bool" where
  "isdigit c \<longleftrightarrow> 48 \<le> code c \<and> code c \<le> 57"

definition isalpha :: "char \<Rightarrow> bool" where
  "isalpha c \<longleftrightarrow> 65 \<le> code c \<and> code c \<le> 90 \<or> 97 \<le> code c \<and> code c \<le> 122"

definition isalnum :: "char \<Rightarrow> bool" where
  "isalnum c \<longleftrightarrow> isalpha c \<or> isdigit c"

definition isspace :: "char \<Rightarrow> bool" where
  "isspace c \<longleftrightarrow> code c = 32 \<or> 9 \<le> code c \<and> code c \<le> 13"

definition toupper :: "char \<Rightarrow> char" where
  "toupper c = (if 97 \<le> code c \<and> code c \<le> 122 then char_of (code c - 32) else c)"

section \<open>Tokens\<close>

text \<open>
  The keyword enumerators are \<open>Kw\<close> with the enumerator's name; operators, literals and the end have their own
  constructors.
\<close>

datatype TokenType =
    Kw string
  | GT | LT | GE | LE | EQ | NE | PLUS | MINUS | SLASH
  | COMMA | DOT | LPAREN | RPAREN | STAR
  | IDENT | NUMBER | STRINGLIT | END

record Token =
  token_type :: TokenType
  token_value :: string

definition tok :: "TokenType \<Rightarrow> string \<Rightarrow> Token" where
  "tok t v = \<lparr>token_type = t, token_value = v\<rparr>"

definition keyword_table :: "(string \<times> string) list" where
  "keyword_table = [
    (''SELECT'', ''SELECT''), (''FROM'', ''FROM''), (''WHERE'', ''WHERE''), (''JOIN'', ''JOIN''),
    (''ASOF'', ''ASOF''), (''ON'', ''ON''), (''AND'', ''AND''), (''OR'', ''OR''), (''NOT'', ''NOT''),
    (''IN'', ''IN''), (''IS'', ''IS''), (''NULL'', ''NULL_KW''), (''GROUP'', ''GROUP''), (''BY'', ''BY''),
    (''ORDER'', ''ORDER''), (''LIMIT'', ''LIMIT''), (''OFFSET'', ''OFFSET''), (''BETWEEN'', ''BETWEEN''),
    (''HAVING'', ''HAVING''), (''AS'', ''AS''), (''DISTINCT'', ''DISTINCT''), (''INNER'', ''INNER''),
    (''LEFT'', ''LEFT''), (''RIGHT'', ''RIGHT''), (''OUTER'', ''OUTER''), (''CROSS'', ''CROSS''), (''ASC'', ''ASC''),
    (''DESC'', ''DESC''), (''NULLS'', ''NULLS''), (''FIRST'', ''FIRST''), (''LAST'', ''LAST''), (''SUM'', ''SUM''),
    (''AVG'', ''AVG''), (''COUNT'', ''COUNT''), (''MIN'', ''MIN''), (''MAX'', ''MAX''), (''VWAP'', ''VWAP''),
    (''STDDEV'', ''STDDEV''), (''VARIANCE'', ''VARIANCE''), (''MEDIAN'', ''MEDIAN''),
    (''PERCENTILE'', ''PERCENTILE''), (''PERCENTILE_CONT'', ''PERCENTILE''), (''OVER'', ''OVER''),
    (''PARTITION'', ''PARTITION''), (''ROWS'', ''ROWS''), (''RANGE'', ''RANGE''), (''PRECEDING'', ''PRECEDING''),
    (''FOLLOWING'', ''FOLLOWING''), (''UNBOUNDED'', ''UNBOUNDED''), (''CURRENT'', ''CURRENT''), (''ROW'', ''ROW''),
    (''RANK'', ''RANK''), (''DENSE_RANK'', ''DENSE_RANK''), (''ROW_NUMBER'', ''ROW_NUMBER''), (''LAG'', ''LAG''),
    (''LEAD'', ''LEAD''), (''XBAR'', ''XBAR''), (''EMA'', ''EMA''), (''DELTA'', ''DELTA''), (''RATIO'', ''RATIO''),
    (''WINDOW'', ''WINDOW''), (''CASE'', ''CASE''), (''WHEN'', ''WHEN''), (''THEN'', ''THEN''), (''ELSE'', ''ELSE''),
    (''END'', ''CASE_END''), (''DATE_TRUNC'', ''DATE_TRUNC''), (''NOW'', ''NOW''), (''EPOCH_S'', ''EPOCH_S''),
    (''EPOCH_MS'', ''EPOCH_MS''), (''LIKE'', ''LIKE''), (''SUBSTR'', ''SUBSTR''), (''FULL'', ''FULL''),
    (''PLUS'', ''PLUS_JOIN''), (''AJ0'', ''AJ0''), (''EXPLAIN'', ''EXPLAIN''), (''INTERVAL'', ''INTERVAL''),
    (''SAMPLE'', ''SAMPLE''), (''WITH'', ''WITH''), (''INSERT'', ''INSERT''), (''INTO'', ''INTO''),
    (''VALUES'', ''VALUES''), (''UPDATE'', ''UPDATE''), (''SET'', ''SET''), (''DELETE'', ''DELETE_KW''),
    (''MATERIALIZED'', ''MATERIALIZED''), (''VIEW'', ''VIEW''), (''UNION'', ''UNION''), (''ALL'', ''ALL''),
    (''INTERSECT'', ''INTERSECT''), (''EXCEPT'', ''EXCEPT'')]"

definition keyword_type :: "string \<Rightarrow> TokenType" where
  "keyword_type upper = (case map_of keyword_table upper of Some k \<Rightarrow> Kw k | None \<Rightarrow> IDENT)"

section \<open>Reading\<close>

definition peek :: "nat \<Rightarrow> string \<Rightarrow> char" where
  "peek offset s = (if offset < length s then s ! offset else CHR 0x00)"

definition skip_whitespace :: "string \<Rightarrow> string" where
  "skip_whitespace s = dropWhile isspace s"

definition number_char :: "char \<Rightarrow> bool" where
  "number_char c \<longleftrightarrow> isdigit c \<or> c = CHR ''.''"

definition read_number :: "string \<Rightarrow> Token \<times> string" where
  "read_number s = (tok NUMBER (takeWhile number_char s), dropWhile number_char s)"

text \<open>The body of a string literal after its opening quote; \<^term>\<open>None\<close> when the text ends first.\<close>

fun read_string :: "string \<Rightarrow> (string \<times> string) option" where
  "read_string [] = None"
| "read_string (c # s) =
     (if c = CHR 0x27
      then (case s of
              d # s' \<Rightarrow> if d = CHR 0x27 then map_option (\<lambda>(v, r). (CHR 0x27 # v, r)) (read_string s')
                        else Some ([], s)
            | [] \<Rightarrow> Some ([], []))
      else map_option (\<lambda>(v, r). (c # v, r)) (read_string s))"

definition ident_char :: "char \<Rightarrow> bool" where
  "ident_char c \<longleftrightarrow> isalnum c \<or> c = CHR ''_''"

definition read_ident_or_keyword :: "string \<Rightarrow> Token \<times> string" where
  "read_ident_or_keyword s =
     (let ident = takeWhile ident_char s
      in (tok (keyword_type (map toupper ident)) ident, dropWhile ident_char s))"

definition read_backtick :: "string \<Rightarrow> Token \<times> string" where
  "read_backtick s = (tok IDENT (takeWhile (\<lambda>c. c \<noteq> CHR 0x60) s), tl (dropWhile (\<lambda>c. c \<noteq> CHR 0x60) s))"

text \<open>The errors of the tokenizer; the number is the position reported in the message.\<close>

datatype tok_error = UnterminatedString | UnexpectedChar char nat

text \<open>
  The operators: \<open>c\<close> is the consumed character and \<open>s\<close> the rest. \<open>pos\<close> computes the position of a rest.
\<close>

definition read_operator :: "(string \<Rightarrow> nat) \<Rightarrow> char \<Rightarrow> string \<Rightarrow> tok_error + (Token \<times> string)" where
  "read_operator pos c s =
     (if c = CHR '','' then Inr (tok COMMA '','', s)
      else if c = CHR ''.'' then Inr (tok DOT ''.'', s)
      else if c = CHR ''('' then Inr (tok LPAREN ''('', s)
      else if c = CHR '')'' then Inr (tok RPAREN '')'', s)
      else if c = CHR ''*'' then Inr (tok STAR ''*'', s)
      else if c = CHR ''+'' then Inr (tok PLUS ''+'', s)
      else if c = CHR ''-'' then Inr (tok MINUS ''-'', s)
      else if c = CHR ''/'' then Inr (tok SLASH ''/'', s)
      else if c = CHR ''='' then Inr (tok EQ ''='', s)
      else if c = CHR ''>'' then
        (if s \<noteq> [] \<and> peek 0 s = CHR ''='' then Inr (tok GE ''>='', tl s) else Inr (tok GT ''>'', s))
      else if c = CHR ''<'' then
        (if s \<noteq> [] \<and> peek 0 s = CHR ''='' then Inr (tok LE ''<='', tl s)
         else if s \<noteq> [] \<and> peek 0 s = CHR ''>'' then Inr (tok NE ''<>'', tl s)
         else Inr (tok LT ''<'', s))
      else if c = CHR ''!'' then
        (if s \<noteq> [] \<and> peek 0 s = CHR ''='' then Inr (tok NE ''!='', tl s) else Inl (UnexpectedChar c (pos s)))
      else Inl (UnexpectedChar c (pos s)))"

definition is_binary :: "Token list \<Rightarrow> bool" where
  "is_binary tokens \<longleftrightarrow> tokens \<noteq> [] \<and>
     (token_type (last tokens) = RPAREN \<or> token_type (last tokens) = NUMBER \<or> token_type (last tokens) = IDENT)"

lemma read_string_length: "read_string s = Some (v, r) \<Longrightarrow> length r < length s"
  by (induction s arbitrary: v rule: read_string.induct) (fastforce split: if_splits list.splits)+

lemma length_dropWhile_less: "s \<noteq> [] \<Longrightarrow> P (hd s) \<Longrightarrow> length (dropWhile P s) < length s"
  by (cases s) (auto simp: le_imp_less_Suc length_dropWhile_le)

lemma length_tl_dropWhile: "length (tl (dropWhile P s)) \<le> length s"
  by (metis diff_le_self le_trans length_dropWhile_le length_tl)

lemma read_operator_length: "read_operator pos c s = Inr (t, r) \<Longrightarrow> length r \<le> length s"
  by (auto simp: read_operator_def split: if_splits)

lemma skip_whitespace_length: "length (skip_whitespace s) \<le> length s"
  by (simp add: skip_whitespace_def length_dropWhile_le)

lemma skipped_rest:
  assumes "skip_whitespace s0 \<noteq> []"
  shows "length (tl (skip_whitespace s0)) < length s0"
  using assms skip_whitespace_length [of s0] by (cases "skip_whitespace s0") auto

text \<open>One round of the main loop, from the tokens so far and the rest.\<close>

function tokenize_loop :: "(string \<Rightarrow> nat) \<Rightarrow> Token list \<Rightarrow> string \<Rightarrow> tok_error + Token list" where
  "tokenize_loop pos tokens s0 =
     (let s = skip_whitespace s0
      in if s = [] then Inr (tokens @ [tok END []])
         else let c = peek 0 s
         in if c = CHR ''-'' \<and> peek 1 s = CHR ''-'' then tokenize_loop pos tokens (dropWhile (\<lambda>c. c \<noteq> CHR 0x0A) s)
         else if isdigit c then
           (case read_number s of (t, s) \<Rightarrow> tokenize_loop pos (tokens @ [t]) s)
         else if c = CHR ''-'' \<and> isdigit (peek 1 s) then
           (if is_binary tokens then tokenize_loop pos (tokens @ [tok MINUS ''-'']) (tl s)
            else (case read_number (tl s) of (t, s) \<Rightarrow>
                    tokenize_loop pos (tokens @ [t\<lparr>token_value := CHR ''-'' # token_value t\<rparr>]) s))
         else if c = CHR 0x27 then
           (case read_string (tl s) of
              None \<Rightarrow> Inl UnterminatedString
            | Some (v, s) \<Rightarrow> tokenize_loop pos (tokens @ [tok STRINGLIT v]) s)
         else if isalpha c \<or> c = CHR ''_'' then
           (case read_ident_or_keyword s of (t, s) \<Rightarrow> tokenize_loop pos (tokens @ [t]) s)
         else if c = CHR 0x60 then
           (case read_backtick (tl s) of (t, s) \<Rightarrow> tokenize_loop pos (tokens @ [t]) s)
         else case read_operator pos c (tl s) of
                Inl e \<Rightarrow> Inl e
              | Inr (t, s) \<Rightarrow> tokenize_loop pos (tokens @ [t]) s)"
  by pat_completeness auto

termination
proof (relation "measure (\<lambda>(pos, tokens, s). length s)", goal_cases)
  case (2 pos tokens s0 s c)
  then have "s \<noteq> []" "hd s \<noteq> CHR 0x0A" by (auto simp: peek_def hd_conv_nth split: if_splits)
  with length_dropWhile_less [of s "\<lambda>c. c \<noteq> CHR 0x0A"] 2(1) skip_whitespace_length [of s0] show ?case by simp
next
  case (3 pos tokens s0 s c t r)
  then have "s \<noteq> []" "number_char (hd s)" by (auto simp: peek_def hd_conv_nth number_char_def)
  with length_dropWhile_less [of s number_char] 3 skip_whitespace_length [of s0] show ?case by (simp add: read_number_def)
next
  case (5 pos tokens s0 s c t r)
  have "length (dropWhile number_char (tl s)) \<le> length (tl s)" by (rule length_dropWhile_le)
  moreover have "r = dropWhile number_char (tl s)" using 5 by (simp add: read_number_def)
  ultimately show ?case using 5(1,2) skipped_rest [of s0] by simp
next
  case (6 pos tokens s0 s c x v r)
  then show ?case using read_string_length [of "tl s" v r] skipped_rest [of s0] by simp
next
  case (7 pos tokens s0 s c t r)
  then have "s \<noteq> []" "ident_char (hd s)" by (auto simp: peek_def hd_conv_nth ident_char_def isalnum_def)
  with length_dropWhile_less [of s ident_char] 7 skip_whitespace_length [of s0] show ?case
    by (auto simp: read_ident_or_keyword_def Let_def)
next
  case (8 pos tokens s0 s c t r)
  then have "r = tl (dropWhile (\<lambda>c. c \<noteq> CHR 0x60) (tl s))" by (simp add: read_backtick_def)
  then show ?case using 8(1,2) length_tl_dropWhile [of "\<lambda>c. c \<noteq> CHR 0x60" "tl s"] skipped_rest [of s0] by simp
next
  case (9 pos tokens s0 s c x t r)
  then show ?case using read_operator_length [of pos c "tl s" t r] skipped_rest [of s0] by simp
qed (auto dest: skipped_rest)

definition tokenize :: "string \<Rightarrow> tok_error + Token list" where
  "tokenize sql = tokenize_loop (\<lambda>s. length sql - length s) [] sql"

declare tokenize_loop.simps [simp del]

section \<open>Spelling tokens\<close>

definition escape_quotes :: "string \<Rightarrow> string" where
  "escape_quotes v = concat (map (\<lambda>c. if c = CHR 0x27 then [CHR 0x27, CHR 0x27] else [c]) v)"

definition plain_ident :: "string \<Rightarrow> bool" where
  "plain_ident v \<longleftrightarrow> v \<noteq> [] \<and> (isalpha (hd v) \<or> hd v = CHR ''_'') \<and> list_all ident_char v"

definition number_text :: "string \<Rightarrow> bool" where
  "number_text v \<longleftrightarrow> v \<noteq> [] \<and> isdigit (hd v) \<and> list_all number_char v"

definition plain_name :: "string \<Rightarrow> bool" where
  "plain_name v \<longleftrightarrow> plain_ident v \<and> keyword_type (map toupper v) = IDENT"

definition spell :: "Token \<Rightarrow> string" where
  "spell t =
     (case token_type t of
        IDENT \<Rightarrow> if plain_name (token_value t) then token_value t else CHR 0x60 # token_value t @ [CHR 0x60]
      | STRINGLIT \<Rightarrow> CHR 0x27 # escape_quotes (token_value t) @ [CHR 0x27]
      | _ \<Rightarrow> token_value t)"

fun operator_text :: "TokenType \<Rightarrow> string list" where
  "operator_text GT = [''>'']" | "operator_text LT = [''<'']" | "operator_text GE = [''>='']"
| "operator_text LE = [''<='']" | "operator_text EQ = [''='']" | "operator_text NE = [''<>'', ''!='']"
| "operator_text PLUS = [''+'']" | "operator_text MINUS = [''-'']" | "operator_text SLASH = [''/'']"
| "operator_text COMMA = ['','']" | "operator_text DOT = [''.'']" | "operator_text LPAREN = [''('']"
| "operator_text RPAREN = ['')'']" | "operator_text STAR = [''*'']" | "operator_text _ = []"

text \<open>
  The tokens a source text can contain after the tokens \<open>prev\<close>: a negative literal only where a minus sign is not
  read as the binary operator.
\<close>

definition spellable :: "Token list \<Rightarrow> Token \<Rightarrow> bool" where
  "spellable prev t =
     (case token_type t of
        Kw k \<Rightarrow> plain_ident (token_value t) \<and> keyword_type (map toupper (token_value t)) = Kw k
      | IDENT \<Rightarrow> plain_name (token_value t) \<or> CHR 0x60 \<notin> set (token_value t)
      | NUMBER \<Rightarrow> number_text (token_value t) \<or>
                  (\<not> is_binary prev \<and> token_value t \<noteq> [] \<and> hd (token_value t) = CHR ''-'' \<and> number_text (tl (token_value t)))
      | STRINGLIT \<Rightarrow> True
      | ty \<Rightarrow> token_value t \<in> set (operator_text ty))"

fun spellable_all :: "Token list \<Rightarrow> Token list \<Rightarrow> bool" where
  "spellable_all prev [] = True"
| "spellable_all prev (t # ts) \<longleftrightarrow> spellable prev t \<and> spellable_all (prev @ [t]) ts"

definition unparse :: "Token list \<Rightarrow> string" where
  "unparse ts = concat (map (\<lambda>t. spell t @ '' '') ts)"

section \<open>Reading a spelling back\<close>

lemma code_eq: "c = d \<longleftrightarrow> code c = code d"
  by (simp add: code_def)

lemmas char_class = isdigit_def isalpha_def isalnum_def isspace_def number_char_def ident_char_def

lemma code_of: "code (CHR ''-'') = 45" "code (CHR '' '') = 32" "code (CHR ''.'') = 46" "code (CHR ''_'') = 95"
  "code (CHR 0x27) = 39" "code (CHR 0x60) = 96" "code (CHR 0x00) = 0"
  by (simp_all add: code_def)

lemma takeWhile_stop: "list_all P v \<Longrightarrow> \<not> P c \<Longrightarrow> takeWhile P (v @ c # r) = v \<and> dropWhile P (v @ c # r) = c # r"
  by (induction v) auto

lemma read_string_escape:
  "c \<noteq> CHR 0x27 \<Longrightarrow> read_string (escape_quotes v @ CHR 0x27 # c # r) = Some (v, c # r)"
  by (induction v) (auto simp: escape_quotes_def)

lemma tokenize_head:
  assumes "\<not> isspace c"
  shows "skip_whitespace (c # r) = c # r" "peek 0 (c # r) = c"
  using assms by (simp_all add: skip_whitespace_def peek_def)

lemma not_class:
  "isdigit c \<Longrightarrow> \<not> isspace c \<and> c \<noteq> CHR ''-''"
  "isalpha c \<or> c = CHR ''_'' \<Longrightarrow> \<not> isspace c \<and> c \<noteq> CHR ''-'' \<and> \<not> isdigit c \<and> c \<noteq> CHR 0x27"
  by (auto simp: code_eq [of c] code_of char_class)

lemma read_number_spelling:
  assumes "number_text v"
  shows "tokenize_loop pos acc (v @ CHR '' '' # r) = tokenize_loop pos (acc @ [tok NUMBER v]) (CHR '' '' # r)"
proof -
  obtain c cs where v: "v = c # cs" "isdigit c" using assms by (cases v) (auto simp: number_text_def)
  have "takeWhile number_char (v @ CHR '' '' # r) = v \<and> dropWhile number_char (v @ CHR '' '' # r) = CHR '' '' # r"
    using assms by (intro takeWhile_stop) (auto simp: number_text_def char_class code_of code_eq [of "CHR '' ''"])
  then have "read_number (v @ CHR '' '' # r) = (tok NUMBER v, CHR '' '' # r)" by (simp add: read_number_def)
  then show ?thesis
    using not_class(1) [OF v(2)] v(2) by (subst tokenize_loop.simps) (simp add: v(1) tokenize_head Let_def)
qed

lemma read_negative_spelling:
  assumes "number_text v" "\<not> is_binary acc"
  shows "tokenize_loop pos acc (CHR ''-'' # v @ CHR '' '' # r) =
    tokenize_loop pos (acc @ [tok NUMBER (CHR ''-'' # v)]) (CHR '' '' # r)"
proof -
  obtain c cs where v: "v = c # cs" "isdigit c" using assms by (cases v) (auto simp: number_text_def)
  have "takeWhile number_char (v @ CHR '' '' # r) = v \<and> dropWhile number_char (v @ CHR '' '' # r) = CHR '' '' # r"
    using assms by (intro takeWhile_stop) (auto simp: number_text_def char_class code_of code_eq [of "CHR '' ''"])
  then have num: "read_number (v @ CHR '' '' # r) = (tok NUMBER v, CHR '' '' # r)" by (simp add: read_number_def)
  have cls: "\<not> isspace (CHR ''-'')" "\<not> isdigit (CHR ''-'')" by (simp_all add: char_class code_of)
  have "peek 1 (CHR ''-'' # v @ CHR '' '' # r) = c" by (simp add: peek_def v(1))
  with num assms(2) cls not_class(1) [OF v(2)] v(2) show ?thesis
    by (subst tokenize_loop.simps) (simp add: tokenize_head Let_def tok_def)
qed

lemma read_word_spelling:
  assumes "plain_ident v"
  shows "tokenize_loop pos acc (v @ CHR '' '' # r) =
    tokenize_loop pos (acc @ [tok (keyword_type (map toupper v)) v]) (CHR '' '' # r)"
proof -
  obtain c cs where v: "v = c # cs" "isalpha c \<or> c = CHR ''_''" using assms by (cases v) (auto simp: plain_ident_def)
  have "takeWhile ident_char (v @ CHR '' '' # r) = v \<and> dropWhile ident_char (v @ CHR '' '' # r) = CHR '' '' # r"
    using assms by (intro takeWhile_stop) (auto simp: plain_ident_def char_class code_of code_eq [of "CHR '' ''"])
  then have "read_ident_or_keyword (v @ CHR '' '' # r) = (tok (keyword_type (map toupper v)) v, CHR '' '' # r)"
    by (simp add: read_ident_or_keyword_def Let_def)
  then show ?thesis
    using not_class(2) [OF v(2)] v(2) by (subst tokenize_loop.simps) (simp add: v(1) tokenize_head Let_def)
qed

lemma read_string_spelling:
  "tokenize_loop pos acc (CHR 0x27 # escape_quotes v @ CHR 0x27 # CHR '' '' # r) =
   tokenize_loop pos (acc @ [tok STRINGLIT v]) (CHR '' '' # r)"
proof -
  have "\<not> isspace (CHR 0x27)" "\<not> isdigit (CHR 0x27)" by (simp_all add: char_class code_of)
  moreover have "read_string (escape_quotes v @ CHR 0x27 # CHR '' '' # r) = Some (v, CHR '' '' # r)"
    by (rule read_string_escape) simp
  ultimately show ?thesis by (subst tokenize_loop.simps) (simp add: tokenize_head Let_def)
qed

lemma read_quoted_spelling:
  assumes "CHR 0x60 \<notin> set v"
  shows "tokenize_loop pos acc (CHR 0x60 # v @ CHR 0x60 # CHR '' '' # r) =
    tokenize_loop pos (acc @ [tok IDENT v]) (CHR '' '' # r)"
proof -
  have cls: "\<not> isspace (CHR 0x60)" "\<not> isdigit (CHR 0x60)" "\<not> isalpha (CHR 0x60)" by (simp_all add: char_class code_of)
  have "takeWhile (\<lambda>c. c \<noteq> CHR 0x60) (v @ CHR 0x60 # CHR '' '' # r) = v \<and>
      dropWhile (\<lambda>c. c \<noteq> CHR 0x60) (v @ CHR 0x60 # CHR '' '' # r) = CHR 0x60 # CHR '' '' # r"
    using assms by (intro takeWhile_stop) (auto simp: list_all_iff)
  then have "read_backtick (v @ CHR 0x60 # CHR '' '' # r) = (tok IDENT v, CHR '' '' # r)" by (simp add: read_backtick_def)
  with cls show ?thesis by (subst tokenize_loop.simps) (simp add: tokenize_head Let_def)
qed

lemma read_operator_spelling:
  assumes "v \<in> set (operator_text ty)"
  shows "tokenize_loop pos acc (v @ CHR '' '' # r) = tokenize_loop pos (acc @ [tok ty v]) (CHR '' '' # r)"
  using assms
  by (cases ty; auto; subst tokenize_loop.simps)
    (simp_all add: skip_whitespace_def peek_def Let_def read_operator_def isspace_def isdigit_def isalpha_def code_def)

lemma read_spelling:
  assumes "spellable acc t"
  shows "tokenize_loop pos acc (spell t @ CHR '' '' # r) = tokenize_loop pos (acc @ [t]) (CHR '' '' # r)"
proof -
  have t: "t = tok (token_type t) (token_value t)" by (simp add: tok_def)
  show ?thesis
  proof (cases "token_type t")
    case (Kw k)
    with assms read_word_spelling [of "token_value t"] t show ?thesis by (simp add: spellable_def spell_def)
  next
    case IDENT
    show ?thesis
    proof (cases "plain_name (token_value t)")
      case True
      then have "plain_ident (token_value t)" "keyword_type (map toupper (token_value t)) = IDENT"
        by (simp_all add: plain_name_def)
      with True IDENT read_word_spelling [of "token_value t"] t show ?thesis by (simp add: spell_def)
    next
      case False
      with assms IDENT have "CHR 0x60 \<notin> set (token_value t)" by (simp add: spellable_def)
      from read_quoted_spelling [OF this] False IDENT t show ?thesis by (simp add: spell_def)
    qed
  next
    case NUMBER
    show ?thesis
    proof (cases "number_text (token_value t)")
      case True
      from read_number_spelling [OF this] NUMBER t show ?thesis by (simp add: spell_def)
    next
      case False
      with assms NUMBER obtain v where "token_value t = CHR ''-'' # v" "number_text v" "\<not> is_binary acc"
        by (cases "token_value t") (auto simp: spellable_def)
      with read_negative_spelling [of v acc] NUMBER t show ?thesis by (simp add: spell_def)
    qed
  next
    case STRINGLIT
    with read_string_spelling [of pos acc "token_value t"] t show ?thesis by (simp add: spell_def)
  qed (use assms t read_operator_spelling [of "token_value t" "token_type t"] in \<open>simp_all add: spellable_def spell_def\<close>)
qed

lemma tokenize_loop_space: "tokenize_loop pos acc (CHR '' '' # r) = tokenize_loop pos acc r"
  by (subst (1 2) tokenize_loop.simps) (simp add: skip_whitespace_def isspace_def code_of)

lemma tokenize_loop_unparse:
  "spellable_all acc ts \<Longrightarrow> tokenize_loop pos acc (unparse ts) = Inr (acc @ ts @ [tok END []])"
proof (induction ts arbitrary: acc)
  case Nil
  show ?case by (subst tokenize_loop.simps) (simp add: unparse_def skip_whitespace_def)
next
  case (Cons t ts)
  have "unparse (t # ts) = spell t @ CHR '' '' # unparse ts" by (simp add: unparse_def)
  with Cons read_spelling [of acc t pos "unparse ts"] show ?case by (simp add: tokenize_loop_space)
qed

section \<open>Properties\<close>

text \<open>
  C13. Round trip of the tokenizer. Every stream of keywords in any case, names (quoted where needed), numbers, strings
  with any content, operators and delimiters has a spelling that the tokenizer reads back as exactly that stream,
  followed by the end token; in particular escaped quotes never end a string literal early.
\<close>

theorem tokenizer_roundtrip:
  assumes "spellable_all [] ts"
  shows "tokenize (unparse ts) = Inr (ts @ [tok END []])"
  using tokenize_loop_unparse [OF assms] by (simp add: tokenize_def)

definition tokens_demo :: "Token list" where
  "tokens_demo = [tok (Kw ''SELECT'') ''select'', tok IDENT ''my col'', tok MINUS ''-'', tok NUMBER ''1.5'',
     tok (Kw ''FROM'') ''FROM'', tok IDENT ''t'', tok (Kw ''WHERE'') ''Where'', tok IDENT ''s'', tok NE ''<>'',
     tok STRINGLIT ''it'', tok (Kw ''AND'') ''and'', tok IDENT ''x'', tok GE ''>='', tok NUMBER ''-3'']"

theorem tokenizer_roundtrip_witness: "tokenize (unparse tokens_demo) = Inr (tokens_demo @ [tok END []])"
proof -
  have "spellable_all [] tokens_demo" by code_simp
  then show ?thesis by (rule tokenizer_roundtrip)
qed

end
