(* ===== verification/Sql_Parser.thy ===== *)
theory Sql_Parser
  imports Sql_Ast Sql_Tokenizer
begin

text \<open>
  The recursive descent parser, \<^verbatim>\<open>src/src/sql/parser.cpp\<close>. The position \<^verbatim>\<open>pos_\<close> is represented by the list of
  the tokens from it on, so \<^verbatim>\<open>advance\<close> is the tail. An exception is a value of \<open>perror\<close>.

  The functions of the source that call each other are written over the functions they call, and the recursion is
  closed at the end over a depth: \<open>parse_arith_expr_node\<close>, \<open>parse_primary_expr\<close> and \<open>parse_select\<close> start it with one
  more than the number of tokens. That this depth is never reached, and that the functions then satisfy the
  equations of the source, is shown in theory \<open>Sql_Parser_Total\<close>.
\<close>

section \<open>Parsers\<close>

datatype num_error = InvalidArgument | OutOfRange

datatype perror =
    RuntimeError string
  | TokenizerError tok_error
  | NumError num_error
  | TooDeep

type_synonym 'a parser = "Token list \<Rightarrow> perror + 'a \<times> Token list"

definition ret :: "'a \<Rightarrow> 'a parser" where
  "ret x ts = Inr (x, ts)"

definition pfail :: "perror \<Rightarrow> 'a parser" where
  "pfail e ts = Inl e"

definition pbind :: "'a parser \<Rightarrow> ('a \<Rightarrow> 'b parser) \<Rightarrow> 'b parser" where
  "pbind p f ts = (case p ts of Inl e \<Rightarrow> Inl e | Inr (x, r) \<Rightarrow> f x r)"

definition pseq :: "'a parser \<Rightarrow> 'b parser \<Rightarrow> 'b parser" where
  "pseq p q = pbind p (\<lambda>_. q)"

text \<open>The result of a conversion of the standard library, which throws its own exceptions.\<close>

definition lift_result :: "num_error + 'a \<Rightarrow> 'a parser" where
  "lift_result r ts = (case r of Inl e \<Rightarrow> Inl (NumError e) | Inr x \<Rightarrow> Inr (x, ts))"

section \<open>Token utilities\<close>

definition current :: "Token list \<Rightarrow> Token" where
  "current ts = (case ts of [] \<Rightarrow> tok END [] | t # _ \<Rightarrow> t)"

definition peek_tok :: "Token list \<Rightarrow> Token" where
  "peek_tok ts = (case ts of _ # t # _ \<Rightarrow> t | _ \<Rightarrow> tok END [])"

definition at_end :: "Token list \<Rightarrow> bool" where
  "at_end ts \<longleftrightarrow> ts = [] \<or> token_type (hd ts) = END"

definition check :: "TokenType \<Rightarrow> Token list \<Rightarrow> bool" where
  "check t ts \<longleftrightarrow> \<not> at_end ts \<and> token_type (current ts) = t"

definition advance :: "unit parser" where
  "advance ts = Inr ((), tl ts)"

text \<open>
  \<open>on_match t p q\<close> is \<^verbatim>\<open>if (match(t)) p else q\<close>, \<open>opt_match\<close> a match whose result is not used, and
  \<open>branch c p q\<close> a choice by a test of the rest.
\<close>

definition branch :: "(Token list \<Rightarrow> bool) \<Rightarrow> 'a parser \<Rightarrow> 'a parser \<Rightarrow> 'a parser" where
  "branch c p q ts = (if c ts then p ts else q ts)"

definition on_match :: "TokenType \<Rightarrow> 'a parser \<Rightarrow> 'a parser \<Rightarrow> 'a parser" where
  "on_match t p q = branch (check t) (pseq advance p) q"

definition opt_match :: "TokenType \<Rightarrow> unit parser" where
  "opt_match t = on_match t (ret ()) (ret ())"

definition quoted :: "string \<Rightarrow> string" where
  "quoted v = CHR 0x27 # v @ [CHR 0x27]"

text \<open>An error whose message ends with the value of the current token.\<close>

definition err_got :: "string \<Rightarrow> 'a parser" where
  "err_got msg ts = Inl (RuntimeError (msg @ quoted (token_value (current ts))))"

definition err :: "string \<Rightarrow> 'a parser" where
  "err msg = pfail (RuntimeError msg)"

text \<open>The value of the current token, consuming it.\<close>

definition take_value :: "string parser" where
  "take_value ts = Inr (token_value (current ts), tl ts)"

definition expect :: "TokenType \<Rightarrow> string \<Rightarrow> string parser" where
  "expect t msg = branch (check t) take_value (err_got (''Parser: expected '' @ msg @ '' but got ''))"

text \<open>
  Loops: \<open>while_loop\<close> repeats a body that consumes a token while a test of the state and of the rest holds; the
  number of rounds is at most the number of tokens.
\<close>

primrec while_loop :: "nat \<Rightarrow> ('s \<Rightarrow> Token list \<Rightarrow> bool) \<Rightarrow> ('s \<Rightarrow> 's parser) \<Rightarrow> 's \<Rightarrow> 's parser" where
  "while_loop 0 c b s ts = (if c s ts then Inl TooDeep else Inr (s, ts))"
| "while_loop (Suc n) c b s ts = (if c s ts then pbind (b s) (while_loop n c b) ts else Inr (s, ts))"

definition while_do :: "('s \<Rightarrow> Token list \<Rightarrow> bool) \<Rightarrow> ('s \<Rightarrow> 's parser) \<Rightarrow> 's \<Rightarrow> 's parser" where
  "while_do c b s ts = while_loop (length ts) c b s ts"

text \<open>\<^verbatim>\<open>do { s = b(s) } while (match(COMMA))\<close>, and the list of items it collects.\<close>

definition comma_loop :: "('s \<Rightarrow> 's parser) \<Rightarrow> 's \<Rightarrow> 's parser" where
  "comma_loop b s = pbind (b s) (while_do (\<lambda>_. check COMMA) (\<lambda>s. pseq advance (b s)))"

definition comma_list :: "'a parser \<Rightarrow> 'a list parser" where
  "comma_list p = comma_loop (\<lambda>xs. pbind p (\<lambda>x. ret (xs @ [x]))) []"

definition to_upper_str :: "string \<Rightarrow> string" where
  "to_upper_str s = map toupper s"

definition tolower :: "char \<Rightarrow> char" where
  "tolower c = (if 65 \<le> code c \<and> code c \<le> 90 then char_of (code c + 32) else c)"

text \<open>A name used as a context-sensitive keyword.\<close>

definition ident_is :: "string \<Rightarrow> Token list \<Rightarrow> bool" where
  "ident_is up ts \<longleftrightarrow> token_type (current ts) = IDENT \<and> to_upper_str (token_value (current ts)) = up"

section \<open>Literals\<close>

text \<open>
  \<^verbatim>\<open>std::stoll\<close>: leading white space and a sign are accepted and what follows the digits is ignored.
\<close>

definition digits_value :: "string \<Rightarrow> int" where
  "digits_value ds = fold (\<lambda>c v. 10 * v + (int (code c) - 48)) ds 0"

definition stoll :: "string \<Rightarrow> num_error + i64" where
  "stoll s =
     (let s = dropWhile isspace s;
          neg = (s \<noteq> [] \<and> hd s = CHR ''-'');
          s = (if s \<noteq> [] \<and> (hd s = CHR ''-'' \<or> hd s = CHR ''+'') then tl s else s);
          ds = takeWhile isdigit s
      in if ds = [] then Inl InvalidArgument
         else let v = (if neg then - digits_value ds else digits_value ds)
              in if in_i64 v then Inr v else Inl OutOfRange)"

text \<open>The operations on \<^verbatim>\<open>double\<close> the parser uses, \<^verbatim>\<open>std::stod\<close> among them.\<close>

record 'f lit_ops = "'f fp_ops" +
  stod :: "string \<Rightarrow> num_error + 'f"
  fp_neg :: "'f \<Rightarrow> 'f"
  fp_le :: "'f \<Rightarrow> 'f \<Rightarrow> bool"
  fp_less :: "'f \<Rightarrow> 'f \<Rightarrow> bool"

definition is_float_text :: "string \<Rightarrow> bool" where
  "is_float_text s \<longleftrightarrow> CHR ''.'' \<in> set s"

definition parse_integer_literal :: "i64 parser" where
  "parse_integer_literal =
     branch (check NUMBER)
       (pbind take_value (\<lambda>s. lift_result (stoll s)))
       (err_got ''Parser: expected integer literal, got '')"

definition parse_string_literal :: "string parser" where
  "parse_string_literal =
     branch (check STRINGLIT) take_value (err_got ''Parser: expected string literal, got '')"

definition parse_compare_op :: "CompareOp parser" where
  "parse_compare_op ts =
     (case token_type (current ts) of
        EQ \<Rightarrow> pseq advance (ret CMP_EQ) ts
      | NE \<Rightarrow> pseq advance (ret CMP_NE) ts
      | GT \<Rightarrow> pseq advance (ret CMP_GT) ts
      | LT \<Rightarrow> pseq advance (ret CMP_LT) ts
      | GE \<Rightarrow> pseq advance (ret CMP_GE) ts
      | LE \<Rightarrow> pseq advance (ret CMP_LE) ts
      | _ \<Rightarrow> err_got ''Parser: expected comparison operator, got '' ts)"

definition is_ident_like :: "Token list \<Rightarrow> bool" where
  "is_ident_like ts \<longleftrightarrow> check IDENT ts \<or>
     token_type (current ts) \<in> {Kw ''OFFSET'', Kw ''FIRST'', Kw ''LAST'', Kw ''ASC'', Kw ''DESC'', Kw ''ROWS''}"

definition parse_qualified_name :: "(string \<times> string) parser" where
  "parse_qualified_name =
     branch is_ident_like
       (pbind take_value (\<lambda>first.
          on_match DOT
            (branch (check STAR)
               (pseq advance (ret (first, ''*'')))
               (branch is_ident_like
                  (pbind take_value (\<lambda>c. ret (first, c)))
                  (pbind (expect IDENT ''column name'') (\<lambda>c. ret (first, c)))))
            (ret ([], first))))
       (branch (check STAR)
          (pseq advance (ret ([], ''*'')))
          (err_got ''Parser: expected identifier, got ''))"

section \<open>Value expressions\<close>

definition call_ahead :: "Token list \<Rightarrow> bool" where
  "call_ahead ts \<longleftrightarrow> check IDENT ts \<and> token_type (peek_tok ts) = LPAREN"

text \<open>A call of a spatial function: its arguments, then the checks of its name and arity.\<close>

definition arith_call :: "'f ArithExpr parser \<Rightarrow> 'f ArithExpr parser" where
  "arith_call expr =
     pbind take_value (\<lambda>raw. let name = map tolower raw in
     pseq (expect LPAREN ''('')
     (pbind (branch (check RPAREN) (ret []) (comma_list expr)) (\<lambda>args.
      pseq (expect RPAREN '')'')
      (let distance_fn = (name = ''haversine'' \<or> name = ''st_distance'') in
       if \<not> distance_fn \<and> name \<noteq> ''st_within''
       then err (''Parser: unknown scalar function '' @ quoted name)
       else let expected = (if distance_fn then 4 else 5) in
       if length args \<noteq> expected
       then err (''Parser: function '' @ quoted name @ '' expects '' @ (if distance_fn then ''4'' else ''5'') @ '' arguments'')
       else ret (A_FUNC name []
              (if args = [] then None else Some (args ! 0))
              (if length args > 1 then Some (args ! 1) else None) args)))))"

definition parse_arith_primary :: "'f lit_ops \<Rightarrow> 'f ArithExpr parser \<Rightarrow> 'f ArithExpr parser" where
  "parse_arith_primary D expr =
     on_match LPAREN (pbind expr (\<lambda>node. pseq (expect RPAREN '')'') (ret node)))
     (branch (check NUMBER)
       (pbind take_value (\<lambda>s.
          if is_float_text s
          then pbind (lift_result (stod D s)) (\<lambda>d. ret (A_LITERAL (fp_to_int D d) d True))
          else pbind (lift_result (stoll s)) (\<lambda>i. ret (A_LITERAL i (fp_of_int D i) False))))
     (on_match (Kw ''DATE_TRUNC'')
       (pseq (expect LPAREN ''('')
       (pbind parse_string_literal (\<lambda>unit.
        pseq (expect COMMA '','')
        (pbind expr (\<lambda>a. pseq (expect RPAREN '')'') (ret (A_FUNC ''date_trunc'' unit (Some a) None [])))))))
     (on_match (Kw ''NOW'')
       (pseq (expect LPAREN ''('') (pseq (expect RPAREN '')'') (ret (A_FUNC ''now'' [] None None []))))
     (on_match (Kw ''EPOCH_S'')
       (pseq (expect LPAREN ''('')
       (pbind expr (\<lambda>a. pseq (expect RPAREN '')'') (ret (A_FUNC ''epoch_s'' [] (Some a) None [])))))
     (on_match (Kw ''EPOCH_MS'')
       (pseq (expect LPAREN ''('')
       (pbind expr (\<lambda>a. pseq (expect RPAREN '')'') (ret (A_FUNC ''epoch_ms'' [] (Some a) None [])))))
     (on_match (Kw ''SUBSTR'')
       (pseq (expect LPAREN ''('')
       (pbind expr (\<lambda>a.
        pseq (expect COMMA '','')
        (pbind take_value (\<lambda>start.
         pbind (on_match COMMA (pbind expr (\<lambda>l. ret (Some l))) (ret None)) (\<lambda>len.
         pseq (expect RPAREN '')'') (ret (A_FUNC ''substr'' start (Some a) len []))))))))
     (on_match (Kw ''INTERVAL'')
       (pbind parse_string_literal (\<lambda>lit. ret (A_FUNC ''interval'' lit None None [])))
     (branch call_ahead
       (arith_call expr)
       (pbind parse_qualified_name (\<lambda>(a, c). ret (A_COLUMN a c)))))))))))"

definition parse_arith_term :: "'f ArithExpr parser \<Rightarrow> 'f ArithExpr parser" where
  "parse_arith_term primary =
     pbind primary
       (while_do (\<lambda>_ ts. check STAR ts \<or> check SLASH ts)
          (\<lambda>left ts. let op = (if check STAR ts then MUL else DIV)
                     in pseq advance (pbind primary (\<lambda>right. ret (A_BINARY op left right))) ts))"

definition parse_arith_sum :: "'f ArithExpr parser \<Rightarrow> 'f ArithExpr parser" where
  "parse_arith_sum trm =
     pbind trm
       (while_do (\<lambda>_ ts. check PLUS ts \<or> check MINUS ts)
          (\<lambda>left ts. let op = (if check PLUS ts then ADD else SUB)
                     in pseq advance (pbind trm (\<lambda>right. ret (A_BINARY op left right))) ts))"

definition arith_body :: "'f lit_ops \<Rightarrow> 'f ArithExpr parser \<Rightarrow> 'f ArithExpr parser" where
  "arith_body D expr = parse_arith_sum (parse_arith_term (parse_arith_primary D expr))"

primrec arith_depth :: "'f lit_ops \<Rightarrow> nat \<Rightarrow> 'f ArithExpr parser" where
  "arith_depth D 0 ts = Inl TooDeep"
| "arith_depth D (Suc n) ts = arith_body D (arith_depth D n) ts"

definition parse_arith_expr_node :: "'f lit_ops \<Rightarrow> 'f ArithExpr parser" where
  "parse_arith_expr_node D ts = arith_depth D (Suc (length ts)) ts"

section \<open>OVER, JOIN, GROUP BY and ORDER BY\<close>

definition parse_direction :: "bool parser" where
  "parse_direction = on_match (Kw ''DESC'') (ret False) (pseq (opt_match (Kw ''ASC'')) (ret True))"

definition win_order_item :: "((string \<times> string) \<times> bool) parser" where
  "win_order_item = pbind parse_qualified_name (\<lambda>n. pbind parse_direction (\<lambda>asc. ret (n, asc)))"

text \<open>One bound of a frame: UNBOUNDED, CURRENT ROW or a number, followed by the given direction word.\<close>

definition frame_bound :: "string \<Rightarrow> i64 parser" where
  "frame_bound dir =
     on_match (Kw ''UNBOUNDED'') (pseq (expect (Kw dir) dir) (ret INT64_MAX))
     (on_match (Kw ''CURRENT'') (pseq (expect (Kw ''ROW'') ''ROW'') (ret 0))
     (pbind parse_integer_literal (\<lambda>n. pseq (expect (Kw dir) dir) (ret n))))"

definition parse_frame :: "(i64 \<times> i64) parser" where
  "parse_frame =
     on_match (Kw ''BETWEEN'')
       (pbind (frame_bound ''PRECEDING'') (\<lambda>p.
        pseq (expect (Kw ''AND'') ''AND'')
        (pbind (frame_bound ''FOLLOWING'') (\<lambda>f. ret (p, f)))))
       (pbind (frame_bound ''PRECEDING'') (\<lambda>p. ret (p, 0)))"

definition parse_window_spec :: "WindowSpec parser" where
  "parse_window_spec =
     pbind (on_match (Kw ''PARTITION'') (pseq (expect (Kw ''BY'') ''BY'') (comma_list parse_qualified_name)) (ret [])) (\<lambda>pb.
     pbind (on_match (Kw ''ORDER'') (pseq (expect (Kw ''BY'') ''BY'') (comma_list win_order_item)) (ret [])) (\<lambda>ob.
     let ws = WindowSpec_default\<lparr>partition_by := pb, win_order_by := ob\<rparr> in
     branch (\<lambda>ts. check (Kw ''ROWS'') ts \<or> check (Kw ''RANGE'') ts)
       (pseq advance (pbind parse_frame (\<lambda>(p, f). ret (ws\<lparr>has_frame := True, preceding := p, following := f\<rparr>))))
       (ret ws)))"

definition parse_join_type :: "JoinClauseType parser" where
  "parse_join_type =
     (let join = expect (Kw ''JOIN'') ''JOIN''; outer = opt_match (Kw ''OUTER'') in
      on_match (Kw ''ASOF'') (pseq join (ret J_ASOF))
      (on_match (Kw ''AJ0'') (pseq join (ret J_AJ0))
      (on_match (Kw ''INNER'') (pseq join (ret J_INNER))
      (on_match (Kw ''LEFT'') (pseq outer (pseq join (ret J_LEFT)))
      (on_match (Kw ''RIGHT'') (pseq outer (pseq join (ret J_RIGHT)))
      (on_match (Kw ''FULL'') (pseq outer (pseq join (ret J_FULL)))
      (on_match (Kw ''PLUS_JOIN'') (pseq join (ret J_PLUS))
      (on_match (Kw ''UNION'') (pseq join (ret J_UNION))
      (on_match (Kw ''WINDOW'') (pseq join (ret J_WINDOW))
      (pseq join (ret J_INNER)))))))))))"

text \<open>The optional \<^verbatim>\<open>- n\<close> or \<^verbatim>\<open>+ n\<close> after a bound of a time window, and whether it is subtracted.\<close>

definition join_offset :: "(i64 \<times> bool) option parser" where
  "join_offset =
     on_match MINUS (pbind parse_integer_literal (\<lambda>n. ret (Some (n, True))))
     (on_match PLUS (pbind parse_integer_literal (\<lambda>n. ret (Some (n, False))))
     (ret None))"

definition parse_join_cond :: "JoinClause \<Rightarrow> JoinClause parser" where
  "parse_join_cond jc =
     pbind parse_qualified_name (\<lambda>(la, lc).
     on_match (Kw ''BETWEEN'')
       (pbind parse_qualified_name (\<lambda>(ra, rc).
        pbind join_offset (\<lambda>before.
        pseq (expect (Kw ''AND'') ''AND'')
        (pbind parse_qualified_name (\<lambda>(ra2, rc2).
         pbind join_offset (\<lambda>after.
         ret (jc\<lparr>wj_right_time_col := lc, wj_left_time_col := rc,
                 wj_window_before := (case before of Some (n, True) \<Rightarrow> n | _ \<Rightarrow> 0),
                 wj_window_after := (case after of Some (n, False) \<Rightarrow> n | _ \<Rightarrow> 0)\<rparr>)))))))
       (pbind parse_compare_op (\<lambda>op.
        pbind parse_qualified_name (\<lambda>(ra, rc).
        ret (jc\<lparr>on_conditions := on_conditions jc @
          [\<lparr>left_alias = la, left_col = lc, join_op = op, right_alias = ra, right_col = rc\<rparr>]\<rparr>)))))"

definition parse_join :: "JoinClause parser" where
  "parse_join =
     pbind parse_join_type (\<lambda>ty.
     pbind (expect IDENT ''join table name'') (\<lambda>tbl.
     pseq (opt_match (Kw ''AS''))
     (pbind (branch (check IDENT) take_value (ret [])) (\<lambda>al.
      let jc = \<lparr>join_type = ty, join_table = tbl, join_alias = al, on_conditions = [], wj_left_time_col = [],
                wj_right_time_col = [], wj_window_before = 0, wj_window_after = 0\<rparr> in
      branch (\<lambda>ts. ty = J_UNION \<and> \<not> check (Kw ''ON'') ts)
        (ret jc)
        (pseq (expect (Kw ''ON'') ''ON'')
        (pbind (parse_join_cond jc)
           (while_do (\<lambda>_. check (Kw ''AND'')) (\<lambda>jc. pseq advance (parse_join_cond jc)))))))))"

definition date_trunc_bucket :: "string \<Rightarrow> i64" where
  "date_trunc_bucket unit =
     (if unit = ''us'' then 1000
      else if unit = ''ms'' then 1000000
      else if unit = ''s'' then 1000000000
      else if unit = ''min'' then 60000000000
      else if unit = ''hour'' then 3600000000000
      else if unit = ''day'' then 86400000000000
      else if unit = ''week'' then 604800000000000
      else 1)"

definition group_by_item :: "GroupByItem parser" where
  "group_by_item =
     on_match (Kw ''XBAR'')
       (pseq (expect LPAREN ''('')
       (pbind parse_qualified_name (\<lambda>(a, c).
        pseq (expect COMMA '','')
        (pbind parse_integer_literal (\<lambda>b.
         pseq (expect RPAREN '')'')
         (ret \<lparr>gb_alias = a, gb_column = c, gb_xbar_bucket = b, gb_date_trunc_bucket = 0\<rparr>))))))
     (on_match (Kw ''DATE_TRUNC'')
       (pseq (expect LPAREN ''('')
       (branch (\<lambda>ts. token_type (current ts) \<noteq> STRINGLIT)
          (err ''DATE_TRUNC expects a string unit'')
          (pbind take_value (\<lambda>unit.
           pseq (expect COMMA '','')
           (pbind parse_qualified_name (\<lambda>(a, c).
            pseq (expect RPAREN '')'')
            (ret \<lparr>gb_alias = a, gb_column = c, gb_xbar_bucket = 0, gb_date_trunc_bucket = date_trunc_bucket unit\<rparr>)))))))
     (pbind parse_qualified_name (\<lambda>(a, c).
        ret \<lparr>gb_alias = a, gb_column = c, gb_xbar_bucket = 0, gb_date_trunc_bucket = 0\<rparr>)))"

definition parse_group_by :: "GroupByItem list parser" where
  "parse_group_by = comma_list group_by_item"

definition order_by_item :: "OrderByItem parser" where
  "order_by_item =
     pbind parse_qualified_name (\<lambda>(a, c).
     pbind parse_direction (\<lambda>asc. ret \<lparr>ob_alias = a, ob_column = c, ob_asc = asc\<rparr>))"

definition parse_order_by :: "OrderByItem list parser" where
  "parse_order_by = comma_list order_by_item"

section \<open>Conditions\<close>

definition parse_and_expr :: "'f Expr option parser \<Rightarrow> 'f Expr option parser" where
  "parse_and_expr primary =
     pbind primary
       (while_do (\<lambda>_. check (Kw ''AND''))
          (\<lambda>left. pseq advance (pbind primary (\<lambda>right. ret (Some (E_AND left right))))))"

definition parse_expr_of :: "'f Expr option parser \<Rightarrow> 'f Expr option parser" where
  "parse_expr_of primary =
     (let conj = parse_and_expr primary in
      pbind conj
        (while_do (\<lambda>_. check (Kw ''OR''))
           (\<lambda>left. pseq advance (pbind conj (\<lambda>right. ret (Some (E_OR left right)))))))"

text \<open>A comparison of two literals is decided here: true is the null condition, false one that never matches.\<close>

definition compare_literals :: "CompareOp \<Rightarrow> i64 \<Rightarrow> i64 \<Rightarrow> bool" where
  "compare_literals op l r =
     (case op of CMP_EQ \<Rightarrow> l = r | CMP_NE \<Rightarrow> l \<noteq> r | CMP_GT \<Rightarrow> l > r | CMP_GE \<Rightarrow> l \<ge> r | CMP_LT \<Rightarrow> l < r | CMP_LE \<Rightarrow> l \<le> r)"

definition literal_condition :: "'f Expr option parser" where
  "literal_condition =
     pbind parse_integer_literal (\<lambda>l.
     pbind parse_compare_op (\<lambda>op.
     pbind parse_integer_literal (\<lambda>r.
     ret (if compare_literals op l r then None
          else Some (E_COMPARE (LhsCol [] ''__never_match__'') CMP_EQ (ValInt 0))))))"

definition between_bounds :: "'f Lhs \<Rightarrow> 'f Expr option parser" where
  "between_bounds lhs =
     pbind parse_integer_literal (\<lambda>lo.
     pseq (expect (Kw ''AND'') ''AND'')
     (pbind parse_integer_literal (\<lambda>hi. ret (Some (E_BETWEEN lhs lo hi)))))"

definition number_value :: "'f lit_ops \<Rightarrow> 'f Value parser" where
  "number_value D =
     pbind take_value (\<lambda>s.
       if is_float_text s
       then pbind (lift_result (stod D s)) (\<lambda>d. ret (ValFloat d (fp_to_int D d)))
       else pbind (lift_result (stoll s)) (\<lambda>i. ret (ValInt i)))"

definition time_value_ahead :: "Token list \<Rightarrow> bool" where
  "time_value_ahead ts \<longleftrightarrow> check (Kw ''NOW'') ts \<or> check (Kw ''EPOCH_S'') ts \<or> check (Kw ''EPOCH_MS'') ts \<or>
     check (Kw ''DATE_TRUNC'') ts \<or> check (Kw ''INTERVAL'') ts"

definition is_compare_token :: "TokenType \<Rightarrow> bool" where
  "is_compare_token t \<longleftrightarrow> t \<in> {GT, LT, GE, LE, EQ, NE}"

definition function_condition :: "'f lit_ops \<Rightarrow> 'f Expr option parser" where
  "function_condition D =
     pbind (parse_arith_expr_node D) (\<lambda>lhs.
     on_match (Kw ''BETWEEN'') (between_bounds (LhsExpr lhs))
     (branch (\<lambda>ts. is_compare_token (token_type (current ts)))
        (pbind parse_compare_op (\<lambda>op.
         pbind (branch (\<lambda>ts. time_value_ahead ts \<or> call_ahead ts)
                  (pbind (parse_arith_expr_node D) (\<lambda>e. ret (ValExpr e)))
               (branch (check NUMBER) (number_value D)
               (branch (check STRINGLIT) (pbind take_value (\<lambda>v. ret (ValStr v)))
               (err_got ''Parser: expected value after function predicate, got '')))) (\<lambda>v.
         ret (Some (E_COMPARE (LhsExpr lhs) op v)))))
        (ret (Some (E_COMPARE (LhsExpr lhs) CMP_NE (ValInt 0))))))"

text \<open>An element of an IN list, a number or a string read as one, and whether there was an element.\<close>

definition in_element :: "'f lit_ops \<Rightarrow> i64 list \<Rightarrow> (i64 list \<times> bool) parser" where
  "in_element D vs =
     branch (check NUMBER)
       (pbind take_value (\<lambda>s.
          if is_float_text s
          then pbind (lift_result (stod D s)) (\<lambda>d. ret (vs @ [fp_to_int D d], True))
          else pbind (lift_result (stoll s)) (\<lambda>i. ret (vs @ [i], True))))
     (branch (check STRINGLIT)
       (pbind take_value (\<lambda>s. ret (vs @ [case stoll s of Inr i \<Rightarrow> i | Inl _ \<Rightarrow> 0], True)))
     (ret (vs, False)))"

definition in_list :: "'f lit_ops \<Rightarrow> i64 list parser" where
  "in_list D =
     pbind (in_element D []) (\<lambda>(vs, _).
     pbind (while_do (\<lambda>(vs, go) ts. go \<and> check COMMA ts) (\<lambda>(vs, _). pseq advance (in_element D vs)) (vs, True))
       (\<lambda>(vs, _). ret vs))"

definition compare_value :: "'f lit_ops \<Rightarrow> string \<Rightarrow> string \<Rightarrow> CompareOp \<Rightarrow> 'f SelectStmt parser \<Rightarrow> 'f Expr option parser" where
  "compare_value D a c op sel =
     branch (\<lambda>ts. check LPAREN ts \<and> token_type (peek_tok ts) = Kw ''SELECT'')
       (pseq advance (pbind sel (\<lambda>q. pseq (expect RPAREN '')'') (ret (Some (E_SCALAR_SUBQUERY a c op q))))))
     (pbind (branch time_value_ahead (pbind (parse_arith_expr_node D) (\<lambda>e. ret (ValExpr e)))
            (branch (check NUMBER) (number_value D)
            (branch (check STRINGLIT) (pbind take_value (\<lambda>v. ret (ValStr v)))
            (branch (\<lambda>ts. check IDENT ts \<or> check STAR ts) (pseq advance (ret (ValInt 0)))
            (err_got ''Parser: expected value in WHERE condition, got ''))))) (\<lambda>v.
      ret (Some (E_COMPARE (LhsCol a c) op v))))"

definition column_condition :: "'f lit_ops \<Rightarrow> 'f SelectStmt parser \<Rightarrow> 'f Expr option parser" where
  "column_condition D sel =
     pbind parse_qualified_name (\<lambda>(a, c).
     on_match (Kw ''BETWEEN'') (between_bounds (LhsCol a c))
     (on_match (Kw ''IN'')
       (pseq (expect LPAREN ''('')
       (branch (check (Kw ''SELECT''))
          (pbind sel (\<lambda>q. pseq (expect RPAREN '')'') (ret (Some (E_IN_SUBQUERY a c q)))))
          (pbind (in_list D) (\<lambda>vs. pseq (expect RPAREN '')'') (ret (Some (E_IN a c vs)))))))
     (on_match (Kw ''IS'')
       (pbind (on_match (Kw ''NOT'') (ret True) (ret False)) (\<lambda>neg.
        pseq (expect (Kw ''NULL_KW'') ''NULL'') (ret (Some (E_IS_NULL a c neg)))))
     (on_match (Kw ''LIKE'')
       (pbind parse_string_literal (\<lambda>p. ret (Some (E_LIKE a c False p))))
     (branch (\<lambda>ts. check (Kw ''NOT'') ts \<and> token_type (peek_tok ts) = Kw ''LIKE'')
       (pseq advance (pseq advance (pbind parse_string_literal (\<lambda>p. ret (Some (E_LIKE a c True p))))))
     (pbind parse_compare_op (\<lambda>op. compare_value D a c op sel)))))))"

definition primary_body ::
  "'f lit_ops \<Rightarrow> 'f Expr option parser \<Rightarrow> 'f SelectStmt parser \<Rightarrow> 'f Expr option parser" where
  "primary_body D primary sel =
     on_match (Kw ''NOT'') (pbind primary (\<lambda>sub. ret (Some (E_NOT sub))))
     (on_match LPAREN (pbind (parse_expr_of primary) (\<lambda>sub. pseq (expect RPAREN '')'') (ret sub)))
     (branch (check NUMBER) literal_condition
     (branch call_ahead (function_condition D)
     (column_condition D sel))))"

definition case_when_branch ::
  "'f lit_ops \<Rightarrow> 'f Expr option parser \<Rightarrow> ('f Expr option \<times> 'f ArithExpr) list \<Rightarrow> ('f Expr option \<times> 'f ArithExpr) list parser" where
  "case_when_branch D expr brs =
     pseq advance
     (pbind expr (\<lambda>c.
      pseq (expect (Kw ''THEN'') ''THEN'')
      (pbind (parse_arith_expr_node D) (\<lambda>v. ret (brs @ [(c, v)])))))"

definition parse_case_when_expr :: "'f lit_ops \<Rightarrow> 'f Expr option parser \<Rightarrow> 'f CaseWhenExpr parser" where
  "parse_case_when_expr D expr =
     pbind (while_do (\<lambda>_. check (Kw ''WHEN'')) (case_when_branch D expr) []) (\<lambda>brs.
     pbind (on_match (Kw ''ELSE'') (pbind (parse_arith_expr_node D) (\<lambda>v. ret (Some v))) (ret None)) (\<lambda>els.
     pseq (expect (Kw ''CASE_END'') ''END'') (ret (CaseWhenExpr brs els))))"

section \<open>The SELECT list\<close>

type_synonym 'f item_acc = "'f SelectItem \<times> 'f CaseWhenExpr option"

text \<open>A value expression as the value of an entry: a plain column fills the column fields.\<close>

definition set_value :: "'f ArithExpr \<Rightarrow> 'f SelectItem \<Rightarrow> 'f SelectItem" where
  "set_value e it =
     (case e of A_COLUMN a c \<Rightarrow> it\<lparr>table_alias := a, column := c\<rparr> | _ \<Rightarrow> it\<lparr>arith_expr := Some e\<rparr>)"

definition set_column :: "string \<times> string \<Rightarrow> 'f SelectItem \<Rightarrow> 'f SelectItem" where
  "set_column n it = it\<lparr>table_alias := fst n, column := snd n\<rparr>"

definition agg_argument :: "'f lit_ops \<Rightarrow> 'f Expr option parser \<Rightarrow> AggFunc \<Rightarrow> 'f SelectItem \<Rightarrow> 'f item_acc parser" where
  "agg_argument D expr func it =
     branch (\<lambda>ts. func = AGG_COUNT \<and> check STAR ts)
       (pseq advance (ret (it\<lparr>column := ''*''\<rparr>, None)))
     (branch (\<lambda>ts. func = AGG_COUNT \<and> check (Kw ''DISTINCT'') ts)
       (pseq advance (pbind parse_qualified_name (\<lambda>n. ret (set_column n (it\<lparr>agg_distinct := True\<rparr>), None))))
     (if func = AGG_VWAP then
        pbind parse_qualified_name (\<lambda>n.
        pseq (expect COMMA '','')
        (pbind parse_qualified_name (\<lambda>n2. ret ((set_column n it)\<lparr>agg_arg2 := snd n2\<rparr>, None))))
      else if func = AGG_XBAR then
        pbind parse_qualified_name (\<lambda>n.
        pseq (expect COMMA '','')
        (pbind parse_integer_literal (\<lambda>b. ret ((set_column n it)\<lparr>xbar_bucket := b\<rparr>, None))))
      else
        on_match (Kw ''CASE'')
          (pbind (parse_case_when_expr D expr) (\<lambda>cw. ret (it, Some cw)))
          (pbind (parse_arith_expr_node D) (\<lambda>e. ret (set_value e it, None)))))"

definition parse_agg :: "'f lit_ops \<Rightarrow> 'f Expr option parser \<Rightarrow> AggFunc \<Rightarrow> 'f SelectItem \<Rightarrow> 'f item_acc parser" where
  "parse_agg D expr func it =
     pseq (expect LPAREN ''('')
     (pbind (agg_argument D expr func (it\<lparr>agg := func\<rparr>)) (\<lambda>acc.
      pseq (expect RPAREN '')'') (ret acc)))"

definition over_clause :: "'f SelectItem \<Rightarrow> 'f SelectItem parser" where
  "over_clause it =
     pseq (expect LPAREN ''('')
     (pbind parse_window_spec (\<lambda>ws. pseq (expect RPAREN '')'') (ret (it\<lparr>window_spec := Some ws\<rparr>))))"

text \<open>The arguments of a window function after its column.\<close>

definition window_arguments :: "'f lit_ops \<Rightarrow> WinFunc \<Rightarrow> 'f SelectItem \<Rightarrow> 'f SelectItem parser" where
  "window_arguments D fn it =
     on_match COMMA
       (if fn = WF_EMA then
          branch (check NUMBER)
            (pbind take_value (\<lambda>s.
               if is_float_text s
               then pbind (lift_result (stod D s)) (\<lambda>d. ret (it\<lparr>ema_alpha := d, ema_period := 0\<rparr>))
               else pbind (lift_result (stoll s)) (\<lambda>p.
                      ret (it\<lparr>ema_period := p,
                              ema_alpha := fp_div D (fp_of_int D 2) (fp_add D (fp_of_int D p) (fp_of_int D 1))\<rparr>))))
            (ret it)
        else
          pbind parse_integer_literal (\<lambda>n.
          on_match COMMA
            (pbind parse_integer_literal (\<lambda>d. ret (it\<lparr>window_offset := n, window_default := d\<rparr>)))
            (ret (it\<lparr>window_offset := n\<rparr>))))
       (ret it)"

definition parse_window_func ::
  "'f lit_ops \<Rightarrow> WinFunc \<Rightarrow> bool \<Rightarrow> bool \<Rightarrow> 'f SelectItem \<Rightarrow> 'f item_acc parser" where
  "parse_window_func D fn has_col has_offset it =
     pseq (expect LPAREN ''('')
     (pbind (if has_col
             then pbind parse_qualified_name (\<lambda>n.
                    let it = set_column n (it\<lparr>window_func := fn\<rparr>) in
                    if has_offset then window_arguments D fn it else ret it)
             else ret (it\<lparr>window_func := fn\<rparr>)) (\<lambda>it.
      pseq (expect RPAREN '')'')
      (pseq (expect (Kw ''OVER'') ''OVER'')
      (pbind (over_clause it) (\<lambda>it. ret (it, None))))))"

definition agg_keyword :: "TokenType \<Rightarrow> AggFunc option" where
  "agg_keyword t =
     map_of [(Kw ''SUM'', AGG_SUM), (Kw ''AVG'', AGG_AVG), (Kw ''COUNT'', AGG_COUNT), (Kw ''MIN'', AGG_MIN),
       (Kw ''MAX'', AGG_MAX), (Kw ''VWAP'', AGG_VWAP), (Kw ''STDDEV'', AGG_STDDEV), (Kw ''VARIANCE'', AGG_VARIANCE),
       (Kw ''MEDIAN'', AGG_MEDIAN), (Kw ''XBAR'', AGG_XBAR)] t"

text \<open>The window functions, each with whether it has a column and further arguments.\<close>

definition window_keyword :: "TokenType \<Rightarrow> (WinFunc \<times> bool \<times> bool) option" where
  "window_keyword t =
     map_of [(Kw ''ROW_NUMBER'', (WF_ROW_NUMBER, False, False)), (Kw ''RANK'', (WF_RANK, False, False)),
       (Kw ''DENSE_RANK'', (WF_DENSE_RANK, False, False)), (Kw ''LAG'', (WF_LAG, True, True)),
       (Kw ''LEAD'', (WF_LEAD, True, True)), (Kw ''EMA'', (WF_EMA, True, True)), (Kw ''DELTA'', (WF_DELTA, True, False)),
       (Kw ''RATIO'', (WF_RATIO, True, False))] t"

definition parse_percentile :: "'f lit_ops \<Rightarrow> 'f SelectItem \<Rightarrow> 'f item_acc parser" where
  "parse_percentile D it =
     pseq (expect LPAREN ''('')
     (pbind (parse_arith_expr_node D) (\<lambda>e.
      pseq (expect COMMA '','')
      (pbind parse_integer_literal (\<lambda>n.
       pseq (expect RPAREN '')'')
       (ret ((set_value e (it\<lparr>agg := AGG_PERCENTILE\<rparr>))\<lparr>percentile_value := n\<rparr>, None))))))"

definition wj_name :: "Token list \<Rightarrow> bool" where
  "wj_name ts \<longleftrightarrow> check IDENT ts \<and>
     (let upper = to_upper_str (token_value (current ts)) in length upper > 3 \<and> take 3 upper = ''WJ_'')"

definition wj_function :: "string \<Rightarrow> WJAggFunc option" where
  "wj_function t =
     map_of [(''AVG'', WJ_AVG), (''SUM'', WJ_SUM), (''COUNT'', WJ_COUNT), (''MIN'', WJ_MIN), (''MAX'', WJ_MAX)] t"

definition parse_wj :: "'f SelectItem \<Rightarrow> 'f item_acc parser" where
  "parse_wj it =
     pbind take_value (\<lambda>name.
     case wj_function (drop 3 (to_upper_str name)) of
       None \<Rightarrow> err (''Unknown wj_ aggregate: '' @ name)
     | Some w \<Rightarrow>
         pseq (expect LPAREN ''('')
         (pbind parse_qualified_name (\<lambda>n.
          pseq (expect RPAREN '')'') (ret (set_column n (it\<lparr>wj_agg := w\<rparr>), None)))))"

definition parse_plain :: "'f lit_ops \<Rightarrow> 'f SelectItem \<Rightarrow> 'f item_acc parser" where
  "parse_plain D it =
     pbind (parse_arith_expr_node D) (\<lambda>e.
       ret (case e of
              A_COLUMN a c \<Rightarrow> if c = ''*'' then it\<lparr>table_alias := a, is_star := True\<rparr>
                              else it\<lparr>table_alias := a, column := c\<rparr>
            | _ \<Rightarrow> it\<lparr>arith_expr := Some e\<rparr>, None))"

text \<open>The switch over the first token of an entry.\<close>

definition select_switch :: "'f lit_ops \<Rightarrow> 'f Expr option parser \<Rightarrow> 'f SelectItem \<Rightarrow> 'f item_acc parser" where
  "select_switch D expr it ts =
     (case agg_keyword (token_type (current ts)) of
        Some f \<Rightarrow> pseq advance (parse_agg D expr f it) ts
      | None \<Rightarrow>
     (case window_keyword (token_type (current ts)) of
        Some (fn, has_col, has_offset) \<Rightarrow> pseq advance (parse_window_func D fn has_col has_offset it) ts
      | None \<Rightarrow>
        on_match (Kw ''PERCENTILE'') (parse_percentile D it)
        (on_match (Kw ''FIRST'')
          (branch (check LPAREN) (parse_agg D expr AGG_FIRST it) (ret (it\<lparr>column := ''FIRST''\<rparr>, None)))
        (on_match (Kw ''LAST'')
          (branch (check LPAREN) (parse_agg D expr AGG_LAST it) (ret (it\<lparr>column := ''LAST''\<rparr>, None)))
        (on_match STAR (ret (it\<lparr>is_star := True\<rparr>, None))
        (on_match (Kw ''CASE'') (pbind (parse_case_when_expr D expr) (\<lambda>cw. ret (it, Some cw)))
        (branch wj_name (parse_wj it)
        (parse_plain D it)))))) ts))"

fun over_function :: "AggFunc \<Rightarrow> WinFunc" where
  "over_function AGG_SUM = WF_SUM"
| "over_function AGG_AVG = WF_AVG"
| "over_function AGG_MIN = WF_MIN"
| "over_function AGG_MAX = WF_MAX"
| "over_function _ = WF_NONE"

text \<open>An aggregate followed by OVER becomes a window function.\<close>

definition parse_over :: "'f item_acc \<Rightarrow> 'f item_acc parser" where
  "parse_over = (\<lambda>(it, cw).
     branch (\<lambda>ts. agg it \<noteq> AGG_NONE \<and> check (Kw ''OVER'') ts \<and> over_function (agg it) \<noteq> WF_NONE)
       (pseq advance
         (pbind (over_clause (it\<lparr>window_func := over_function (agg it), agg := AGG_NONE\<rparr>)) (\<lambda>it. ret (it, cw))))
       (ret (it, cw)))"

definition alias_ahead :: "Token list \<Rightarrow> bool" where
  "alias_ahead ts \<longleftrightarrow> \<not> at_end ts \<and>
     token_type (current ts) \<notin> {COMMA, Kw ''FROM'', Kw ''WHERE'', Kw ''GROUP'', Kw ''ORDER'', Kw ''LIMIT'', END}"

definition parse_alias :: "'f item_acc \<Rightarrow> 'f SelectExpr parser" where
  "parse_alias = (\<lambda>(it, cw).
     on_match (Kw ''AS'')
       (branch alias_ahead
          (pbind take_value (\<lambda>al. ret (SelectExpr (it\<lparr>item_alias := al\<rparr>) cw)))
          (ret (SelectExpr it cw)))
       (ret (SelectExpr it cw)))"

definition parse_select_expr :: "'f lit_ops \<Rightarrow> 'f Expr option parser \<Rightarrow> 'f SelectExpr parser" where
  "parse_select_expr D expr =
     pbind (select_switch D expr (SelectItem_default D)) (\<lambda>acc. pbind (parse_over acc) parse_alias)"

section \<open>SELECT\<close>

definition parse_columns :: "'f lit_ops \<Rightarrow> 'f Expr option parser \<Rightarrow> 'f SelectExpr list parser" where
  "parse_columns D expr =
     on_match STAR
       (ret [SelectExpr ((SelectItem_default D)\<lparr>is_star := True\<rparr>) None])
       (comma_list (parse_select_expr D expr))"

definition from_alias_ahead :: "Token list \<Rightarrow> bool" where
  "from_alias_ahead ts \<longleftrightarrow> check IDENT ts \<and>
     token_value (current ts) \<notin> {''WHERE'', ''JOIN'', ''GROUP'', ''ORDER'', ''LIMIT'', ''SAMPLE''}"

text \<open>The FROM clause: table name, alias and subquery.\<close>

definition parse_from :: "'f SelectStmt parser \<Rightarrow> (string \<times> string \<times> 'f SelectStmt option) parser" where
  "parse_from sel =
     on_match LPAREN
       (pbind sel (\<lambda>q.
        pseq (expect RPAREN '')'')
        (pseq (opt_match (Kw ''AS''))
        (pbind (expect IDENT ''subquery alias'') (\<lambda>al. ret ([], al, Some q))))))
       (pbind (expect IDENT ''table name'') (\<lambda>tbl.
        pseq (opt_match (Kw ''AS''))
        (branch from_alias_ahead
           (pbind take_value (\<lambda>al. ret (tbl, al, None)))
           (ret (tbl, [], None)))))"

definition parse_sample :: "'f lit_ops \<Rightarrow> 'f option parser" where
  "parse_sample D =
     on_match (Kw ''SAMPLE'')
       (pbind (expect NUMBER ''sample rate (0..1)'') (\<lambda>s.
        pbind (lift_result (stod D s)) (\<lambda>rate.
        if fp_le D rate (fp_of_int D 0) \<or> fp_less D (fp_of_int D 1) rate
        then err ''SAMPLE rate must be in (0, 1]'' else ret (Some rate))))
       (ret None)"

definition join_ahead :: "Token list \<Rightarrow> bool" where
  "join_ahead ts \<longleftrightarrow> check (Kw ''ASOF'') ts \<or> check (Kw ''AJ0'') ts \<or> check (Kw ''JOIN'') ts \<or> check (Kw ''INNER'') ts \<or>
     check (Kw ''LEFT'') ts \<or> check (Kw ''RIGHT'') ts \<or> check (Kw ''FULL'') ts \<or> check (Kw ''PLUS_JOIN'') ts \<or>
     check (Kw ''UNION'') ts \<and> token_type (peek_tok ts) = Kw ''JOIN'' \<or> check (Kw ''WINDOW'') ts"

definition optional :: "TokenType \<Rightarrow> 'a parser \<Rightarrow> 'a option parser" where
  "optional t p = on_match t (pbind p (\<lambda>x. ret (Some x))) (ret None)"

definition select_body :: "'f lit_ops \<Rightarrow> 'f Expr option parser \<Rightarrow> 'f SelectStmt parser \<Rightarrow> 'f SelectStmt parser" where
  "select_body D primary sel =
     pseq (expect (Kw ''SELECT'') ''SELECT'')
     (pbind (on_match (Kw ''DISTINCT'') (ret True) (ret False)) (\<lambda>dist.
      pbind (parse_columns D (parse_expr_of primary)) (\<lambda>cols.
      pseq (expect (Kw ''FROM'') ''FROM'')
      (pbind (parse_from sel) (\<lambda>(tbl, al, sub).
       pbind (parse_sample D) (\<lambda>rate.
       pbind (branch join_ahead (pbind parse_join (\<lambda>j. ret (Some j))) (ret None)) (\<lambda>jn.
       pbind (optional (Kw ''WHERE'') (parse_expr_of primary)) (\<lambda>whr.
       pbind (optional (Kw ''GROUP'') (pseq (expect (Kw ''BY'') ''BY'') parse_group_by)) (\<lambda>grp.
       pbind (optional (Kw ''HAVING'') (parse_expr_of primary)) (\<lambda>hav.
       pbind (optional (Kw ''ORDER'') (pseq (expect (Kw ''BY'') ''BY'') parse_order_by)) (\<lambda>ord.
       pbind (optional (Kw ''LIMIT'') parse_integer_literal) (\<lambda>lim.
       pbind (optional (Kw ''OFFSET'') parse_integer_literal) (\<lambda>off.
       ret (SelectStmt \<lparr>distinct_rows = dist, from_table = tbl, from_alias = al, join = jn, group_by = grp,
              order_by = ord, limit = lim, offset = off, sample_rate = rate\<rparr> cols sub whr hav))))))))))))))"

fun primary_depth :: "'f lit_ops \<Rightarrow> nat \<Rightarrow> 'f Expr option parser"
  and select_depth :: "'f lit_ops \<Rightarrow> nat \<Rightarrow> 'f SelectStmt parser" where
  "primary_depth D 0 ts = Inl TooDeep"
| "primary_depth D (Suc n) ts = primary_body D (primary_depth D n) (select_depth D n) ts"
| "select_depth D 0 ts = Inl TooDeep"
| "select_depth D (Suc n) ts = select_body D (primary_depth D n) (select_depth D n) ts"

definition parse_primary_expr :: "'f lit_ops \<Rightarrow> 'f Expr option parser" where
  "parse_primary_expr D ts = primary_depth D (Suc (length ts)) ts"

definition parse_select :: "'f lit_ops \<Rightarrow> 'f SelectStmt parser" where
  "parse_select D ts = select_depth D (Suc (length ts)) ts"

definition parse_expr :: "'f lit_ops \<Rightarrow> 'f Expr option parser" where
  "parse_expr D = parse_expr_of (parse_primary_expr D)"

definition parse_where :: "'f lit_ops \<Rightarrow> 'f Expr option parser" where
  "parse_where D = parse_expr D"

section \<open>DDL\<close>

text \<open>\<open>require c msg p\<close> is \<^verbatim>\<open>if (!c) throw\<close> followed by \<open>p\<close>.\<close>

definition require :: "(Token list \<Rightarrow> bool) \<Rightarrow> string \<Rightarrow> 'a parser \<Rightarrow> 'a parser" where
  "require c msg p = branch c p (err msg)"

definition type_is :: "TokenType \<Rightarrow> Token list \<Rightarrow> bool" where
  "type_is t ts \<longleftrightarrow> token_type (current ts) = t"

definition parse_ddl_column_def :: "DdlColumnDef parser" where
  "parse_ddl_column_def =
     pbind (expect IDENT ''column name'') (\<lambda>c.
     pbind (expect IDENT ''column type'') (\<lambda>t. ret \<lparr>ddl_column = c, type_str = to_upper_str t\<rparr>))"

text \<open>One option of WITH ( ... ) of CREATE TABLE.\<close>

definition table_option :: "CreateTableStmt \<Rightarrow> CreateTableStmt parser" where
  "table_option st =
     pbind (expect IDENT ''table option name'') (\<lambda>raw. let key = to_upper_str raw in
     pseq (expect EQ ''='')
     (if key = ''PLACEMENT'' \<or> key = ''PLACEMENT_POLICY'' then
        require (\<lambda>ts. type_is STRINGLIT ts \<or> type_is IDENT ts) ''Expected placement policy string or identifier''
          (pbind take_value (\<lambda>v. ret (st\<lparr>placement_policy := Some v\<rparr>)))
      else if key = ''NODE_ID'' \<or> key = ''PLACEMENT_NODE_ID'' then
        pbind parse_integer_literal (\<lambda>n.
          if n \<le> 0 \<or> n > 4294967295 then err ''placement node_id must be a positive uint32''
          else ret (st\<lparr>placement_node_id := Some (word_of_int n)\<rparr>))
      else err (''Unsupported CREATE TABLE option: '' @ key)))"

definition parse_create_table :: "CreateTableStmt parser" where
  "parse_create_table =
     pbind (branch (ident_is ''IF'')
              (pseq advance
              (require (type_is (Kw ''NOT'')) ''Expected NOT after IF in CREATE TABLE''
              (pseq advance
              (require (ident_is ''EXISTS'') ''Expected EXISTS after IF NOT''
              (pseq advance (ret True))))))
              (ret False)) (\<lambda>ine.
     pbind (expect IDENT ''table name'') (\<lambda>tbl.
     pseq (expect LPAREN ''('')
     (pbind (comma_list parse_ddl_column_def) (\<lambda>cols.
      pseq (expect RPAREN '')'')
      (let st = \<lparr>ct_table_name = tbl, ct_columns = cols, if_not_exists = ine, placement_policy = None,
                 placement_node_id = None\<rparr> in
       on_match (Kw ''WITH'')
         (pseq (expect LPAREN ''('')
         (pbind (comma_loop table_option st) (\<lambda>st. pseq (expect RPAREN '')'') (ret st))))
         (ret st))))))"

definition parse_drop_table :: "DropTableStmt parser" where
  "parse_drop_table =
     pbind (branch (ident_is ''IF'')
              (pseq advance
              (require (ident_is ''EXISTS'') ''Expected EXISTS after IF in DROP TABLE''
              (pseq advance (ret True))))
              (ret False)) (\<lambda>ie.
     pbind (expect IDENT ''table name'') (\<lambda>tbl. ret \<lparr>dt_table_name = tbl, if_exists = ie\<rparr>))"

definition parse_ns :: "i64 parser" where
  "parse_ns =
     pbind parse_integer_literal (\<lambda>v.
     pbind (branch (type_is IDENT) (pbind take_value (\<lambda>u. ret (to_upper_str u))) (ret ''HOURS'')) (\<lambda>unit.
     if unit = ''HOURS'' then ret (wrap64 (v * 3600000000000))
     else if unit = ''DAYS'' then ret (wrap64 (v * 86400000000000))
     else if unit = ''MINUTES'' then ret (wrap64 (v * 60000000000))
     else err (''Unknown time unit: '' @ unit)))"

text \<open>One tier of a storage policy; the flag is false when the loop is left.\<close>

definition storage_tier :: "(i64 \<times> i64 \<times> i64) \<times> bool \<Rightarrow> ((i64 \<times> i64 \<times> i64) \<times> bool) parser" where
  "storage_tier = (\<lambda>((warm, cold, drp), _).
     pbind take_value (\<lambda>raw. let tier = to_upper_str raw in
       if tier = ''HOT'' then pseq parse_ns (ret ((warm, cold, drp), True))
       else if tier = ''WARM'' then pbind parse_ns (\<lambda>n. ret ((n, cold, drp), True))
       else if tier = ''COLD'' then pbind parse_ns (\<lambda>n. ret ((warm, n, drp), True))
       else if tier = ''DROP'' then pbind parse_ns (\<lambda>n. ret ((warm, cold, n), True))
       else ret ((warm, cold, drp), False)))"

definition alter_set :: "AlterAction parser" where
  "alter_set =
     require (type_is IDENT) ''Expected TTL or ATTRIBUTE after SET''
     (branch (ident_is ''ATTRIBUTE'')
       (pseq advance
       (pbind (expect IDENT ''column name'') (\<lambda>c.
        pbind (expect IDENT ''attribute type (SORTED/GROUPED/PARTED)'') (\<lambda>raw.
        let ty = to_upper_str raw in
        if ty \<noteq> ''SORTED'' \<and> ty \<noteq> ''GROUPED'' \<and> ty \<noteq> ''PARTED''
        then err (''Unknown attribute type: '' @ ty @ '' (expected SORTED, GROUPED, or PARTED)'')
        else ret (SET_ATTRIBUTE c ty)))))
     (branch (ident_is ''TTL'')
       (pseq advance
       (pbind parse_integer_literal (\<lambda>n.
        pbind (branch (type_is IDENT) (pbind take_value (\<lambda>u. ret (to_upper_str u))) (ret ''DAYS'')) (\<lambda>u.
        ret (SET_TTL n u)))))
     (branch (ident_is ''STORAGE'')
       (pseq advance
       (require (ident_is ''POLICY'') ''Expected POLICY after STORAGE''
       (pseq advance
       (pbind (while_do (\<lambda>(_, go) ts. go \<and> type_is IDENT ts) storage_tier ((0, 0, 0), True)) (\<lambda>((w, c, d), _).
        ret (SET_STORAGE_POLICY w c d))))))
     (err ''Expected TTL, ATTRIBUTE, or STORAGE after SET''))))"

definition opt_column_word :: "unit parser" where
  "opt_column_word = branch (ident_is ''COLUMN'') advance (ret ())"

definition parse_alter_table :: "AlterTableStmt parser" where
  "parse_alter_table =
     pbind (expect IDENT ''table name'') (\<lambda>tbl.
     require (\<lambda>ts. type_is IDENT ts \<or> type_is (Kw ''SET'') ts) ''Expected ADD, DROP, or SET after ALTER TABLE name''
     (pbind (branch (type_is (Kw ''SET'')) (pseq advance (ret ''SET''))
                    (pbind take_value (\<lambda>v. ret (to_upper_str v)))) (\<lambda>act.
      pbind (if act = ''ADD'' then pseq opt_column_word (pbind parse_ddl_column_def (\<lambda>c. ret (ADD_COLUMN c)))
             else if act = ''DROP'' then
               pseq opt_column_word (pbind (expect IDENT ''column name'') (\<lambda>c. ret (DROP_COLUMN c)))
             else if act = ''SET'' then alter_set
             else err (''Unknown ALTER TABLE action: '' @ act)) (\<lambda>a.
      ret \<lparr>at_table_name = tbl, action = a\<rparr>))))"

definition parse_mv_head :: "string parser" where
  "parse_mv_head =
     pseq advance
     (require (type_is (Kw ''VIEW'')) ''Expected VIEW after MATERIALIZED''
     (pseq advance (expect IDENT ''view name'')))"

definition dispatch_ddl :: "'f lit_ops \<Rightarrow> 'f ParsedStatement parser" where
  "dispatch_ddl D =
     pbind take_value (\<lambda>raw. let verb = to_upper_str raw in
     if verb = ''CREATE'' then
       branch (type_is (Kw ''MATERIALIZED''))
         (pbind parse_mv_head (\<lambda>v.
          pseq (on_match (Kw ''AS'') (ret ()) (require (ident_is ''AS'') ''Expected AS after view name'' advance))
          (pbind (parse_select D) (\<lambda>q. ret (PS_CREATE_MV v q)))))
         (require (ident_is ''TABLE'') ''Expected TABLE or MATERIALIZED after CREATE''
           (pseq advance (pbind parse_create_table (\<lambda>t. ret (PS_CREATE_TABLE t)))))
     else if verb = ''DROP'' then
       branch (type_is (Kw ''MATERIALIZED''))
         (pbind parse_mv_head (\<lambda>v. ret (PS_DROP_MV v)))
         (require (ident_is ''TABLE'') ''Expected TABLE or MATERIALIZED after DROP''
           (pseq advance (pbind parse_drop_table (\<lambda>t. ret (PS_DROP_TABLE t)))))
     else
       require (ident_is ''TABLE'') ''Expected TABLE after ALTER''
         (pseq advance (pbind parse_alter_table (\<lambda>t. ret (PS_ALTER_TABLE t)))))"

section \<open>DML\<close>

definition check_ahead_is_values :: "Token list \<Rightarrow> bool" where
  "check_ahead_is_values ts \<longleftrightarrow> length ts > 1 \<and> (token_type (ts ! 1) = NUMBER \<or> token_type (ts ! 1) = MINUS)"

definition insert_value :: "'f lit_ops \<Rightarrow> 'f InsertValue parser" where
  "insert_value D =
     branch (check STRINGLIT)
       (pbind take_value (\<lambda>v. ret (IV_STRING v)))
       (pbind (on_match MINUS (ret True) (ret False)) (\<lambda>neg.
        pbind (expect NUMBER ''number or string'') (\<lambda>s.
        if is_float_text s
        then pbind (lift_result (stod D s)) (\<lambda>d. ret (IV_FLOAT (if neg then fp_neg D d else d)))
        else pbind (lift_result (stoll s)) (\<lambda>v. ret (IV_INT (if neg then wrap64 (- v) else v))))))"

definition parse_insert :: "'f lit_ops \<Rightarrow> 'f InsertStmt parser" where
  "parse_insert D =
     pseq (expect (Kw ''INSERT'') ''INSERT'')
     (pseq (expect (Kw ''INTO'') ''INTO'')
     (pbind (expect IDENT ''table name'') (\<lambda>tbl.
      pbind (branch (\<lambda>ts. check LPAREN ts \<and> \<not> check_ahead_is_values ts)
               (pseq advance
               (pbind (comma_list (expect IDENT ''column name'')) (\<lambda>cs. pseq (expect RPAREN '')'') (ret cs))))
               (ret [])) (\<lambda>cols.
      pseq (expect (Kw ''VALUES'') ''VALUES'')
      (pbind (comma_list
                (pseq (expect LPAREN ''('')
                (pbind (comma_list (insert_value D)) (\<lambda>row. pseq (expect RPAREN '')'') (ret row))))) (\<lambda>rows.
       ret \<lparr>ins_table_name = tbl, ins_columns = cols, value_rows = rows\<rparr>))))))"

definition update_assign :: "(string \<times> i64) parser" where
  "update_assign =
     pbind (expect IDENT ''column name'') (\<lambda>c.
     pseq (expect EQ ''='')
     (pbind (on_match MINUS (ret True) (ret False)) (\<lambda>neg.
      pbind parse_integer_literal (\<lambda>v. ret (c, if neg then wrap64 (- v) else v)))))"

definition parse_update :: "'f lit_ops \<Rightarrow> 'f UpdateStmt parser" where
  "parse_update D =
     pseq (expect (Kw ''UPDATE'') ''UPDATE'')
     (pbind (expect IDENT ''table name'') (\<lambda>tbl.
      pseq (expect (Kw ''SET'') ''SET'')
      (pbind (comma_list update_assign) (\<lambda>asg.
       pbind (optional (Kw ''WHERE'') (parse_where D)) (\<lambda>w.
       ret \<lparr>upd_table_name = tbl, assignments = asg, upd_where = w\<rparr>)))))"

definition parse_delete :: "'f lit_ops \<Rightarrow> 'f DeleteStmt parser" where
  "parse_delete D =
     pseq (expect (Kw ''DELETE_KW'') ''DELETE'')
     (pseq (expect (Kw ''FROM'') ''FROM'')
     (pbind (expect IDENT ''table name'') (\<lambda>tbl.
      pbind (optional (Kw ''WHERE'') (parse_where D)) (\<lambda>w.
      ret \<lparr>del_table_name = tbl, del_where = w\<rparr>))))"

section \<open>Statements\<close>

definition parse_cte_list :: "'f lit_ops \<Rightarrow> (string \<times> 'f SelectStmt) list parser" where
  "parse_cte_list D =
     pseq advance
     (comma_list
       (pbind (expect IDENT ''CTE name'') (\<lambda>n.
        pseq (expect (Kw ''AS'') ''AS'')
        (pseq (expect LPAREN ''('')
        (pbind (parse_select D) (\<lambda>q. pseq (expect RPAREN '')'') (ret (n, q))))))))"

definition set_op_ahead :: "Token list \<Rightarrow> bool" where
  "set_op_ahead ts \<longleftrightarrow> check (Kw ''UNION'') ts \<or> check (Kw ''INTERSECT'') ts \<or> check (Kw ''EXCEPT'') ts"

definition set_operation :: "'f lit_ops \<Rightarrow> 'f SelectQuery \<Rightarrow> 'f SelectQuery parser" where
  "set_operation D q =
     pbind (on_match (Kw ''UNION'')
              (on_match (Kw ''ALL'') (ret SO_UNION_ALL) (ret SO_UNION_DISTINCT))
           (on_match (Kw ''INTERSECT'') (ret SO_INTERSECT)
           (pseq advance (ret SO_EXCEPT)))) (\<lambda>op.
     pbind (parse_select D) (\<lambda>r. ret (q\<lparr>set_op := op, rhs := Some r\<rparr>)))"

definition select_statement :: "'f lit_ops \<Rightarrow> 'f SelectQuery parser" where
  "select_statement D =
     pbind (on_match (Kw ''EXPLAIN'') (ret True) (ret False)) (\<lambda>ex.
     pbind (branch (check (Kw ''WITH'')) (parse_cte_list D) (ret [])) (\<lambda>ctes.
     pbind (parse_select D) (\<lambda>sel.
     while_do (\<lambda>_. set_op_ahead) (set_operation D)
       \<lparr>cte_defs = ctes, explain = ex, select = sel, set_op = SO_NONE, rhs = None\<rparr>)))"

text \<open>The dispatch on the first token of a statement.\<close>

definition statement :: "'f lit_ops \<Rightarrow> 'f ParsedStatement parser" where
  "statement D =
     branch (\<lambda>ts. ident_is ''CREATE'' ts \<or> ident_is ''DROP'' ts \<or> ident_is ''ALTER'' ts) (dispatch_ddl D)
     (branch (ident_is ''SHOW'')
        (pseq advance
        (pseq (branch (\<lambda>ts. \<not> at_end ts \<and> ident_is ''TABLES'' ts) advance (ret ()))
        (ret PS_SHOW_TABLES)))
     (branch (\<lambda>ts. ident_is ''DESCRIBE'' ts \<or> ident_is ''DESC'' ts)
        (pseq advance
        (branch at_end (ret (PS_DESCRIBE_TABLE [])) (pbind take_value (\<lambda>v. ret (PS_DESCRIBE_TABLE v)))))
     (branch (type_is (Kw ''INSERT'')) (pbind (parse_insert D) (\<lambda>s. ret (PS_INSERT s)))
     (branch (type_is (Kw ''UPDATE'')) (pbind (parse_update D) (\<lambda>s. ret (PS_UPDATE s)))
     (branch (type_is (Kw ''DELETE_KW'')) (pbind (parse_delete D) (\<lambda>s. ret (PS_DELETE s)))
     (pbind (select_statement D) (\<lambda>q. ret (PS_SELECT q))))))))"

definition parse_statement :: "'f lit_ops \<Rightarrow> string \<Rightarrow> perror + 'f ParsedStatement" where
  "parse_statement D sql =
     (case tokenize sql of
        Inl e \<Rightarrow> Inl (TokenizerError e)
      | Inr ts \<Rightarrow> (case statement D ts of Inl e \<Rightarrow> Inl e | Inr (s, _) \<Rightarrow> Inr s))"

definition parse_sql :: "'f lit_ops \<Rightarrow> string \<Rightarrow> perror + 'f SelectQuery" where
  "parse_sql D sql =
     (case parse_statement D sql of
        Inl e \<Rightarrow> Inl e
      | Inr (PS_SELECT q) \<Rightarrow> Inr q
      | Inr _ \<Rightarrow> Inl (RuntimeError ''Expected SELECT statement, got DDL''))"

end
