(* ===== verification/Sql_Parser_Total.thy ===== *)
theory Sql_Parser_Total
  imports Sql_Parser
begin

text \<open>
  The parser returns on every input. Two parsers are \<^emph>\<open>alike below\<close> a length when, on every shorter list of tokens,
  they give the same result, never report the depth limit and never return more tokens than they were given. The
  bodies of the recursive functions consume a token before they call themselves, so they turn functions that are
  alike below a length into functions that are alike below the next one. It follows that the depth does not matter
  and that the functions satisfy the recursive equations of the source.
\<close>

section \<open>Parsers that are alike\<close>

definition alike :: "nat \<Rightarrow> 'a parser \<Rightarrow> 'a parser \<Rightarrow> bool" where
  "alike k p q \<longleftrightarrow> (\<forall>us. length us < k \<longrightarrow>
     p us = q us \<and> p us \<noteq> Inl TooDeep \<and> (\<forall>x r. p us = Inr (x, r) \<longrightarrow> length r \<le> length us))"

text \<open>A parser that consumes a token whenever it succeeds.\<close>

definition eats :: "'a parser \<Rightarrow> bool" where
  "eats p \<longleftrightarrow> (\<forall>ts x r. p ts = Inr (x, r) \<longrightarrow> length r < length ts)"

named_theorems alike_rules

lemma alikeD:
  assumes "alike k p q" "length us < k"
  shows "p us = q us" "p us \<noteq> Inl TooDeep" "p us = Inr (x, r) \<Longrightarrow> length r \<le> length us"
  using assms by (auto simp: alike_def)

lemma alike_0 [simp]: "alike 0 p q"
  by (simp add: alike_def)

lemma alike_ret [alike_rules]: "alike k (ret x) (ret x)"
  by (simp add: alike_def ret_def)

lemma alike_errors [alike_rules]: "alike k (err m) (err m)" "alike k (err_got m) (err_got m)"
  by (simp_all add: alike_def err_def pfail_def err_got_def)

lemma alike_lift [alike_rules]: "alike k (lift_result v) (lift_result v)"
  by (simp add: alike_def lift_result_def split: sum.splits)

lemma alike_take [alike_rules]: "alike k take_value take_value" "alike k advance advance"
  by (auto simp: alike_def take_value_def advance_def)

lemma alike_bind [alike_rules]:
  assumes p: "alike k p q" and f: "\<And>x. alike k (f x) (g x)"
  shows "alike k (pbind p f) (pbind q g)"
  unfolding alike_def
proof (intro allI impI)
  fix us :: "Token list" assume k: "length us < k"
  note P = alikeD [OF p k]
  show "pbind p f us = pbind q g us \<and> pbind p f us \<noteq> Inl TooDeep \<and>
      (\<forall>x r. pbind p f us = Inr (x, r) \<longrightarrow> length r \<le> length us)"
  proof (cases "p us")
    case (Inl e)
    then have "q us = Inl e" "e \<noteq> TooDeep" using P(1,2) by auto
    with Inl show ?thesis by (simp add: pbind_def)
  next
    case (Inr y)
    obtain x r where y: "y = (x, r)" by (cases y)
    with Inr P(3) have r: "length r \<le> length us" by simp
    then have "length r < k" using k by simp
    moreover have "q us = Inr (x, r)" using P(1) Inr y by simp
    ultimately show ?thesis using alikeD [of k "f x" "g x" r] f r Inr y by (fastforce simp: pbind_def)
  qed
qed

lemma alike_seq [alike_rules]: "alike k p q \<Longrightarrow> alike k f g \<Longrightarrow> alike k (pseq p f) (pseq q g)"
  unfolding pseq_def by (intro alike_bind)

lemma alike_branch [alike_rules]:
  assumes "alike k p p'" "alike k q q'"
  shows "alike k (branch c p q) (branch c p' q')"
  unfolding alike_def
proof (intro allI impI)
  fix us :: "Token list" assume k: "length us < k"
  from alikeD [OF assms(1) k] alikeD [OF assms(2) k]
  show "branch c p q us = branch c p' q' us \<and> branch c p q us \<noteq> Inl TooDeep \<and>
      (\<forall>x r. branch c p q us = Inr (x, r) \<longrightarrow> length r \<le> length us)"
    by (cases "c us") (simp_all add: branch_def)
qed

lemma check_nonempty: "check t us \<Longrightarrow> us \<noteq> []"
  by (auto simp: check_def at_end_def)

lemma alike_on_match [alike_rules]:
  "alike k p p' \<Longrightarrow> alike k q q' \<Longrightarrow> alike k (on_match t p q) (on_match t p' q')"
  unfolding on_match_def by (intro alike_rules)

lemma alike_opt_match [alike_rules]: "alike k (opt_match t) (opt_match t)"
  unfolding opt_match_def by (intro alike_rules)

lemma alike_if [alike_rules]:
  "(b \<Longrightarrow> alike k p p') \<Longrightarrow> (\<not> b \<Longrightarrow> alike k q q') \<Longrightarrow> alike k (if b then p else q) (if b then p' else q')"
  by simp

lemma alike_expect [alike_rules]: "alike k (expect t m) (expect t m)"
  unfolding expect_def by (intro alike_rules)

lemma eats_expect: "eats (expect t m)"
  by (auto simp: eats_def expect_def branch_def take_value_def err_got_def dest!: check_nonempty split: if_splits)

text \<open>After a token was consumed, it is enough to be alike below a smaller length.\<close>

lemma alike_bind_eats:
  assumes e: "eats p" and p: "alike (Suc k) p p" and f: "\<And>x. alike k (f x) (g x)"
  shows "alike (Suc k) (pbind p f) (pbind p g)"
  unfolding alike_def
proof (intro allI impI)
  fix us :: "Token list" assume k: "length us < Suc k"
  note P = alikeD [OF p k]
  show "pbind p f us = pbind p g us \<and> pbind p f us \<noteq> Inl TooDeep \<and>
      (\<forall>x r. pbind p f us = Inr (x, r) \<longrightarrow> length r \<le> length us)"
  proof (cases "p us")
    case (Inl e)
    with P show ?thesis by (auto simp: pbind_def)
  next
    case (Inr y)
    obtain x r where y: "y = (x, r)" by (cases y)
    with Inr e have r: "length r < length us" by (simp add: eats_def)
    then have "length r < k" using k by simp
    from alikeD [OF f this, of x] r Inr y show ?thesis by (fastforce simp: pbind_def)
  qed
qed

lemma alike_next:
  assumes "\<And>us. c us \<Longrightarrow> us \<noteq> []" "alike k p p'" "alike (Suc k) q q'"
  shows "alike (Suc k) (branch c (pseq advance p) q) (branch c (pseq advance p') q')"
  unfolding alike_def
proof (intro allI impI)
  fix us :: "Token list" assume k: "length us < Suc k"
  show "branch c (pseq advance p) q us = branch c (pseq advance p') q' us \<and>
      branch c (pseq advance p) q us \<noteq> Inl TooDeep \<and>
      (\<forall>x r. branch c (pseq advance p) q us = Inr (x, r) \<longrightarrow> length r \<le> length us)"
  proof (cases "c us")
    case True
    then have "length (tl us) < k" using assms(1) [OF True] k by (cases us) auto
    from alikeD [OF assms(2) this] True show ?thesis
      by (fastforce simp: branch_def pseq_def pbind_def advance_def)
  next
    case False
    with alikeD [OF assms(3) k] show ?thesis by (simp add: branch_def)
  qed
qed

lemma alike_on_match_next:
  "alike k p p' \<Longrightarrow> alike (Suc k) q q' \<Longrightarrow> alike (Suc k) (on_match t p q) (on_match t p' q')"
  unfolding on_match_def by (intro alike_next) (auto dest: check_nonempty)

lemma alike_take_next:
  assumes "\<And>us. c us \<Longrightarrow> us \<noteq> []" "\<And>v. alike k (f v) (g v)" "alike (Suc k) q q'"
  shows "alike (Suc k) (branch c (pbind take_value f) q) (branch c (pbind take_value g) q')"
  unfolding alike_def
proof (intro allI impI)
  fix us :: "Token list" assume k: "length us < Suc k"
  show "branch c (pbind take_value f) q us = branch c (pbind take_value g) q' us \<and>
      branch c (pbind take_value f) q us \<noteq> Inl TooDeep \<and>
      (\<forall>x r. branch c (pbind take_value f) q us = Inr (x, r) \<longrightarrow> length r \<le> length us)"
  proof (cases "c us")
    case True
    then have "length (tl us) < k" using assms(1) [OF True] k by (cases us) auto
    from alikeD [OF assms(2) this] True show ?thesis
      by (fastforce simp: branch_def pbind_def take_value_def)
  next
    case False
    with alikeD [OF assms(3) k] show ?thesis by (simp add: branch_def)
  qed
qed

text \<open>Loops whose body consumes a token.\<close>

lemma while_loop_alike:
  assumes step: "\<And>s us. c s us \<Longrightarrow> length us < k \<Longrightarrow> b s us = b' s us \<and> b s us \<noteq> Inl TooDeep \<and>
      (\<forall>x r. b s us = Inr (x, r) \<longrightarrow> length r < length us)"
    and nonempty: "\<And>s us. c s us \<Longrightarrow> us \<noteq> []"
  shows "length us < k \<Longrightarrow> length us \<le> n \<Longrightarrow> length us \<le> m \<Longrightarrow>
    while_loop n c b s us = while_loop m c b' s us \<and> while_loop n c b s us \<noteq> Inl TooDeep \<and>
    (\<forall>x r. while_loop n c b s us = Inr (x, r) \<longrightarrow> length r \<le> length us)"
proof (induction n arbitrary: m s us)
  case 0
  then have "us = []" by simp
  with nonempty [of s us] show ?case by (cases m) auto
next
  case (Suc n)
  show ?case
  proof (cases "c s us")
    case False
    then show ?thesis by (cases m) auto
  next
    case True
    then obtain m' where m: "m = Suc m'" using nonempty [OF True] Suc.prems(3) by (cases m) auto
    note S = step [OF True Suc.prems(1)]
    show ?thesis
    proof (cases "b s us")
      case (Inl e)
      then have "b' s us = Inl e" "e \<noteq> TooDeep" using S by auto
      with Inl True m show ?thesis by (simp add: pbind_def)
    next
      case (Inr y)
      obtain x r where y: "y = (x, r)" by (cases y)
      with S Inr have r: "length r < length us" by simp
      have "while_loop n c b x r = while_loop m' c b' x r \<and> while_loop n c b x r \<noteq> Inl TooDeep \<and>
          (\<forall>z w. while_loop n c b x r = Inr (z, w) \<longrightarrow> length w \<le> length r)"
        by (rule Suc.IH) (use r Suc.prems m in auto)
      moreover have "b' s us = Inr (x, r)" using S Inr y by simp
      ultimately show ?thesis using Inr True m y r by (auto simp: pbind_def)
    qed
  qed
qed

lemma alike_while_gen:
  assumes "\<And>s us. c s us \<Longrightarrow> length us < k \<Longrightarrow> b s us = b' s us \<and> b s us \<noteq> Inl TooDeep \<and>
      (\<forall>x r. b s us = Inr (x, r) \<longrightarrow> length r < length us)"
    and "\<And>s us. c s us \<Longrightarrow> us \<noteq> []"
  shows "alike k (while_do c b s) (while_do c b' s)"
  unfolding alike_def while_do_def
proof (intro allI impI)
  fix us :: "Token list" assume "length us < k"
  then show "while_loop (length us) c b s us = while_loop (length us) c b' s us \<and>
      while_loop (length us) c b s us \<noteq> Inl TooDeep \<and>
      (\<forall>x r. while_loop (length us) c b s us = Inr (x, r) \<longrightarrow> length r \<le> length us)"
    using while_loop_alike [where n = "length us" and m = "length us" and c = c and k = k and b = b and b' = b'] assms
    by blast
qed

lemma advance_step:
  assumes "alike k q q'" "us \<noteq> []" "length us < k"
  shows "pseq advance q us = pseq advance q' us \<and> pseq advance q us \<noteq> Inl TooDeep \<and>
    (\<forall>x r. pseq advance q us = Inr (x, r) \<longrightarrow> length r < length us)"
proof -
  have "length (tl us) < length us" using assms(2) by (cases us) auto
  with alikeD [OF assms(1), of "tl us"] assms(3) show ?thesis
    by (fastforce simp: pseq_def pbind_def advance_def)
qed

lemma alike_while [alike_rules]:
  assumes "\<And>s us. c s us \<Longrightarrow> us \<noteq> []" "\<And>s. alike k (b s) (b' s)"
  shows "alike k (while_do c (\<lambda>s. pseq advance (b s)) s) (while_do c (\<lambda>s. pseq advance (b' s)) s)"
proof (rule alike_while_gen)
  fix s us assume "c s us" "length us < k"
  with assms advance_step [of k "b s" "b' s" us] show "pseq advance (b s) us = pseq advance (b' s) us \<and>
      pseq advance (b s) us \<noteq> Inl TooDeep \<and> (\<forall>x r. pseq advance (b s) us = Inr (x, r) \<longrightarrow> length r < length us)"
    by blast
qed (use assms(1) in blast)

lemma alike_comma_loop [alike_rules]:
  "(\<And>s. alike k (b s) (b' s)) \<Longrightarrow> alike k (comma_loop b s) (comma_loop b' s)"
  unfolding comma_loop_def by (intro alike_rules) (auto dest: check_nonempty)

lemma alike_comma_list [alike_rules]: "alike k p p' \<Longrightarrow> alike k (comma_list p) (comma_list p')"
  unfolding comma_list_def by (intro alike_rules)

lemma alike_prod [alike_rules]:
  "(\<And>a b. alike k (f a b) (g a b)) \<Longrightarrow> alike k (case x of (a, b) \<Rightarrow> f a b) (case x of (a, b) \<Rightarrow> g a b)"
  by (cases x) simp

section \<open>The parsers without recursion\<close>

lemma alike_literals [alike_rules]:
  "alike k parse_integer_literal parse_integer_literal"
  "alike k parse_string_literal parse_string_literal"
  unfolding parse_integer_literal_def parse_string_literal_def by (intro alike_rules)+

lemma alike_compare_op [alike_rules]: "alike k parse_compare_op parse_compare_op"
proof -
  have "alike k (pseq advance (ret x)) (pseq advance (ret x))" for x :: CompareOp by (intro alike_rules)
  moreover have "alike k (err_got m) (err_got m :: CompareOp parser)" for m by (intro alike_rules)
  ultimately show ?thesis unfolding alike_def parse_compare_op_def by (auto split: TokenType.splits)
qed

lemma alike_qualified_name [alike_rules]: "alike k parse_qualified_name parse_qualified_name"
  unfolding parse_qualified_name_def by (intro alike_rules)

lemma ident_like_nonempty: "is_ident_like ts \<Longrightarrow> ts \<noteq> []"
  by (auto simp: is_ident_like_def current_def tok_def dest: check_nonempty)

lemma eats_qualified_name: "eats parse_qualified_name"
proof -
  have "length r < length ts" if "parse_qualified_name ts = Inr (x, r)" for ts x r
  proof (cases ts)
    case Nil
    have "\<not> is_ident_like []" "\<not> check STAR []"
      using ident_like_nonempty [of "[]"] check_nonempty [of STAR "[]"] by auto
    with Nil that show ?thesis by (simp add: parse_qualified_name_def branch_def err_got_def)
  next
    case (Cons t us)
    have "alike (Suc (length us)) (on_match DOT
            (branch (check STAR)
               (pseq advance (ret (first, ''*'')))
               (branch is_ident_like
                  (pbind take_value (\<lambda>c. ret (first, c)))
                  (pbind (expect IDENT ''column name'') (\<lambda>c. ret (first, c)))))
            (ret ([], first))) (on_match DOT
            (branch (check STAR)
               (pseq advance (ret (first, ''*'')))
               (branch is_ident_like
                  (pbind take_value (\<lambda>c. ret (first, c)))
                  (pbind (expect IDENT ''column name'') (\<lambda>c. ret (first, c)))))
            (ret ([], first)))" for first
      by (intro alike_rules)
    from alikeD(3) [OF this, of us] that Cons show ?thesis
      by (auto simp: parse_qualified_name_def branch_def [of is_ident_like _ _ "t # us"] pbind_def [of take_value]
          take_value_def branch_def [of "check STAR" _ _ "t # us"] err_got_def pseq_def pbind_def [of advance]
          advance_def ret_def less_Suc_eq_le split: if_splits)
  qed
  then show ?thesis by (auto simp: eats_def)
qed

lemma alike_window_spec [alike_rules]: "alike k parse_window_spec parse_window_spec"
  unfolding parse_window_spec_def parse_frame_def frame_bound_def win_order_item_def parse_direction_def Let_def
  by (intro alike_rules)

lemma alike_join [alike_rules]: "alike k parse_join parse_join"
  unfolding parse_join_def parse_join_type_def parse_join_cond_def join_offset_def Let_def
  by (intro alike_rules) (auto dest: check_nonempty)

lemma alike_group_order [alike_rules]: "alike k parse_group_by parse_group_by" "alike k parse_order_by parse_order_by"
  unfolding parse_group_by_def group_by_item_def parse_order_by_def order_by_item_def parse_direction_def
  by (intro alike_rules)+

section \<open>Value expressions\<close>

lemma call_ahead_nonempty: "call_ahead us \<Longrightarrow> us \<noteq> []"
  by (auto simp: call_ahead_def dest: check_nonempty)

lemma alike_arith_call:
  assumes "alike k p q" "alike (Suc k) r r'"
  shows "alike (Suc k) (branch call_ahead (arith_call p) r) (branch call_ahead (arith_call q) r')"
  unfolding arith_call_def Let_def
  by (intro alike_take_next alike_rules assms) (rule call_ahead_nonempty)

lemma alike_arith_primary:
  assumes "alike k p q"
  shows "alike (Suc k) (parse_arith_primary D p) (parse_arith_primary D q)"
  unfolding parse_arith_primary_def
  by (rule alike_on_match_next, intro alike_rules assms, rule alike_branch, intro alike_rules,
      (rule alike_on_match_next, intro alike_rules assms)+, rule alike_arith_call [OF assms], intro alike_rules)

lemma alike_binary_loop:
  assumes "alike k p q" "\<And>us. c us \<Longrightarrow> us \<noteq> []"
  shows "alike k (while_do (\<lambda>_. c) (\<lambda>left ts. pseq advance (pbind p (\<lambda>right. ret (f ts left right))) ts) s)
    (while_do (\<lambda>_. c) (\<lambda>left ts. pseq advance (pbind q (\<lambda>right. ret (f ts left right))) ts) s)"
proof (rule alike_while_gen)
  fix s us assume us: "c us" "length us < k"
  have "alike k (pbind p (\<lambda>right. ret (f us s right))) (pbind q (\<lambda>right. ret (f us s right)))"
    by (intro alike_rules assms)
  from advance_step [OF this assms(2) [OF us(1)] us(2)]
  show "pseq advance (pbind p (\<lambda>right. ret (f us s right))) us = pseq advance (pbind q (\<lambda>right. ret (f us s right))) us \<and>
      pseq advance (pbind p (\<lambda>right. ret (f us s right))) us \<noteq> Inl TooDeep \<and>
      (\<forall>x r. pseq advance (pbind p (\<lambda>right. ret (f us s right))) us = Inr (x, r) \<longrightarrow> length r < length us)" .
qed (rule assms(2))

lemma alike_arith_sum:
  assumes "alike k p q"
  shows "alike k (parse_arith_term p) (parse_arith_term q)" "alike k (parse_arith_sum p) (parse_arith_sum q)"
  unfolding parse_arith_term_def parse_arith_sum_def Let_def
  by (intro alike_bind alike_binary_loop assms; auto dest: check_nonempty)+

lemma alike_arith_body: "alike k p q \<Longrightarrow> alike (Suc k) (arith_body D p) (arith_body D q)"
  unfolding arith_body_def by (intro alike_arith_sum alike_arith_primary)

text \<open>Beyond the number of tokens the depth does not matter.\<close>

lemma arith_depth_alike: "k \<le> n \<Longrightarrow> k \<le> m \<Longrightarrow> alike k (arith_depth D n) (arith_depth D m)"
proof (induction k arbitrary: n m)
  case (Suc k)
  then obtain n' m' where nm: "n = Suc n'" "m = Suc m'" "k \<le> n'" "k \<le> m'" by (cases n; cases m) auto
  have "alike (Suc k) (arith_body D (arith_depth D n')) (arith_body D (arith_depth D m'))"
    by (intro alike_arith_body Suc.IH nm)
  moreover have "arith_depth D (Suc j) = arith_body D (arith_depth D j)" for j by (rule ext) simp
  ultimately show ?case by (simp only: nm)
qed simp

lemma arith_node_alike: "k \<le> n \<Longrightarrow> alike k (arith_depth D n) (parse_arith_expr_node D)"
  unfolding alike_def
proof (intro allI impI)
  fix us :: "Token list" assume "k \<le> n" "length us < k"
  then have "alike (Suc (length us)) (arith_depth D n) (arith_depth D (Suc (length us)))"
    by (intro arith_depth_alike) auto
  from alikeD [OF this, of us]
  show "arith_depth D n us = parse_arith_expr_node D us \<and> arith_depth D n us \<noteq> Inl TooDeep \<and>
      (\<forall>x r. arith_depth D n us = Inr (x, r) \<longrightarrow> length r \<le> length us)"
    by (simp add: parse_arith_expr_node_def)
qed

lemma parse_arith_expr_node_eq: "parse_arith_expr_node D = arith_body D (parse_arith_expr_node D)"
proof
  fix ts :: "Token list"
  have "alike (Suc (length ts)) (arith_body D (arith_depth D (length ts))) (arith_body D (parse_arith_expr_node D))"
    by (intro alike_arith_body arith_node_alike) simp
  from alikeD(1) [OF this, of ts] show "parse_arith_expr_node D ts = arith_body D (parse_arith_expr_node D) ts"
    by (simp add: parse_arith_expr_node_def)
qed

lemma alike_trans_sym: "alike k p q \<Longrightarrow> alike k p r \<Longrightarrow> alike k q r"
  unfolding alike_def by metis

lemma alike_arith_node [alike_rules]: "alike k (parse_arith_expr_node D) (parse_arith_expr_node D)"
  by (rule alike_trans_sym [of _ "arith_depth D k"]) (simp_all add: arith_node_alike)

section \<open>Conditions and SELECT\<close>

lemma alike_and_or:
  assumes "alike k p q"
  shows "alike k (parse_and_expr p) (parse_and_expr q)" "alike k (parse_expr_of p) (parse_expr_of q)"
proof -
  show c: "alike k (parse_and_expr p) (parse_and_expr q)"
    unfolding parse_and_expr_def by (intro alike_rules assms) (auto dest: check_nonempty)
  show "alike k (parse_expr_of p) (parse_expr_of q)"
    unfolding parse_expr_of_def Let_def by (intro alike_rules c) (auto dest: check_nonempty)
qed

lemma alike_conditions [alike_rules]:
  "alike k literal_condition literal_condition"
  "alike k (between_bounds l) (between_bounds l)"
  "alike k (number_value D) (number_value D)"
  "alike k (function_condition D) (function_condition D)"
  unfolding literal_condition_def between_bounds_def number_value_def function_condition_def
  by (intro alike_rules)+

lemma alike_in_element [alike_rules]: "alike k (in_element D vs) (in_element D vs)"
  unfolding in_element_def by (intro alike_rules)

lemma alike_in_loop [alike_rules]:
  "alike k (while_do (\<lambda>(vs, go) ts. go \<and> check COMMA ts) (\<lambda>(vs, _). pseq advance (in_element D vs)) s)
     (while_do (\<lambda>(vs, go) ts. go \<and> check COMMA ts) (\<lambda>(vs, _). pseq advance (in_element D vs)) s)"
proof -
  have "(\<lambda>(vs, _). pseq advance (in_element D vs)) = (\<lambda>s :: i64 list \<times> bool. pseq advance (in_element D (fst s)))"
    by (auto simp: fun_eq_iff)
  then show ?thesis
    by (simp only:) (rule alike_while, auto intro: alike_in_element dest: check_nonempty)
qed

lemma alike_in_list [alike_rules]: "alike k (in_list D) (in_list D)"
  unfolding in_list_def by (intro alike_rules)

lemma alike_compare_value:
  assumes "alike k s s'"
  shows "alike k (compare_value D a c op s) (compare_value D a c op s')"
  unfolding compare_value_def by (intro alike_rules assms)

lemma alike_column_condition:
  assumes "alike k s s'"
  shows "alike (Suc k) (column_condition D s) (column_condition D s')"
  unfolding column_condition_def
  by (intro alike_bind_eats eats_qualified_name) (intro alike_rules alike_compare_value assms)+

lemma alike_primary_body:
  assumes "alike k p p'" "alike k s s'"
  shows "alike (Suc k) (primary_body D p s) (primary_body D p' s')"
  unfolding primary_body_def
  by (intro alike_on_match_next alike_branch alike_column_condition assms) (intro alike_rules alike_and_or assms)+

lemma alike_case_when:
  assumes "alike k e e'"
  shows "alike k (parse_case_when_expr D e) (parse_case_when_expr D e')"
  unfolding parse_case_when_expr_def case_when_branch_def
  by (intro alike_rules assms) (auto dest: check_nonempty)

lemma alike_agg:
  assumes "alike k e e'"
  shows "alike k (parse_agg D e f it) (parse_agg D e' f it)"
  unfolding parse_agg_def agg_argument_def by (intro alike_rules alike_case_when assms)

lemma alike_over_clause [alike_rules]: "alike k (over_clause it) (over_clause it)"
  unfolding over_clause_def by (intro alike_rules)

lemma alike_items [alike_rules]:
  "alike k (parse_window_func D fn b1 b2 it) (parse_window_func D fn b1 b2 it)"
  "alike k (parse_percentile D it) (parse_percentile D it)"
  "alike k (parse_plain D it) (parse_plain D it)"
  "alike k (parse_over acc) (parse_over acc)"
  "alike k (parse_alias acc) (parse_alias acc)"
  unfolding parse_window_func_def window_arguments_def parse_percentile_def parse_plain_def parse_over_def
    parse_alias_def Let_def
  by (intro alike_rules)+

lemma alike_wj [alike_rules]: "alike k (parse_wj it) (parse_wj it)"
proof -
  have "alike k (pseq (expect LPAREN ''('')
         (pbind parse_qualified_name (\<lambda>n.
          pseq (expect RPAREN '')'') (ret (set_column n (it\<lparr>wj_agg := w\<rparr>), None)))))
      (pseq (expect LPAREN ''('')
         (pbind parse_qualified_name (\<lambda>n.
          pseq (expect RPAREN '')'') (ret (set_column n (it\<lparr>wj_agg := w\<rparr>), None)))))" for w
    by (intro alike_rules)
  then show ?thesis
    unfolding parse_wj_def by (intro alike_bind alike_take) (auto intro: alike_rules split: option.splits)
qed

text \<open>A parser that chooses by the first token is alike if its choices are.\<close>

lemma alike_choice:
  assumes "\<And>t. alike k (f t) (g t)"
  shows "alike k (\<lambda>ts. f (h ts) ts) (\<lambda>ts. g (h ts) ts)"
  using assms unfolding alike_def by blast

lemma alike_option [alike_rules]:
  "(\<And>a. alike k (f a) (g a)) \<Longrightarrow> alike k p q \<Longrightarrow>
   alike k (case x of Some a \<Rightarrow> f a | None \<Rightarrow> p) (case x of Some a \<Rightarrow> g a | None \<Rightarrow> q)"
  by (cases x) simp_all

definition select_choice :: "'f lit_ops \<Rightarrow> 'f Expr option parser \<Rightarrow> 'f SelectItem \<Rightarrow> TokenType \<Rightarrow> 'f item_acc parser" where
  "select_choice D expr it t =
     (case agg_keyword t of
        Some f \<Rightarrow> pseq advance (parse_agg D expr f it)
      | None \<Rightarrow>
     (case window_keyword t of
        Some (fn, has_col, has_offset) \<Rightarrow> pseq advance (parse_window_func D fn has_col has_offset it)
      | None \<Rightarrow>
        on_match (Kw ''PERCENTILE'') (parse_percentile D it)
        (on_match (Kw ''FIRST'')
          (branch (check LPAREN) (parse_agg D expr AGG_FIRST it) (ret (it\<lparr>column := ''FIRST''\<rparr>, None)))
        (on_match (Kw ''LAST'')
          (branch (check LPAREN) (parse_agg D expr AGG_LAST it) (ret (it\<lparr>column := ''LAST''\<rparr>, None)))
        (on_match STAR (ret (it\<lparr>is_star := True\<rparr>, None))
        (on_match (Kw ''CASE'') (pbind (parse_case_when_expr D expr) (\<lambda>cw. ret (it, Some cw)))
        (branch wj_name (parse_wj it)
        (parse_plain D it))))))))"

lemma select_switch_alt: "select_switch D expr it = (\<lambda>ts. select_choice D expr it (token_type (current ts)) ts)"
  by (rule ext) (simp add: select_switch_def select_choice_def split: option.split)

lemma alike_select_expr:
  assumes "alike k e e'"
  shows "alike k (parse_select_expr D e) (parse_select_expr D e')"
proof -
  have "alike k (select_choice D e it t) (select_choice D e' it t)" for it t
    unfolding select_choice_def
    by (intro alike_option alike_prod alike_on_match alike_branch alike_bind alike_seq alike_ret alike_take
        alike_agg alike_case_when alike_wj alike_items assms)
  then have "alike k (select_switch D e it) (select_switch D e' it)" for it
    unfolding select_switch_alt by (rule alike_choice)
  then show ?thesis unfolding parse_select_expr_def by (intro alike_bind alike_items)
qed

lemma alike_from:
  assumes "alike k s s'"
  shows "alike k (parse_from s) (parse_from s')"
  unfolding parse_from_def by (intro alike_rules assms)

lemma alike_sample [alike_rules]: "alike k (parse_sample D) (parse_sample D)"
  unfolding parse_sample_def by (intro alike_rules)

lemma alike_optional [alike_rules]: "alike k p q \<Longrightarrow> alike k (optional t p) (optional t q)"
  unfolding optional_def by (intro alike_rules)

lemma alike_select_body:
  assumes "alike k p p'" "alike k s s'"
  shows "alike (Suc k) (select_body D p s) (select_body D p' s')"
  unfolding select_body_def parse_columns_def pseq_def [of "expect (Kw ''SELECT'') ''SELECT''"]
  by (intro alike_bind_eats eats_expect)
    (intro alike_rules alike_select_expr alike_and_or alike_from assms)+

text \<open>Again the depth does not matter beyond the number of tokens.\<close>

lemma depth_alike:
  "k \<le> n \<Longrightarrow> k \<le> m \<Longrightarrow>
   alike k (primary_depth D n) (primary_depth D m) \<and> alike k (select_depth D n) (select_depth D m)"
proof (induction k arbitrary: n m)
  case (Suc k)
  then obtain n' m' where nm: "n = Suc n'" "m = Suc m'" "k \<le> n'" "k \<le> m'" by (cases n; cases m) auto
  have unfold: "primary_depth D (Suc j) = primary_body D (primary_depth D j) (select_depth D j)"
    "select_depth D (Suc j) = select_body D (primary_depth D j) (select_depth D j)" for j
    by (rule ext, simp)+
  from Suc.IH [OF nm(3,4)] show ?case
    unfolding nm(1,2) unfold by (intro conjI alike_primary_body alike_select_body) auto
qed simp

lemma alike_diagonal:
  assumes "\<And>us :: Token list. length us < k \<Longrightarrow> alike (Suc (length us)) p (q (Suc (length us)))"
  shows "alike k p (\<lambda>us. q (Suc (length us)) us)"
  unfolding alike_def
proof (intro allI impI)
  fix us :: "Token list" assume "length us < k"
  from alikeD [OF assms [OF this] lessI]
  show "p us = q (Suc (length us)) us \<and> p us \<noteq> Inl TooDeep \<and> (\<forall>x r. p us = Inr (x, r) \<longrightarrow> length r \<le> length us)"
    by blast
qed

lemma primary_node_alike: "k \<le> n \<Longrightarrow> alike k (primary_depth D n) (parse_primary_expr D)"
  unfolding parse_primary_expr_def [abs_def]
  by (rule alike_diagonal [where q = "primary_depth D"], rule depth_alike [THEN conjunct1]) auto

lemma select_node_alike: "k \<le> n \<Longrightarrow> alike k (select_depth D n) (parse_select D)"
  unfolding parse_select_def [abs_def]
  by (rule alike_diagonal [where q = "select_depth D"], rule depth_alike [THEN conjunct2]) auto

lemma alike_primary_node [alike_rules]: "alike k (parse_primary_expr D) (parse_primary_expr D)"
  by (rule alike_trans_sym [of _ "primary_depth D k"]) (simp_all add: primary_node_alike)

lemma alike_select_node [alike_rules]: "alike k (parse_select D) (parse_select D)"
  by (rule alike_trans_sym [of _ "select_depth D k"]) (simp_all add: select_node_alike)

lemma parse_primary_expr_eq:
  "parse_primary_expr D = primary_body D (parse_primary_expr D) (parse_select D)"
proof
  fix ts :: "Token list"
  have "alike (Suc (length ts)) (primary_body D (primary_depth D (length ts)) (select_depth D (length ts)))
      (primary_body D (parse_primary_expr D) (parse_select D))"
    by (intro alike_primary_body primary_node_alike select_node_alike) simp_all
  from alikeD(1) [OF this, of ts] show "parse_primary_expr D ts = primary_body D (parse_primary_expr D) (parse_select D) ts"
    by (simp add: parse_primary_expr_def)
qed

lemma parse_select_eq: "parse_select D = select_body D (parse_primary_expr D) (parse_select D)"
proof
  fix ts :: "Token list"
  have "alike (Suc (length ts)) (select_body D (primary_depth D (length ts)) (select_depth D (length ts)))
      (select_body D (parse_primary_expr D) (parse_select D))"
    by (intro alike_select_body primary_node_alike select_node_alike) simp_all
  from alikeD(1) [OF this, of ts] show "parse_select D ts = select_body D (parse_primary_expr D) (parse_select D) ts"
    by (simp add: parse_select_def)
qed

section \<open>Statements\<close>

lemma alike_where [alike_rules]: "alike k (parse_where D) (parse_where D)"
  unfolding parse_where_def parse_expr_def by (intro alike_and_or alike_rules)

lemma alike_require [alike_rules]: "alike k p q \<Longrightarrow> alike k (require c m p) (require c m q)"
  unfolding require_def by (intro alike_rules)

lemma alike_tables [alike_rules]:
  "alike k parse_ddl_column_def parse_ddl_column_def"
  "alike k (table_option st) (table_option st)"
  "alike k parse_drop_table parse_drop_table"
  unfolding parse_ddl_column_def_def table_option_def parse_drop_table_def Let_def by (intro alike_rules)+

lemma alike_create_table [alike_rules]: "alike k parse_create_table parse_create_table"
  unfolding parse_create_table_def Let_def by (intro alike_rules)

lemma alike_parse_ns [alike_rules]: "alike k parse_ns parse_ns"
  unfolding parse_ns_def by (intro alike_rules)

lemma type_is_nonempty: "t \<noteq> END \<Longrightarrow> type_is t us \<Longrightarrow> us \<noteq> []"
  by (auto simp: type_is_def current_def tok_def)

text \<open>A loop whose body starts by taking the value of a token.\<close>

lemma take_step:
  assumes "\<And>v. alike k (f v) (f v)" "us \<noteq> []" "length us < k"
  shows "pbind take_value f us \<noteq> Inl TooDeep \<and> (\<forall>x r. pbind take_value f us = Inr (x, r) \<longrightarrow> length r < length us)"
proof -
  have "length (tl us) < length us" using assms(2) by (cases us) auto
  with alikeD [OF assms(1), of "tl us"] assms(3) show ?thesis
    by (fastforce simp: pbind_def take_value_def)
qed

lemma alike_storage_loop [alike_rules]:
  "alike k (while_do (\<lambda>(_, go) ts. go \<and> type_is IDENT ts) storage_tier s)
     (while_do (\<lambda>(_, go) ts. go \<and> type_is IDENT ts) storage_tier s)"
proof (rule alike_while_gen)
  fix s :: "(i64 \<times> i64 \<times> i64) \<times> bool" and us :: "Token list"
  assume c: "(case s of (_, go) \<Rightarrow> \<lambda>ts. go \<and> type_is IDENT ts) us" and k: "length us < k"
  then have us: "us \<noteq> []" by (auto dest: type_is_nonempty [rotated])
  obtain w c d g where s: "s = ((w, c, d), g)" by (metis prod.exhaust)
  show "storage_tier s us = storage_tier s us \<and> storage_tier s us \<noteq> Inl TooDeep \<and>
      (\<forall>x r. storage_tier s us = Inr (x, r) \<longrightarrow> length r < length us)"
    unfolding storage_tier_def s prod.case Let_def
    by (rule conjI [OF refl], rule take_step [OF _ us k]) (intro alike_rules)
qed (auto dest: type_is_nonempty [rotated])

lemma alike_alter_table [alike_rules]: "alike k parse_alter_table parse_alter_table"
  unfolding parse_alter_table_def alter_set_def opt_column_word_def Let_def
  by (intro alike_rules) (simp add: alike_ret split: prod.split)

lemma alike_ddl [alike_rules]: "alike k (dispatch_ddl D) (dispatch_ddl D)"
  unfolding dispatch_ddl_def parse_mv_head_def Let_def by (intro alike_rules)

lemma alike_dml [alike_rules]:
  "alike k (parse_insert D) (parse_insert D)"
  "alike k (parse_update D) (parse_update D)"
  "alike k (parse_delete D) (parse_delete D)"
  unfolding parse_insert_def insert_value_def parse_update_def update_assign_def parse_delete_def
  by (intro alike_rules)+

lemma set_op_nonempty: "set_op_ahead us \<Longrightarrow> us \<noteq> []"
  by (auto simp: set_op_ahead_def dest: check_nonempty)

text \<open>A set operation consumes its operator: the three branches of its head all advance.\<close>

definition set_operator :: "SetOp parser" where
  "set_operator =
     on_match (Kw ''UNION'') (on_match (Kw ''ALL'') (ret SO_UNION_ALL) (ret SO_UNION_DISTINCT))
     (on_match (Kw ''INTERSECT'') (ret SO_INTERSECT) (pseq advance (ret SO_EXCEPT)))"

lemma set_operator_eats:
  assumes "us \<noteq> []"
  shows "\<exists>op r. set_operator us = Inr (op, r) \<and> length r < length us"
  using assms
  by (cases us)
    (auto simp: set_operator_def on_match_def branch_def pseq_def pbind_def advance_def ret_def less_Suc_eq_le)

lemma set_operation_step:
  assumes us: "set_op_ahead us"
  shows "us \<noteq> [] \<and> set_operation D q us \<noteq> Inl TooDeep \<and>
    (\<forall>x r. set_operation D q us = Inr (x, r) \<longrightarrow> length r < length us)"
proof -
  obtain op r where r: "set_operator us = Inr (op, r)" "length r < length us"
    using set_operator_eats [OF set_op_nonempty [OF us]] by blast
  have "alike (Suc (length us)) (pbind (parse_select D) (\<lambda>x. ret (q\<lparr>set_op := op, rhs := Some x\<rparr>)))
      (pbind (parse_select D) (\<lambda>x. ret (q\<lparr>set_op := op, rhs := Some x\<rparr>)))"
    by (intro alike_rules)
  from alikeD [OF this, of r] set_op_nonempty [OF us] r show ?thesis
    by (fastforce simp: set_operation_def set_operator_def [symmetric] pbind_def [of set_operator])
qed

lemma alike_select_statement [alike_rules]: "alike k (select_statement D) (select_statement D)"
proof -
  have "alike k (while_do (\<lambda>_. set_op_ahead) (set_operation D) q) (while_do (\<lambda>_. set_op_ahead) (set_operation D) q)" for q
    by (rule alike_while_gen) (use set_operation_step in blast)+
  then show ?thesis unfolding select_statement_def parse_cte_list_def by (intro alike_rules)
qed

lemma alike_statement: "alike k (statement D) (statement D)"
  unfolding statement_def by (intro alike_rules)

text \<open>
  C15. The parser returns on every text: it gives a statement or one of the errors of the source, never the depth
  limit of the model. The depth is only a bound on the recursion: the three recursive functions satisfy the
  equations of the source, with themselves as the functions they call.
\<close>

theorem parser_terminates:
  "parse_statement D sql \<noteq> Inl TooDeep \<and>
   parse_arith_expr_node D = parse_arith_sum (parse_arith_term (parse_arith_primary D (parse_arith_expr_node D))) \<and>
   parse_primary_expr D = primary_body D (parse_primary_expr D) (parse_select D) \<and>
   parse_select D = select_body D (parse_primary_expr D) (parse_select D)"
proof (intro conjI)
  show "parse_statement D sql \<noteq> Inl TooDeep"
    using alikeD(2) [OF alike_statement lessI] by (auto simp: parse_statement_def split: sum.splits)
  show "parse_arith_expr_node D = parse_arith_sum (parse_arith_term (parse_arith_primary D (parse_arith_expr_node D)))"
    by (rule parse_arith_expr_node_eq [unfolded arith_body_def])
qed (rule parse_primary_expr_eq, rule parse_select_eq)

end
