(* ===== verification/Sql_Roundtrip.thy ===== *)
theory Sql_Roundtrip
  imports Sql_Parser_Total
begin

text \<open>
  The grammar the parser implements: every value expression, condition and SELECT built from the constructions below
  has a spelling, with parentheses only where precedence asks for them, and the parser reads the spelling back as the
  tree it was made from. The binary operators of the four levels (OR, AND, sums and products) share one contract,
  the locale \<open>operator_chain\<close>.
\<close>

section \<open>Running a parser\<close>

named_theorems run

lemma token_type_tok [simp]: "token_type (tok t v) = t" "token_value (tok t v) = v"
  by (simp_all add: tok_def)

lemma current_Cons [simp]: "current (t # ts) = t"
  by (simp add: current_def)

lemma check_Cons [simp]: "check t (x # r) \<longleftrightarrow> token_type x = t \<and> t \<noteq> END"
  by (auto simp: check_def at_end_def)

lemma ret_run [run]: "ret x ts = Inr (x, ts)"
  by (simp add: ret_def)

lemma pbind_run [run]: "p ts = Inr (x, r) \<Longrightarrow> pbind p f ts = f x r"
  by (simp add: pbind_def)

lemma seq_run [run]: "pseq p q ts = pbind p (\<lambda>_. q) ts"
  by (simp add: pseq_def)

lemma advance_run [run]: "advance (t # ts) = Inr ((), ts)"
  by (simp add: advance_def)

lemma pbind_advance [run]: "pbind advance f (t # ts) = f () ts"
  by (simp add: pbind_def advance_def)

lemma pbind_take [run]: "pbind take_value f (t # ts) = f (token_value t) ts"
  by (simp add: pbind_def take_value_def)

lemma take_run [run]: "take_value (t # ts) = Inr (token_value t, ts)"
  by (simp add: take_value_def)

lemma pbind_ret [run]: "pbind (ret x) f ts = f x ts"
  by (simp add: pbind_def ret_def)

lemma pbind_assoc [run]: "pbind (pbind p f) g ts = pbind p (\<lambda>x. pbind (f x) g) ts"
  by (simp add: pbind_def split: sum.split prod.split)

lemma pbind_seq [run]: "pbind (pseq p q) g ts = pbind p (\<lambda>_. pbind q g) ts"
  by (simp add: pseq_def pbind_assoc)

lemma branch_run [run]: "branch c p q ts = (if c ts then p ts else q ts)"
  by (simp add: branch_def)

lemma pbind_branch [run]: "pbind (branch c p q) f ts = (if c ts then pbind p f ts else pbind q f ts)"
  by (simp add: branch_def pbind_def)

lemma on_match_run [run]: "on_match t p q ts = (if check t ts then p (tl ts) else q ts)"
  by (simp add: on_match_def branch_def pseq_def pbind_def advance_def)

lemma pbind_on_match [run]: "pbind (on_match t p q) f ts = (if check t ts then pbind p f (tl ts) else pbind q f ts)"
  by (simp add: pbind_def on_match_run)

lemma opt_match_run [run]: "pbind (opt_match t) f ts = (if check t ts then f () (tl ts) else f () ts)"
  by (simp add: opt_match_def pbind_on_match pbind_ret)

lemma expect_run [run]: "token_type t = ty \<Longrightarrow> ty \<noteq> END \<Longrightarrow> pbind (expect ty m) f (t # ts) = f (token_value t) ts"
  by (simp add: expect_def pbind_branch pbind_take)

lemma lift_run [run]: "pbind (lift_result (Inr x)) f ts = f x ts"
  by (simp add: pbind_def lift_result_def)

section \<open>Decimal numbers\<close>

fun decimal :: "nat \<Rightarrow> string" where
  "decimal n = (if n < 10 then [char_of (48 + n)] else decimal (n div 10) @ [char_of (48 + n mod 10)])"

declare decimal.simps [simp del]

definition show_int :: "int \<Rightarrow> string" where
  "show_int i = (if i < 0 then CHR ''-'' # decimal (nat (- i)) else decimal (nat i))"

lemma code_digit: "(d :: nat) < 10 \<Longrightarrow> code (char_of (48 + d)) = 48 + d"
  by (simp add: code_def)

lemma isdigit_char: "(d :: nat) < 10 \<Longrightarrow> isdigit (char_of (48 + d))"
  by (simp add: isdigit_def code_digit)

lemma decimal_digits: "list_all isdigit (decimal n) \<and> decimal n \<noteq> [] \<and> digits_value (decimal n) = int n"
proof (induction n rule: decimal.induct)
  case (1 n)
  show ?case
  proof (cases "n < 10")
    case True
    then show ?thesis by (simp add: decimal.simps [of n] isdigit_char digits_value_def code_digit)
  next
    case False
    have "int n = 10 * int (n div 10) + int (n mod 10)" by presburger
    with False 1 show ?thesis
      by (simp add: decimal.simps [of n] isdigit_char digits_value_def code_digit)
  qed
qed

lemma takeWhile_digits: "takeWhile isdigit (decimal n) = decimal n"
  using decimal_digits [of n] by (simp add: list_all_iff takeWhile_eq_all_conv)

lemma decimal_hd: "decimal n \<noteq> []" "isdigit (hd (decimal n))"
  using decimal_digits [of n] by (cases "decimal n"; simp)+

lemma stoll_show: "in_i64 i \<Longrightarrow> stoll (show_int i) = Inr i"
proof -
  assume i: "in_i64 i"
  show ?thesis
  proof (cases "i < 0")
    case True
    then have "dropWhile isspace (show_int i) = show_int i" by (simp add: show_int_def isspace_def code_of)
    with True i decimal_hd decimal_digits [of "nat (- i)"] show ?thesis
      by (simp add: stoll_def show_int_def takeWhile_digits)
  next
    case False
    obtain c cs where d: "decimal (nat i) = c # cs" "isdigit c" using decimal_hd [of "nat i"] by (cases "decimal (nat i)") auto
    with not_class(1) [of c] have "dropWhile isspace (show_int i) = show_int i" "c \<noteq> CHR ''-''" "c \<noteq> CHR ''+''"
      using False by (auto simp: show_int_def isdigit_def code_def)
    moreover have "show_int i = c # cs" "takeWhile isdigit (c # cs) = c # cs" "digits_value (c # cs) = i"
      using False d decimal_digits [of "nat i"] takeWhile_digits [of "nat i"] by (simp_all add: show_int_def)
    ultimately show ?thesis using i unfolding stoll_def by (simp only: Let_def) simp
  qed
qed

lemma show_not_float: "\<not> is_float_text (show_int i)"
proof -
  have "CHR ''.'' \<notin> set (decimal n)" for n
    using decimal_digits [of n] by (auto simp: list_all_iff isdigit_def code_of)
  then show ?thesis by (simp add: is_float_text_def show_int_def)
qed

section \<open>Loops\<close>

lemma while_do_stop: "\<not> c s ts \<Longrightarrow> while_do c b s ts = Inr (s, ts)"
  by (cases "length ts") (simp_all add: while_do_def)

lemma while_do_step:
  assumes body: "\<And>s us. c s us \<Longrightarrow> us \<noteq> [] \<and> b s us \<noteq> Inl TooDeep \<and> (\<forall>x r. b s us = Inr (x, r) \<longrightarrow> length r < length us)"
    and ts: "c s ts" "b s ts = Inr (s', r)"
  shows "while_do c b s ts = while_do c b s' r"
proof -
  have r: "length r < length ts" using body [OF ts(1)] ts(2) by blast
  then obtain n where n: "length ts = Suc n" by (cases ts) auto
  have "while_loop n c b s' r = while_loop (length r) c b s' r"
    using while_loop_alike [of c "Suc n" b b r n "length r" s'] body r n by auto
  with ts n show ?thesis by (simp add: while_do_def pbind_run)
qed

text \<open>A separated list: each element is read, then the loop ends at what follows.\<close>

fun seps :: "Token \<Rightarrow> Token list list \<Rightarrow> Token list" where
  "seps d [] = []"
| "seps d [x] = x"
| "seps d (x # y # xs) = x @ d # seps d (y # xs)"

abbreviation commas :: "Token list list \<Rightarrow> Token list" where
  "commas \<equiv> seps (tok COMMA '','')"

lemma sep_loop_run:
  assumes total: "\<And>k s. alike k (b s) (b s)" and rest: "\<not> check (token_type d) rest" and d: "token_type d \<noteq> END"
    and run: "\<And>x s r. x \<in> set xs \<Longrightarrow> r = rest \<or> check (token_type d) r \<Longrightarrow> b s (f x @ r) = Inr (g x s, r)"
    and xs: "xs \<noteq> []"
  shows "pbind (b s) (while_do (\<lambda>_. check (token_type d)) (\<lambda>s. pseq advance (b s))) (seps d (map f xs) @ rest) =
    Inr (fold g xs s, rest)"
proof -
  let ?loop = "while_do (\<lambda>_. check (token_type d)) (\<lambda>s. pseq advance (b s))"
  have body: "us \<noteq> [] \<and> pseq advance (b s) us \<noteq> Inl TooDeep \<and>
      (\<forall>x r. pseq advance (b s) us = Inr (x, r) \<longrightarrow> length r < length us)" if "check (token_type d) us" for s us
    using advance_step [OF total check_nonempty [OF that] lessI] check_nonempty [OF that] by blast
  have tail: "b s (seps d (map f (x # ys)) @ rest) = Inr (g x s, (case ys of [] \<Rightarrow> rest | _ \<Rightarrow> d # seps d (map f ys) @ rest))"
    if "x \<in> set xs" for s x ys
    using that by (cases ys) (simp_all add: run d)
  have "pbind (b s) ?loop (seps d (map f ys) @ rest) = Inr (fold g ys s, rest)"
    if "ys \<noteq> []" "set ys \<subseteq> set xs" for ys s
    using that
  proof (induction ys arbitrary: s)
    case (Cons y ys)
    show ?case
    proof (cases ys)
      case Nil
      with Cons.prems tail [of y s ys] rest show ?thesis by (simp add: pbind_run while_do_stop)
    next
      case (Cons z zs)
      have "?loop (g y s) (d # seps d (map f ys) @ rest) = pbind (b (g y s)) ?loop (seps d (map f ys) @ rest)"
      proof (cases "b (g y s) (seps d (map f ys) @ rest)")
        case (Inl e)
        then show ?thesis using tail [of z "g y s" zs] Cons \<open>set (y # ys) \<subseteq> set xs\<close> by simp
      next
        case (Inr v)
        obtain s' r where v: "v = (s', r)" by (cases v)
        with Inr have "pseq advance (b (g y s)) (d # seps d (map f ys) @ rest) = Inr (s', r)"
          by (simp add: seq_run pbind_advance)
        then have "?loop (g y s) (d # seps d (map f ys) @ rest) = ?loop s' r"
          by (intro while_do_step [where b = "\<lambda>s. pseq advance (b s)"] body) (simp_all add: d)
        with Inr v show ?thesis by (simp add: pbind_run)
      qed
      with Cons.IH [of "g y s"] Cons.prems Cons tail [of y s ys] show ?thesis by (simp add: pbind_run)
    qed
  qed simp
  with xs show ?thesis by blast
qed

lemmas comma_loop_run = sep_loop_run [of _ "tok COMMA '',''", simplified, folded comma_loop_def]

lemma comma_list_run:
  assumes "\<And>k. alike k p p" "\<not> check COMMA rest" "xs \<noteq> []"
    and "\<And>x r. x \<in> set xs \<Longrightarrow> r = rest \<or> check COMMA r \<Longrightarrow> p (f x @ r) = Inr (g x, r)"
  shows "comma_list p (commas (map f xs) @ rest) = Inr (map g xs, rest)"
proof -
  have "fold (\<lambda>x s. s @ [g x]) xs s = s @ map g xs" for s by (induction xs arbitrary: s) auto
  moreover have "comma_list p (commas (map f xs) @ rest) = Inr (fold (\<lambda>x s. s @ [g x]) xs [], rest)"
    unfolding comma_list_def
    by (rule comma_loop_run) (use assms in \<open>auto intro: alike_rules simp: pbind_run ret_run\<close>)
  ultimately show ?thesis by simp
qed

section \<open>Chains of left-associative operators\<close>

text \<open>
  \<open>chain\<close> parses operands separated by operators and folds them to the left with \<open>mk\<close>, which may look at the
  operator. Both the operand parser and the test of the operator are parameters.
\<close>

definition chain :: "'a parser \<Rightarrow> (Token list \<Rightarrow> bool) \<Rightarrow> (Token list \<Rightarrow> 'a \<Rightarrow> 'a \<Rightarrow> 'a) \<Rightarrow> 'a \<Rightarrow> 'a parser" where
  "chain p sep mk = while_do (\<lambda>_. sep) (\<lambda>left ts. pseq advance (pbind p (\<lambda>right. ret (mk ts left right))) ts)"

locale operator_chain =
  fixes operand :: "'a parser" and sep :: "Token list \<Rightarrow> bool" and mk :: "Token list \<Rightarrow> 'a \<Rightarrow> 'a \<Rightarrow> 'a"
  assumes operand_alike: "alike k operand operand"
    and sep_nonempty: "sep us \<Longrightarrow> us \<noteq> []"
begin

lemma chain_stop: "\<not> sep ts \<Longrightarrow> chain operand sep mk left ts = Inr (left, ts)"
  by (simp add: chain_def while_do_stop)

lemma chain_step:
  assumes "sep (t # ts)" "operand ts = Inr (right, r)"
  shows "chain operand sep mk left (t # ts) = chain operand sep mk (mk (t # ts) left right) r"
  unfolding chain_def
proof (rule while_do_step)
  let ?b = "\<lambda>left ts. pseq advance (pbind operand (\<lambda>right. ret (mk ts left right))) ts"
  show "?b left (t # ts) = Inr (mk (t # ts) left right, r)"
    using assms(2) by (simp add: seq_run pbind_advance) (simp add: pbind_def ret_run)
  fix s us assume us: "sep us"
  have "alike (Suc (length us)) (pbind operand (\<lambda>right. ret (mk us s right))) (pbind operand (\<lambda>right. ret (mk us s right)))"
    by (intro alike_rules operand_alike)
  from advance_step [OF this sep_nonempty [OF us] lessI] sep_nonempty [OF us]
  show "us \<noteq> [] \<and> ?b s us \<noteq> Inl TooDeep \<and> (\<forall>x r. ?b s us = Inr (x, r) \<longrightarrow> length r < length us)"
    by blast
qed (rule assms(1))

end

section \<open>Value expressions\<close>

definition kw :: "string \<Rightarrow> Token" where
  "kw k = tok (Kw k) k"

definition ident :: "string \<Rightarrow> Token" where
  "ident v = tok IDENT v"

definition num :: "int \<Rightarrow> Token" where
  "num i = tok NUMBER (show_int i)"

definition name_toks :: "string \<Rightarrow> string \<Rightarrow> Token list" where
  "name_toks a c = (if a = [] then [ident c] else [ident a, tok DOT ''.'', ident c])"

definition paren :: "Token list \<Rightarrow> Token list" where
  "paren ts = tok LPAREN ''('' # ts @ [tok RPAREN '')'']"

fun op_tok :: "ArithOp \<Rightarrow> Token" where
  "op_tok ADD = tok PLUS ''+''"
| "op_tok SUB = tok MINUS ''-''"
| "op_tok MUL = tok STAR ''*''"
| "op_tok DIV = tok SLASH ''/''"

definition is_sum :: "ArithOp \<Rightarrow> bool" where
  "is_sum op \<longleftrightarrow> op = ADD \<or> op = SUB"

text \<open>The spelling at a level: 0 for a sum, 1 for a term, 2 for a primary expression.\<close>

fun arith_toks :: "nat \<Rightarrow> 'f ArithExpr \<Rightarrow> Token list" where
  "arith_toks lv (A_COLUMN a c) = name_toks a c"
| "arith_toks lv (A_LITERAL i f b) = [num i]"
| "arith_toks lv (A_BINARY op l r) =
     (if is_sum op
      then (let ts = arith_toks 0 l @ op_tok op # arith_toks 1 r in if lv = 0 then ts else paren ts)
      else (let ts = arith_toks 1 l @ op_tok op # arith_toks 2 r in if lv \<le> 1 then ts else paren ts))"
| "arith_toks lv (A_FUNC n u a b args) =
     (if args \<noteq> [] then ident n # paren (commas (map (arith_toks 0) args))
      else (case a of
         None \<Rightarrow> if n = ''now'' then kw ''NOW'' # paren [] else [kw ''INTERVAL'', tok STRINGLIT u]
       | Some e \<Rightarrow>
           if n = ''date_trunc'' then kw ''DATE_TRUNC'' # paren (tok STRINGLIT u # tok COMMA '','' # arith_toks 0 e)
           else if n = ''epoch_s'' then kw ''EPOCH_S'' # paren (arith_toks 0 e)
           else if n = ''epoch_ms'' then kw ''EPOCH_MS'' # paren (arith_toks 0 e)
           else kw ''SUBSTR'' # paren (arith_toks 0 e @ tok COMMA '','' # tok NUMBER u #
                  (case b of None \<Rightarrow> [] | Some l \<Rightarrow> tok COMMA '','' # arith_toks 0 l))))"

text \<open>The trees that have a spelling: integer literals in range, and calls of the functions of the grammar.\<close>

fun arith_ok :: "'f lit_ops \<Rightarrow> 'f ArithExpr \<Rightarrow> bool" where
  "arith_ok D (A_COLUMN a c) \<longleftrightarrow> True"
| "arith_ok D (A_LITERAL i f b) \<longleftrightarrow> in_i64 i \<and> f = fp_of_int D i \<and> \<not> b"
| "arith_ok D (A_BINARY op l r) \<longleftrightarrow> arith_ok D l \<and> arith_ok D r"
| "arith_ok D (A_FUNC n u a b args) \<longleftrightarrow>
     (if args \<noteq> []
      then u = [] \<and> (n = ''haversine'' \<or> n = ''st_distance'' \<or> n = ''st_within'') \<and>
           length args = (if n = ''st_within'' then 5 else 4) \<and> a = Some (args ! 0) \<and> b = Some (args ! 1) \<and>
           list_all (arith_ok D) args
      else (case a of
         None \<Rightarrow> b = None \<and> (n = ''now'' \<and> u = [] \<or> n = ''interval'')
       | Some e \<Rightarrow> arith_ok D e \<and>
           (n = ''date_trunc'' \<and> b = None \<or> (n = ''epoch_s'' \<or> n = ''epoch_ms'') \<and> u = [] \<and> b = None \<or>
            n = ''substr'' \<and> (case b of None \<Rightarrow> True | Some l \<Rightarrow> arith_ok D l))))"

definition no_token :: "TokenType set \<Rightarrow> Token list \<Rightarrow> bool" where
  "no_token S ts \<longleftrightarrow> token_type (current ts) \<notin> S"

lemma stops_Cons [simp]: "no_token S (t # ts) \<longleftrightarrow> token_type t \<notin> S"
  by (simp add: no_token_def)

lemma stops_mono: "no_token T ts \<Longrightarrow> S \<subseteq> T \<Longrightarrow> no_token S ts"
  by (auto simp: no_token_def)

lemma stops_check: "no_token S ts \<Longrightarrow> t \<in> S \<Longrightarrow> \<not> check t ts"
  by (auto simp: no_token_def check_def)

abbreviation after_operand :: "TokenType set" where
  "after_operand \<equiv> {LPAREN, DOT}"

abbreviation after_term :: "TokenType set" where
  "after_term \<equiv> {LPAREN, DOT, STAR, SLASH}"

abbreviation after_sum :: "TokenType set" where
  "after_sum \<equiv> {LPAREN, DOT, STAR, SLASH, PLUS, MINUS}"

abbreviation primary_of :: "'f lit_ops \<Rightarrow> 'f ArithExpr parser" where
  "primary_of D \<equiv> parse_arith_primary D (parse_arith_expr_node D)"

abbreviation term_sep :: "Token list \<Rightarrow> bool" where
  "term_sep ts \<equiv> check STAR ts \<or> check SLASH ts"

abbreviation sum_sep :: "Token list \<Rightarrow> bool" where
  "sum_sep ts \<equiv> check PLUS ts \<or> check MINUS ts"

abbreviation term_mk :: "Token list \<Rightarrow> 'f ArithExpr \<Rightarrow> 'f ArithExpr \<Rightarrow> 'f ArithExpr" where
  "term_mk ts l r \<equiv> A_BINARY (if check STAR ts then MUL else DIV) l r"

abbreviation sum_mk :: "Token list \<Rightarrow> 'f ArithExpr \<Rightarrow> 'f ArithExpr \<Rightarrow> 'f ArithExpr" where
  "sum_mk ts l r \<equiv> A_BINARY (if check PLUS ts then ADD else SUB) l r"

lemma primary_alike: "alike k (primary_of D) (primary_of D)"
proof -
  have "alike (Suc k) (primary_of D) (primary_of D)" by (intro alike_arith_primary alike_arith_node)
  then show ?thesis by (auto simp: alike_def)
qed

interpretation products: operator_chain "primary_of D" term_sep term_mk for D
  by unfold_locales (auto intro: primary_alike dest: check_nonempty)

interpretation sums: operator_chain "parse_arith_term (primary_of D)" sum_sep sum_mk for D
  by unfold_locales (auto intro: alike_arith_sum primary_alike dest: check_nonempty)

lemma term_alt: "parse_arith_term p = pbind p (chain p term_sep term_mk)"
  by (simp add: parse_arith_term_def chain_def Let_def)

lemma node_alt:
  "parse_arith_expr_node D = pbind (parse_arith_term (primary_of D)) (chain (parse_arith_term (primary_of D)) sum_sep sum_mk)"
  by (subst parse_arith_expr_node_eq) (simp add: arith_body_def parse_arith_sum_def chain_def Let_def)

text \<open>What the parsers of the three levels do on the spelling of \<open>e\<close>, before anything that may follow it.\<close>

definition readable :: "'f lit_ops \<Rightarrow> 'f ArithExpr \<Rightarrow> bool" where
  "readable D e \<longleftrightarrow>
     (\<forall>r. no_token after_operand r \<longrightarrow> primary_of D (arith_toks 2 e @ r) = Inr (e, r)) \<and>
     (\<forall>r. no_token after_operand r \<longrightarrow>
        parse_arith_term (primary_of D) (arith_toks 1 e @ r) = chain (primary_of D) term_sep term_mk e r) \<and>
     (\<forall>r. no_token after_term r \<longrightarrow>
        parse_arith_expr_node D (arith_toks 0 e @ r) = chain (parse_arith_term (primary_of D)) sum_sep sum_mk e r)"

lemma readsD:
  assumes "readable D e"
  shows "no_token after_operand r \<Longrightarrow> primary_of D (arith_toks 2 e @ r) = Inr (e, r)"
    and "no_token after_operand r \<Longrightarrow>
      parse_arith_term (primary_of D) (arith_toks 1 e @ r) = chain (primary_of D) term_sep term_mk e r"
    and "no_token after_term r \<Longrightarrow> parse_arith_term (primary_of D) (arith_toks 1 e @ r) = Inr (e, r)"
    and "no_token after_term r \<Longrightarrow>
      parse_arith_expr_node D (arith_toks 0 e @ r) = chain (parse_arith_term (primary_of D)) sum_sep sum_mk e r"
    and "no_token after_sum r \<Longrightarrow> parse_arith_expr_node D (arith_toks 0 e @ r) = Inr (e, r)"
proof -
  note R = assms [unfolded readable_def]
  show "no_token after_operand r \<Longrightarrow> primary_of D (arith_toks 2 e @ r) = Inr (e, r)" for r using R by blast
  show t: "no_token after_operand r \<Longrightarrow>
      parse_arith_term (primary_of D) (arith_toks 1 e @ r) = chain (primary_of D) term_sep term_mk e r" for r using R by blast
  show u: "no_token after_term r \<Longrightarrow>
      parse_arith_expr_node D (arith_toks 0 e @ r) = chain (parse_arith_term (primary_of D)) sum_sep sum_mk e r" for r
    using R by blast
  show "no_token after_term r \<Longrightarrow> parse_arith_term (primary_of D) (arith_toks 1 e @ r) = Inr (e, r)" for r
    using t [of r] by (simp add: stops_mono products.chain_stop stops_check)
  show "no_token after_sum r \<Longrightarrow> parse_arith_expr_node D (arith_toks 0 e @ r) = Inr (e, r)" for r
    using u [of r] by (simp add: stops_mono sums.chain_stop stops_check)
qed

text \<open>An expression spelled the same at all levels is read at all levels if it is read as a primary expression.\<close>

lemma readsI_atom:
  assumes same: "\<And>lv. arith_toks lv e = arith_toks 2 e"
    and prim: "\<And>r. no_token after_operand r \<Longrightarrow> primary_of D (arith_toks 2 e @ r) = Inr (e, r)"
  shows "readable D e"
proof -
  have t: "parse_arith_term (primary_of D) (arith_toks 2 e @ r) = chain (primary_of D) term_sep term_mk e r"
    if "no_token after_operand r" for r
    using prim [OF that] by (simp add: term_alt pbind_run)
  have "parse_arith_expr_node D (arith_toks 2 e @ r) = chain (parse_arith_term (primary_of D)) sum_sep sum_mk e r"
    if "no_token after_term r" for r
  proof -
    have "parse_arith_term (primary_of D) (arith_toks 2 e @ r) = Inr (e, r)"
      using t [of r] that by (simp add: stops_mono products.chain_stop stops_check)
    then show ?thesis by (subst node_alt) (simp add: pbind_run)
  qed
  with t prim show ?thesis unfolding readable_def same [of 0] same [of 1] by blast
qed

lemma primary_paren:
  assumes "parse_arith_expr_node D (ts @ tok RPAREN '')'' # r) = Inr (e, tok RPAREN '')'' # r)"
  shows "primary_of D (paren ts @ r) = Inr (e, r)"
  using assms by (simp add: parse_arith_primary_def paren_def run)

lemma reads_product:
  assumes l: "readable D l" and r: "readable D r" and op: "\<not> is_sum op"
  shows "readable D (A_BINARY op l r)"
proof -
  let ?e = "A_BINARY op l r"
  have ot: "token_type (op_tok op) = STAR \<or> token_type (op_tok op) = SLASH"
    and mk: "term_mk (op_tok op # ts) l r = ?e" for ts
    using op by (cases op; simp add: is_sum_def)+
  have t: "parse_arith_term (primary_of D) (arith_toks 1 ?e @ q) = chain (primary_of D) term_sep term_mk ?e q"
    if "no_token after_operand q" for q
  proof -
    have "parse_arith_term (primary_of D) (arith_toks 1 ?e @ q) =
        chain (primary_of D) term_sep term_mk l (op_tok op # arith_toks 2 r @ q)"
      using op ot readsD(2) [OF l, of "op_tok op # arith_toks 2 r @ q"] by auto
    also have "\<dots> = chain (primary_of D) term_sep term_mk ?e q"
      using products.chain_step [of "op_tok op" "arith_toks 2 r @ q" D r q l] readsD(1) [OF r that] ot mk by auto
    finally show ?thesis .
  qed
  have u: "parse_arith_expr_node D (arith_toks 1 ?e @ q) = chain (parse_arith_term (primary_of D)) sum_sep sum_mk ?e q"
    if "no_token after_term q" for q
  proof -
    have "parse_arith_term (primary_of D) (arith_toks 1 ?e @ q) = Inr (?e, q)"
      using t [of q] that by (simp add: stops_mono products.chain_stop stops_check)
    then show ?thesis by (subst node_alt) (simp only: pbind_run)
  qed
  have "primary_of D (arith_toks 2 ?e @ q) = Inr (?e, q)" if "no_token after_operand q" for q
  proof -
    have "parse_arith_expr_node D (arith_toks 1 ?e @ tok RPAREN '')'' # q) = Inr (?e, tok RPAREN '')'' # q)"
      using u [of "tok RPAREN '')'' # q"] by (simp add: sums.chain_stop del: arith_toks.simps)
    from primary_paren [OF this] op show ?thesis by (simp add: Let_def)
  qed
  moreover have "arith_toks 0 ?e = arith_toks 1 ?e" using op by (simp add: Let_def)
  ultimately show ?thesis using t u by (simp only: readable_def) blast
qed

lemma reads_sum:
  assumes l: "readable D l" and r: "readable D r" and op: "is_sum op"
  shows "readable D (A_BINARY op l r)"
proof -
  let ?e = "A_BINARY op l r"
  have ot: "token_type (op_tok op) = PLUS \<or> token_type (op_tok op) = MINUS"
    and mk: "sum_mk (op_tok op # ts) l r = ?e" for ts
    using op by (cases op; simp add: is_sum_def)+
  have u: "parse_arith_expr_node D (arith_toks 0 ?e @ q) = chain (parse_arith_term (primary_of D)) sum_sep sum_mk ?e q"
    if "no_token after_term q" for q
  proof -
    have "parse_arith_expr_node D (arith_toks 0 ?e @ q) =
        chain (parse_arith_term (primary_of D)) sum_sep sum_mk l (op_tok op # arith_toks 1 r @ q)"
      using op ot readsD(4) [OF l, of "op_tok op # arith_toks 1 r @ q"] by auto
    also have "\<dots> = chain (parse_arith_term (primary_of D)) sum_sep sum_mk ?e q"
      using sums.chain_step [of "op_tok op" "arith_toks 1 r @ q" D r q l] readsD(3) [OF r that] ot mk by auto
    finally show ?thesis .
  qed
  have p: "primary_of D (arith_toks 2 ?e @ q) = Inr (?e, q)" for q
  proof -
    have "parse_arith_expr_node D (arith_toks 0 ?e @ tok RPAREN '')'' # q) = Inr (?e, tok RPAREN '')'' # q)"
      using u [of "tok RPAREN '')'' # q"] by (simp add: sums.chain_stop del: arith_toks.simps)
    from primary_paren [OF this] op show ?thesis by (simp add: Let_def)
  qed
  have "parse_arith_term (primary_of D) (arith_toks 1 ?e @ q) = chain (primary_of D) term_sep term_mk ?e q" for q
    using p [of q] op by (simp add: term_alt pbind_run Let_def)
  with p u show ?thesis by (simp only: readable_def) blast
qed

lemma name_run:
  assumes "no_token {DOT} r"
  shows "parse_qualified_name (name_toks a c @ r) = Inr ((a, c), r)"
  using assms
  by (simp add: parse_qualified_name_def name_toks_def ident_def is_ident_like_def run stops_check)

lemma literal_run:
  assumes "in_i64 i"
  shows "parse_integer_literal (num i # r) = Inr (i, r)"
  using assms
  by (simp add: parse_integer_literal_def num_def branch_run pbind_take stoll_show) (simp add: lift_result_def)

lemma string_run: "parse_string_literal (tok STRINGLIT v # r) = Inr (v, r)"
  by (simp add: parse_string_literal_def branch_run take_run)

lemma reads_column: "readable D (A_COLUMN a c)"
proof (rule readsI_atom)
  fix r assume r: "no_token after_operand r"
  have "\<not> call_ahead (name_toks a c @ r)"
    using r by (cases r) (auto simp: call_ahead_def name_toks_def peek_tok_def)
  moreover have "\<not> check t (name_toks a c @ r)" if "t \<noteq> IDENT" for t
    using that by (auto simp: name_toks_def ident_def)
  moreover have "parse_qualified_name (name_toks a c @ r) = Inr ((a, c), r)"
    by (rule name_run) (rule stops_mono [OF r], simp)
  ultimately show "primary_of D (arith_toks 2 (A_COLUMN a c) @ r) = Inr (A_COLUMN a c, r)"
    by (simp add: parse_arith_primary_def on_match_run branch_run pbind_run ret_run)
qed simp

lemma reads_literal:
  assumes "in_i64 i"
  shows "readable D (A_LITERAL i (fp_of_int D i) False)"
  by (rule readsI_atom) (simp_all add: parse_arith_primary_def num_def run show_not_float stoll_show assms)

lemma reads_time:
  "readable D (A_FUNC ''now'' [] None None [])" "readable D (A_FUNC ''interval'' u None None [])"
  by (rule readsI_atom; simp add: parse_arith_primary_def kw_def paren_def run)
    (rule readsI_atom; simp add: parse_arith_primary_def kw_def run pbind_def [of parse_string_literal] string_run)

lemma node_in_paren:
  assumes "readable D e"
  shows "pbind (parse_arith_expr_node D) f (arith_toks 0 e @ tok RPAREN v # r) = f e (tok RPAREN v # r)"
    and "pbind (parse_arith_expr_node D) f (arith_toks 0 e @ tok COMMA v # r) = f e (tok COMMA v # r)"
  by (rule pbind_run, rule readsD(5) [OF assms], simp)+

lemma reads_unary:
  assumes "readable D e"
  shows "readable D (A_FUNC ''date_trunc'' u (Some e) None [])"
    and "readable D (A_FUNC ''epoch_s'' [] (Some e) None [])"
    and "readable D (A_FUNC ''epoch_ms'' [] (Some e) None [])"
  by (rule readsI_atom; simp add: parse_arith_primary_def kw_def paren_def run node_in_paren [OF assms]
      pbind_def [of parse_string_literal] string_run)+

lemma reads_substr:
  assumes "readable D e" "\<And>l. b = Some l \<Longrightarrow> readable D l"
  shows "readable D (A_FUNC ''substr'' u (Some e) b [])"
proof (cases b)
  case None
  show ?thesis
    unfolding None
    by (rule readsI_atom; simp add: parse_arith_primary_def kw_def paren_def run node_in_paren [OF assms(1)])
next
  case (Some l)
  note l = assms(2) [OF Some]
  show ?thesis
    unfolding Some
    by (rule readsI_atom; simp add: parse_arith_primary_def kw_def paren_def run node_in_paren [OF assms(1)]
        node_in_paren [OF l])
qed

text \<open>The first token of a spelling.\<close>

definition lead_types :: "TokenType set" where
  "lead_types = {IDENT, NUMBER, LPAREN, Kw ''NOW'', Kw ''INTERVAL'', Kw ''DATE_TRUNC'', Kw ''EPOCH_S'', Kw ''EPOCH_MS'',
     Kw ''SUBSTR''}"

lemma arith_lead: "\<exists>t ts. arith_toks lv e = t # ts \<and> token_type t \<in> lead_types"
proof (induction lv e rule: arith_toks.induct)
  case (3 lv op l r)
  have "\<exists>t ts. x @ y = t # ts \<and> token_type t \<in> lead_types"
    if "\<exists>t ts. x = t # ts \<and> token_type t \<in> lead_types" for x y
    using that by auto
  with 3 show ?case by (auto simp: Let_def paren_def lead_types_def)
qed (auto simp: lead_types_def name_toks_def ident_def num_def kw_def paren_def split: option.split)

lemma commas_lead:
  assumes "es \<noteq> []"
  shows "\<exists>t ts. commas (map (arith_toks 0) es) = t # ts \<and> token_type t \<in> lead_types"
proof -
  obtain e es' where es: "es = e # es'" using assms by (cases es) auto
  have "\<exists>us. commas (map (arith_toks 0) es) = arith_toks 0 e @ us" by (cases es') (simp_all add: es)
  with arith_lead [of 0 e] show ?thesis by auto
qed

lemma reads_call:
  assumes args: "\<And>e. e \<in> set args \<Longrightarrow> readable D e"
    and n: "n = ''haversine'' \<or> n = ''st_distance'' \<or> n = ''st_within''"
    and len: "length args = (if n = ''st_within'' then 5 else 4)"
  shows "readable D (A_FUNC n [] (Some (args ! 0)) (Some (args ! 1)) args)"
proof (rule readsI_atom)
  have ne: "args \<noteq> []" using len by (auto split: if_splits)
  then show "arith_toks lv (A_FUNC n [] (Some (args ! 0)) (Some (args ! 1)) args) =
      arith_toks 2 (A_FUNC n [] (Some (args ! 0)) (Some (args ! 1)) args)" for lv by simp
  fix r
  have list: "comma_list (parse_arith_expr_node D) (commas (map (arith_toks 0) args) @ tok RPAREN '')'' # r) =
      Inr (map id args, tok RPAREN '')'' # r)"
  proof (rule comma_list_run)
    fix e q assume "e \<in> set args" "q = tok RPAREN '')'' # r \<or> check COMMA q"
    moreover have "no_token after_sum q" if "check COMMA q" using that by (simp add: no_token_def check_def)
    ultimately show "parse_arith_expr_node D (arith_toks 0 e @ q) = Inr (id e, q)"
      using readsD(5) [OF args, of e q] by auto
  qed (use ne in \<open>simp_all add: alike_arith_node\<close>)
  have "\<not> check RPAREN (commas (map (arith_toks 0) args) @ tok RPAREN '')'' # r)"
    using commas_lead [OF ne] by (auto simp: lead_types_def)
  then have args_run: "pbind (branch (check RPAREN) (ret []) (comma_list (parse_arith_expr_node D))) f
      (commas (map (arith_toks 0) args) @ tok RPAREN '')'' # r) = f args (tok RPAREN '')'' # r)" for f :: "_ \<Rightarrow> 'a ArithExpr parser"
    using list by (simp add: pbind_branch pbind_run)
  have "arith_call (parse_arith_expr_node D) (ident n # paren (commas (map (arith_toks 0) args)) @ r) =
      Inr (A_FUNC n [] (Some (args ! 0)) (Some (args ! 1)) args, r)"
    unfolding arith_call_def paren_def ident_def
    using n len ne by (elim disjE) (simp_all add: pbind_take tolower_def code_def seq_run expect_run args_run Let_def ret_run)
  moreover have "call_ahead (ident n # paren (commas (map (arith_toks 0) args)) @ r)"
    by (simp add: call_ahead_def ident_def paren_def peek_tok_def)
  ultimately show "primary_of D (arith_toks 2 (A_FUNC n [] (Some (args ! 0)) (Some (args ! 1)) args) @ r) =
      Inr (A_FUNC n [] (Some (args ! 0)) (Some (args ! 1)) args, r)"
    using ne by (simp add: parse_arith_primary_def on_match_run branch_run) (simp add: ident_def)
qed

lemma arith_reads: "arith_ok D e \<Longrightarrow> readable D e"
proof (induction e)
  case (A_COLUMN a c)
  show ?case by (rule reads_column)
next
  case (A_LITERAL i f b)
  then show ?case using reads_literal [of i D] by simp
next
  case (A_BINARY op l r)
  then show ?case by (cases "is_sum op") (simp_all add: reads_sum reads_product)
next
  case (A_FUNC n u a b args)
  show ?case
  proof (cases "args = []")
    case False
    with A_FUNC.prems have p: "u = []" "n = ''haversine'' \<or> n = ''st_distance'' \<or> n = ''st_within''"
      "length args = (if n = ''st_within'' then 5 else 4)" "a = Some (args ! 0)" "b = Some (args ! 1)"
      "list_all (arith_ok D) args"
      unfolding arith_ok.simps if_P [OF False] by blast+
    have "readable D e" if "e \<in> set args" for e using A_FUNC.IH(3) [OF that] p(6) that by (auto simp: list_all_iff)
    from reads_call [OF this p(2,3)] show ?thesis unfolding p(1,4,5) by blast
  next
    case True
    show ?thesis
    proof (cases a)
      case None
      with A_FUNC.prems True reads_time [of D] show ?thesis by auto
    next
      case (Some e)
      have e: "readable D e" using A_FUNC.IH(1) [of e] A_FUNC.prems True Some by simp
      have "readable D l" if "n = ''substr''" "b = Some l" for l
        using A_FUNC.IH(2) [of l] A_FUNC.prems True Some that by simp
      with e A_FUNC.prems True Some reads_unary [OF e] reads_substr [OF e, of b u] show ?thesis by auto
    qed
  qed
qed

end
