(* ===== verification/Sql_Roundtrip_Cond.thy ===== *)
theory Sql_Roundtrip_Cond
  imports Sql_Roundtrip
begin

text \<open>
  The round trip of conditions: every condition built with AND, OR, NOT, comparisons, BETWEEN, IN, IS NULL and LIKE
  is read back from its spelling, whatever follows it.
\<close>

section \<open>Conditions\<close>

fun cmp_tok :: "CompareOp \<Rightarrow> Token" where
  "cmp_tok CMP_EQ = tok EQ ''=''"
| "cmp_tok CMP_NE = tok NE ''<>''"
| "cmp_tok CMP_GT = tok GT ''>''"
| "cmp_tok CMP_LT = tok LT ''<''"
| "cmp_tok CMP_GE = tok GE ''>=''"
| "cmp_tok CMP_LE = tok LE ''<=''"

fun lhs_toks :: "'f Lhs \<Rightarrow> Token list" where
  "lhs_toks (LhsCol a c) = name_toks a c"
| "lhs_toks (LhsExpr e) = arith_toks 0 e"

fun value_toks :: "'f Value \<Rightarrow> Token list" where
  "value_toks (ValInt i) = [num i]"
| "value_toks (ValFloat d i) = []"
| "value_toks (ValStr v) = [tok STRINGLIT v]"
| "value_toks (ValExpr e) = arith_toks 0 e"

text \<open>The spelling at a level: 0 for OR, 1 for AND, 2 for a primary condition.\<close>

fun cond_toks :: "nat \<Rightarrow> 'f Expr \<Rightarrow> Token list" where
  "cond_toks lv (E_COMPARE lhs op v) = lhs_toks lhs @ cmp_tok op # value_toks v"
| "cond_toks lv (E_BETWEEN lhs lo hi) = lhs_toks lhs @ [kw ''BETWEEN'', num lo, kw ''AND'', num hi]"
| "cond_toks lv (E_AND (Some l) (Some r)) =
     (let ts = cond_toks 1 l @ kw ''AND'' # cond_toks 2 r in if lv \<le> 1 then ts else paren ts)"
| "cond_toks lv (E_OR (Some l) (Some r)) =
     (let ts = cond_toks 0 l @ kw ''OR'' # cond_toks 1 r in if lv = 0 then ts else paren ts)"
| "cond_toks lv (E_NOT (Some e)) = kw ''NOT'' # cond_toks 2 e"
| "cond_toks lv (E_IN a c vs) = name_toks a c @ kw ''IN'' # paren (commas (map (\<lambda>i. [num i]) vs))"
| "cond_toks lv (E_IS_NULL a c neg) =
     name_toks a c @ kw ''IS'' # (if neg then [kw ''NOT''] else []) @ [tok (Kw ''NULL_KW'') ''NULL'']"
| "cond_toks lv (E_LIKE a c neg p) =
     name_toks a c @ (if neg then [kw ''NOT''] else []) @ [kw ''LIKE'', tok STRINGLIT p]"
| "cond_toks lv _ = []"

fun lhs_ok :: "'f lit_ops \<Rightarrow> 'f Lhs \<Rightarrow> bool" where
  "lhs_ok D (LhsCol a c) \<longleftrightarrow> True"
| "lhs_ok D (LhsExpr e) \<longleftrightarrow> arith_ok D e \<and> call_ahead (arith_toks 0 e)"

text \<open>
  A value expression on the right of a comparison starts with a time function or, if there is a function on the
  left, with a call.
\<close>

fun value_ok :: "'f lit_ops \<Rightarrow> 'f Lhs \<Rightarrow> 'f Value \<Rightarrow> bool" where
  "value_ok D lhs (ValInt i) \<longleftrightarrow> in_i64 i"
| "value_ok D lhs (ValFloat d i) \<longleftrightarrow> False"
| "value_ok D lhs (ValStr v) \<longleftrightarrow> True"
| "value_ok D lhs (ValExpr e) \<longleftrightarrow> arith_ok D e \<and>
     (time_value_ahead (arith_toks 0 e) \<or> (case lhs of LhsCol _ _ \<Rightarrow> False | LhsExpr _ \<Rightarrow> call_ahead (arith_toks 0 e)))"

fun cond_ok :: "'f lit_ops \<Rightarrow> 'f Expr \<Rightarrow> bool" where
  "cond_ok D (E_COMPARE lhs op v) \<longleftrightarrow> lhs_ok D lhs \<and> value_ok D lhs v"
| "cond_ok D (E_BETWEEN lhs lo hi) \<longleftrightarrow> lhs_ok D lhs \<and> in_i64 lo \<and> in_i64 hi"
| "cond_ok D (E_AND (Some l) (Some r)) \<longleftrightarrow> cond_ok D l \<and> cond_ok D r"
| "cond_ok D (E_OR (Some l) (Some r)) \<longleftrightarrow> cond_ok D l \<and> cond_ok D r"
| "cond_ok D (E_NOT (Some e)) \<longleftrightarrow> cond_ok D e"
| "cond_ok D (E_IN a c vs) \<longleftrightarrow> list_all in_i64 vs"
| "cond_ok D (E_IS_NULL a c neg) \<longleftrightarrow> True"
| "cond_ok D (E_LIKE a c neg p) \<longleftrightarrow> True"
| "cond_ok D _ \<longleftrightarrow> False"

abbreviation conj_mk :: "Token list \<Rightarrow> 'f Expr option \<Rightarrow> 'f Expr option \<Rightarrow> 'f Expr option" where
  "conj_mk ts l r \<equiv> Some (E_AND l r)"

abbreviation disj_mk :: "Token list \<Rightarrow> 'f Expr option \<Rightarrow> 'f Expr option \<Rightarrow> 'f Expr option" where
  "disj_mk ts l r \<equiv> Some (E_OR l r)"

interpretation conjunctions: operator_chain "parse_primary_expr D" "check (Kw ''AND'')" conj_mk for D
  by unfold_locales (auto intro: alike_primary_node dest: check_nonempty)

interpretation disjunctions: operator_chain "parse_and_expr (parse_primary_expr D)" "check (Kw ''OR'')" disj_mk for D
  by unfold_locales (auto intro: alike_and_or alike_primary_node dest: check_nonempty)

lemma and_alt: "parse_and_expr p = pbind p (chain p (check (Kw ''AND'')) conj_mk)"
  by (simp add: parse_and_expr_def chain_def)

lemma expr_alt: "parse_expr D = pbind (parse_and_expr (parse_primary_expr D))
    (chain (parse_and_expr (parse_primary_expr D)) (check (Kw ''OR'')) disj_mk)"
  by (simp add: parse_expr_def parse_expr_of_def chain_def Let_def)

definition creads :: "'f lit_ops \<Rightarrow> 'f Expr \<Rightarrow> bool" where
  "creads D e \<longleftrightarrow>
     (\<forall>r. no_token after_sum r \<longrightarrow> parse_primary_expr D (cond_toks 2 e @ r) = Inr (Some e, r)) \<and>
     (\<forall>r. no_token after_sum r \<longrightarrow> parse_and_expr (parse_primary_expr D) (cond_toks 1 e @ r) =
        chain (parse_primary_expr D) (check (Kw ''AND'')) conj_mk (Some e) r) \<and>
     (\<forall>r. no_token (insert (Kw ''AND'') after_sum) r \<longrightarrow> parse_expr D (cond_toks 0 e @ r) =
        chain (parse_and_expr (parse_primary_expr D)) (check (Kw ''OR'')) disj_mk (Some e) r)"

abbreviation after_cond :: "TokenType set" where
  "after_cond \<equiv> insert (Kw ''OR'') (insert (Kw ''AND'') after_sum)"

lemma creadsD:
  assumes "creads D e"
  shows "no_token after_sum r \<Longrightarrow> parse_primary_expr D (cond_toks 2 e @ r) = Inr (Some e, r)"
    and "no_token after_sum r \<Longrightarrow> parse_and_expr (parse_primary_expr D) (cond_toks 1 e @ r) =
        chain (parse_primary_expr D) (check (Kw ''AND'')) conj_mk (Some e) r"
    and "no_token (insert (Kw ''AND'') after_sum) r \<Longrightarrow>
        parse_and_expr (parse_primary_expr D) (cond_toks 1 e @ r) = Inr (Some e, r)"
    and "no_token (insert (Kw ''AND'') after_sum) r \<Longrightarrow> parse_expr D (cond_toks 0 e @ r) =
        chain (parse_and_expr (parse_primary_expr D)) (check (Kw ''OR'')) disj_mk (Some e) r"
    and "no_token after_cond r \<Longrightarrow> parse_expr D (cond_toks 0 e @ r) = Inr (Some e, r)"
proof -
  note R = assms [unfolded creads_def]
  show "no_token after_sum r \<Longrightarrow> parse_primary_expr D (cond_toks 2 e @ r) = Inr (Some e, r)" for r using R by blast
  show t: "no_token after_sum r \<Longrightarrow> parse_and_expr (parse_primary_expr D) (cond_toks 1 e @ r) =
        chain (parse_primary_expr D) (check (Kw ''AND'')) conj_mk (Some e) r" for r using R by blast
  show u: "no_token (insert (Kw ''AND'') after_sum) r \<Longrightarrow> parse_expr D (cond_toks 0 e @ r) =
        chain (parse_and_expr (parse_primary_expr D)) (check (Kw ''OR'')) disj_mk (Some e) r" for r using R by blast
  show "no_token (insert (Kw ''AND'') after_sum) r \<Longrightarrow>
        parse_and_expr (parse_primary_expr D) (cond_toks 1 e @ r) = Inr (Some e, r)" for r
    using t [of r] by (simp add: stops_mono conjunctions.chain_stop stops_check)
  show "no_token after_cond r \<Longrightarrow> parse_expr D (cond_toks 0 e @ r) = Inr (Some e, r)" for r
    using u [of r] stops_mono [of after_cond r "insert (Kw ''AND'') after_sum"]
    by (simp add: disjunctions.chain_stop stops_check)
qed

lemma creadsI_atom:
  assumes same: "\<And>lv. cond_toks lv e = cond_toks 2 e"
    and prim: "\<And>r. no_token after_sum r \<Longrightarrow> parse_primary_expr D (cond_toks 2 e @ r) = Inr (Some e, r)"
  shows "creads D e"
proof -
  have t: "parse_and_expr (parse_primary_expr D) (cond_toks 2 e @ r) =
      chain (parse_primary_expr D) (check (Kw ''AND'')) conj_mk (Some e) r" if "no_token after_sum r" for r
    using prim [OF that] by (simp add: and_alt pbind_run)
  have "parse_expr D (cond_toks 2 e @ r) =
      chain (parse_and_expr (parse_primary_expr D)) (check (Kw ''OR'')) disj_mk (Some e) r"
    if "no_token (insert (Kw ''AND'') after_sum) r" for r
  proof -
    have "parse_and_expr (parse_primary_expr D) (cond_toks 2 e @ r) = Inr (Some e, r)"
      using t [of r] that by (simp add: stops_mono conjunctions.chain_stop stops_check)
    then show ?thesis by (simp add: expr_alt pbind_run)
  qed
  with t prim show ?thesis unfolding creads_def same [of 0] same [of 1] by blast
qed

lemma primary_cond_paren:
  assumes "parse_expr D (ts @ tok RPAREN '')'' # r) = Inr (e, tok RPAREN '')'' # r)"
  shows "parse_primary_expr D (paren ts @ r) = Inr (e, r)"
  using assms by (subst parse_primary_expr_eq) (simp add: primary_body_def paren_def run parse_expr_def)

lemma creads_and:
  assumes l: "creads D l" and r: "creads D r"
  shows "creads D (E_AND (Some l) (Some r))"
proof -
  let ?e = "E_AND (Some l) (Some r)" and ?P = "parse_primary_expr D"
  have t: "parse_and_expr ?P (cond_toks 1 ?e @ q) = chain ?P (check (Kw ''AND'')) conj_mk (Some ?e) q"
    if "no_token after_sum q" for q
  proof -
    have "parse_and_expr ?P (cond_toks 1 ?e @ q) =
        chain ?P (check (Kw ''AND'')) conj_mk (Some l) (kw ''AND'' # cond_toks 2 r @ q)"
      using creadsD(2) [OF l, of "kw ''AND'' # cond_toks 2 r @ q"] by (simp add: kw_def)
    also have "\<dots> = chain ?P (check (Kw ''AND'')) conj_mk (Some ?e) q"
      by (rule conjunctions.chain_step) (simp_all add: kw_def creadsD(1) [OF r that])
    finally show ?thesis .
  qed
  have u: "parse_expr D (cond_toks 1 ?e @ q) = chain (parse_and_expr ?P) (check (Kw ''OR'')) disj_mk (Some ?e) q"
    if "no_token (insert (Kw ''AND'') after_sum) q" for q
  proof -
    have "parse_and_expr ?P (cond_toks 1 ?e @ q) = Inr (Some ?e, q)"
      using t [of q] that by (simp add: stops_mono conjunctions.chain_stop stops_check del: cond_toks.simps)
    then show ?thesis unfolding expr_alt by (rule pbind_run)
  qed
  have "parse_primary_expr D (cond_toks 2 ?e @ q) = Inr (Some ?e, q)" for q
  proof -
    have "parse_expr D (cond_toks 1 ?e @ tok RPAREN '')'' # q) = Inr (Some ?e, tok RPAREN '')'' # q)"
      using u [of "tok RPAREN '')'' # q"] by (simp add: disjunctions.chain_stop del: cond_toks.simps)
    from primary_cond_paren [OF this] show ?thesis by (simp add: Let_def)
  qed
  moreover have "cond_toks 0 ?e = cond_toks 1 ?e" by (simp add: Let_def)
  ultimately show ?thesis using t u by (simp only: creads_def) blast
qed

lemma creads_or:
  assumes l: "creads D l" and r: "creads D r"
  shows "creads D (E_OR (Some l) (Some r))"
proof -
  let ?e = "E_OR (Some l) (Some r)" and ?P = "parse_primary_expr D"
  have u: "parse_expr D (cond_toks 0 ?e @ q) = chain (parse_and_expr ?P) (check (Kw ''OR'')) disj_mk (Some ?e) q"
    if "no_token (insert (Kw ''AND'') after_sum) q" for q
  proof -
    have "parse_expr D (cond_toks 0 ?e @ q) =
        chain (parse_and_expr ?P) (check (Kw ''OR'')) disj_mk (Some l) (kw ''OR'' # cond_toks 1 r @ q)"
      using creadsD(4) [OF l, of "kw ''OR'' # cond_toks 1 r @ q"] by (simp add: kw_def)
    also have "\<dots> = chain (parse_and_expr ?P) (check (Kw ''OR'')) disj_mk (Some ?e) q"
      by (rule disjunctions.chain_step) (use creadsD(3) [OF r that] in \<open>simp_all add: kw_def\<close>)
    finally show ?thesis .
  qed
  have p: "parse_primary_expr D (cond_toks 2 ?e @ q) = Inr (Some ?e, q)" for q
  proof -
    have "parse_expr D (cond_toks 0 ?e @ tok RPAREN '')'' # q) = Inr (Some ?e, tok RPAREN '')'' # q)"
      using u [of "tok RPAREN '')'' # q"] by (simp add: disjunctions.chain_stop del: cond_toks.simps)
    from primary_cond_paren [OF this] show ?thesis by (simp add: Let_def)
  qed
  have "parse_and_expr ?P (cond_toks 1 ?e @ q) = chain ?P (check (Kw ''AND'')) conj_mk (Some ?e) q" for q
    using p [of q] by (simp add: and_alt pbind_run Let_def)
  with p u show ?thesis by (simp only: creads_def) blast
qed

lemma compare_run: "pbind parse_compare_op f (cmp_tok op # r) = f op r"
  by (cases op) (simp_all add: pbind_def pseq_def advance_def ret_def parse_compare_op_def)

text \<open>A primary condition that starts with a name, or with a call.\<close>

lemma primary_column:
  assumes r: "no_token {LPAREN, DOT} r"
  shows "parse_primary_expr D (name_toks a c @ r) =
    (\<lambda>(a, c). on_match (Kw ''BETWEEN'') (between_bounds (LhsCol a c))
     (on_match (Kw ''IN'')
       (pseq (expect LPAREN ''('')
       (branch (check (Kw ''SELECT''))
          (pbind (parse_select D) (\<lambda>q. pseq (expect RPAREN '')'') (ret (Some (E_IN_SUBQUERY a c q)))))
          (pbind (in_list D) (\<lambda>vs. pseq (expect RPAREN '')'') (ret (Some (E_IN a c vs)))))))
     (on_match (Kw ''IS'')
       (pbind (on_match (Kw ''NOT'') (ret True) (ret False)) (\<lambda>neg.
        pseq (expect (Kw ''NULL_KW'') ''NULL'') (ret (Some (E_IS_NULL a c neg)))))
     (on_match (Kw ''LIKE'')
       (pbind parse_string_literal (\<lambda>p. ret (Some (E_LIKE a c False p))))
     (branch (\<lambda>ts. check (Kw ''NOT'') ts \<and> token_type (peek_tok ts) = Kw ''LIKE'')
       (pseq advance (pseq advance (pbind parse_string_literal (\<lambda>p. ret (Some (E_LIKE a c True p))))))
     (pbind parse_compare_op (\<lambda>op. compare_value D a c op (parse_select D)))))))) (a, c) r"
proof -
  have "\<not> call_ahead (name_toks a c @ r)"
    using r by (cases r) (auto simp: call_ahead_def name_toks_def peek_tok_def)
  moreover have "\<not> check t (name_toks a c @ r)" if "t \<noteq> IDENT" for t
    using that by (auto simp: name_toks_def ident_def)
  moreover have "parse_qualified_name (name_toks a c @ r) = Inr ((a, c), r)"
    by (rule name_run) (rule stops_mono [OF r], simp)
  ultimately show ?thesis
    by (subst parse_primary_expr_eq) (simp add: primary_body_def on_match_run branch_run column_condition_def pbind_run)
qed

lemma primary_function:
  assumes e: "arith_ok D e" "call_ahead (arith_toks 0 e)" and r: "no_token after_sum r"
  shows "parse_primary_expr D (arith_toks 0 e @ r) =
    (on_match (Kw ''BETWEEN'') (between_bounds (LhsExpr e))
     (branch (\<lambda>ts. is_compare_token (token_type (current ts)))
        (pbind parse_compare_op (\<lambda>op.
         pbind (branch (\<lambda>ts. time_value_ahead ts \<or> call_ahead ts)
                  (pbind (parse_arith_expr_node D) (\<lambda>e. ret (ValExpr e)))
               (branch (check NUMBER) (number_value D)
               (branch (check STRINGLIT) (pbind take_value (\<lambda>v. ret (ValStr v)))
               (err_got ''Parser: expected value after function predicate, got '')))) (\<lambda>v.
         ret (Some (E_COMPARE (LhsExpr e) op v)))))
        (ret (Some (E_COMPARE (LhsExpr e) CMP_NE (ValInt 0)))))) r"
proof -
  obtain t u ts where ts: "arith_toks 0 e = t # u # ts" "token_type t = IDENT" "token_type u = LPAREN"
    using e(2) by (cases "arith_toks 0 e" rule: remdups_adj.cases) (auto simp: call_ahead_def peek_tok_def tok_def)
  then have "call_ahead (arith_toks 0 e @ r)" "\<not> check (Kw ''NOT'') (arith_toks 0 e @ r)"
    "\<not> check LPAREN (arith_toks 0 e @ r)" "\<not> check NUMBER (arith_toks 0 e @ r)"
    by (simp_all add: call_ahead_def peek_tok_def)
  moreover have "parse_arith_expr_node D (arith_toks 0 e @ r) = Inr (e, r)"
    by (rule readsD(5) [OF arith_reads [OF e(1)] r])
  ultimately show ?thesis
    by (subst parse_primary_expr_eq) (simp add: primary_body_def on_match_run branch_run function_condition_def pbind_run)
qed

lemma pbind_literal: "in_i64 i \<Longrightarrow> pbind parse_integer_literal f (num i # r) = f i r"
  by (rule pbind_run) (rule literal_run)

lemma pbind_string: "pbind parse_string_literal f (tok STRINGLIT v # r) = f v r"
  by (rule pbind_run) (rule string_run)

lemma between_run:
  "\<lbrakk>in_i64 lo; in_i64 hi\<rbrakk> \<Longrightarrow> between_bounds lhs (num lo # kw ''AND'' # num hi # r) = Inr (Some (E_BETWEEN lhs lo hi), r)"
  by (simp add: between_bounds_def pbind_literal seq_run expect_run kw_def ret_run)

lemma number_value_run: "in_i64 i \<Longrightarrow> pbind (number_value D) f (num i # r) = f (ValInt i) r"
  by (simp add: number_value_def num_def pbind_assoc pbind_take show_not_float stoll_show lift_run pbind_ret)

section \<open>IN lists\<close>

lemma in_element_run: "in_i64 i \<Longrightarrow> in_element D vs (num i # r) = Inr ((vs @ [i], True), r)"
  by (simp add: in_element_def num_def branch_run pbind_take show_not_float stoll_show lift_run ret_run)

lemma commas_nums:
  "commas (map (\<lambda>i. [num i]) (v # vs)) = num v # concat (map (\<lambda>i. [tok COMMA '','', num i]) vs)"
  by (induction vs arbitrary: v) simp_all

lemma in_loop_run:
  assumes "list_all in_i64 vs" "\<not> check COMMA r"
  shows "while_do (\<lambda>(vs, go) ts. go \<and> check COMMA ts) (\<lambda>(vs, _). pseq advance (in_element D vs)) (acc, True)
    (concat (map (\<lambda>i. [tok COMMA '','', num i]) vs) @ r) = Inr ((acc @ vs, True), r)"
  using assms(1)
proof (induction vs arbitrary: acc)
  case Nil
  show ?case by (subst while_do_stop) (simp_all add: assms(2))
next
  case (Cons v vs)
  let ?c = "\<lambda>(vs, go) ts. go \<and> check COMMA ts" and ?b = "\<lambda>(vs, _). pseq advance (in_element D vs)"
  have "while_do ?c ?b (acc, True) (concat (map (\<lambda>i. [tok COMMA '','', num i]) (v # vs)) @ r) =
      while_do ?c ?b (acc @ [v], True) (concat (map (\<lambda>i. [tok COMMA '','', num i]) vs) @ r)"
  proof (rule while_do_step)
    show "?b (acc, True) (concat (map (\<lambda>i. [tok COMMA '','', num i]) (v # vs)) @ r) =
        Inr ((acc @ [v], True), concat (map (\<lambda>i. [tok COMMA '','', num i]) vs) @ r)"
      using Cons.prems by (simp add: seq_run pbind_advance in_element_run)
    fix s :: "i64 list \<times> bool" and us assume "?c s us"
    then have us: "us \<noteq> []" by (auto dest: check_nonempty)
    show "us \<noteq> [] \<and> ?b s us \<noteq> Inl TooDeep \<and> (\<forall>x r. ?b s us = Inr (x, r) \<longrightarrow> length r < length us)"
      using advance_step [OF alike_in_element us lessI, of D "fst s"] us by (simp add: case_prod_beta)
  qed simp
  with Cons show ?case by simp
qed

lemma in_list_run:
  assumes "list_all in_i64 vs"
  shows "in_list D (commas (map (\<lambda>i. [num i]) vs) @ tok RPAREN v # r) = Inr (vs, tok RPAREN v # r)"
proof (cases vs)
  case Nil
  have "in_element D [] (tok RPAREN v # r) = Inr (([], False), tok RPAREN v # r)"
    by (simp add: in_element_def branch_run ret_run)
  with Nil show ?thesis by (simp add: in_list_def pbind_run while_do_stop ret_run)
next
  case (Cons w ws)
  with assms in_loop_run [of ws "tok RPAREN v # r" D "[w]"] show ?thesis
    by (simp only: commas_nums) (simp add: in_list_def pbind_run in_element_run ret_run)
qed

section \<open>Primary conditions\<close>

lemma creads_simple:
  "creads D (E_IS_NULL a c neg)" "creads D (E_LIKE a c neg p)"
  by (rule creadsI_atom; simp add: primary_column kw_def run pbind_string peek_tok_def)+

lemma creads_in:
  assumes "list_all in_i64 vs"
  shows "creads D (E_IN a c vs)"
proof (rule creadsI_atom)
  fix r
  have "\<not> check (Kw ''SELECT'') (commas (map (\<lambda>i. [num i]) vs) @ tok RPAREN '')'' # r)"
  proof (cases vs)
    case (Cons w ws)
    show ?thesis unfolding Cons commas_nums by (simp add: num_def)
  qed simp
  with in_list_run [OF assms, of D "'')''" r]
  show "parse_primary_expr D (cond_toks 2 (E_IN a c vs) @ r) = Inr (Some (E_IN a c vs), r)"
    by (simp add: primary_column kw_def paren_def on_match_run seq_run expect_run branch_run pbind_run ret_run)
qed simp

lemma creads_not:
  assumes "creads D e"
  shows "creads D (E_NOT (Some e))"
proof (rule creadsI_atom)
  fix r assume "no_token after_sum r"
  from creadsD(1) [OF assms this]
  show "parse_primary_expr D (cond_toks 2 (E_NOT (Some e)) @ r) = Inr (Some (E_NOT (Some e)), r)"
    by (subst parse_primary_expr_eq) (simp add: primary_body_def kw_def run pbind_run)
qed simp

lemma creads_between:
  assumes "lhs_ok D lhs" "in_i64 lo" "in_i64 hi"
  shows "creads D (E_BETWEEN lhs lo hi)"
proof (rule creadsI_atom)
  fix r
  note b = between_run [OF assms(2,3), of lhs r]
  show "parse_primary_expr D (cond_toks 2 (E_BETWEEN lhs lo hi) @ r) = Inr (Some (E_BETWEEN lhs lo hi), r)"
  proof (cases lhs)
    case (LhsCol a c)
    with b show ?thesis by (simp add: primary_column kw_def on_match_run)
  next
    case (LhsExpr e)
    with b assms(1) show ?thesis by (simp add: primary_function kw_def on_match_run)
  qed
qed simp

lemma cmp_not: "t \<notin> {GT, LT, GE, LE, EQ, NE} \<Longrightarrow> \<not> check t (cmp_tok op # r)"
  by (cases op) auto

lemma cmp_is: "is_compare_token (token_type (cmp_tok op))"
  by (cases op) (simp_all add: is_compare_token_def)

lemma stops_cmp: "S \<inter> {GT, LT, GE, LE, EQ, NE} = {} \<Longrightarrow> no_token S (cmp_tok op # r)"
  by (cases op) auto

lemma check_append: "ts \<noteq> [] \<Longrightarrow> check t (ts @ r) \<longleftrightarrow> check t ts"
  by (cases ts) auto

lemma time_append: "ts \<noteq> [] \<Longrightarrow> time_value_ahead (ts @ r) \<longleftrightarrow> time_value_ahead ts"
  by (simp add: time_value_ahead_def check_append)

lemma call_append: "call_ahead ts \<Longrightarrow> call_ahead (ts @ r)"
  by (cases ts rule: remdups_adj.cases) (auto simp: call_ahead_def peek_tok_def dest: check_nonempty)

lemma time_not_paren: "time_value_ahead ts \<Longrightarrow> \<not> check LPAREN ts"
  by (auto simp: time_value_ahead_def check_def)

lemma pbind_node:
  "\<lbrakk>arith_ok D e; no_token after_sum r\<rbrakk> \<Longrightarrow> pbind (parse_arith_expr_node D) f (arith_toks 0 e @ r) = f e r"
  by (rule pbind_run) (rule readsD(5) [OF arith_reads])

lemma compare_value_run:
  assumes v: "value_ok D (LhsCol a c) v" and r: "no_token after_sum r"
  shows "compare_value D a c op sel (value_toks v @ r) = Inr (Some (E_COMPARE (LhsCol a c) op v), r)"
proof (cases v)
  case (ValInt i)
  with v show ?thesis
    by (simp add: compare_value_def branch_run pbind_branch time_value_ahead_def number_value_run ret_run) (simp add: num_def)
next
  case (ValStr u)
  then show ?thesis
    by (simp add: compare_value_def branch_run pbind_branch time_value_ahead_def pbind_assoc pbind_take pbind_ret ret_run)
next
  case (ValExpr e)
  have ne: "arith_toks 0 e \<noteq> []" using arith_lead [of 0 e] by auto
  have t: "time_value_ahead (arith_toks 0 e)" "arith_ok D e" using v ValExpr by simp_all
  then have "time_value_ahead (arith_toks 0 e @ r)" "\<not> check LPAREN (arith_toks 0 e @ r)"
    using ne by (simp_all add: time_append check_append time_not_paren)
  with ValExpr t r show ?thesis
    by (simp add: compare_value_def branch_run pbind_branch pbind_assoc pbind_node pbind_ret ret_run)
qed (use v in simp)

lemma creads_compare:
  assumes lhs: "lhs_ok D lhs" and v: "value_ok D lhs v"
  shows "creads D (E_COMPARE lhs op v)"
proof (rule creadsI_atom)
  fix r assume r: "no_token after_sum r"
  show "parse_primary_expr D (cond_toks 2 (E_COMPARE lhs op v) @ r) = Inr (Some (E_COMPARE lhs op v), r)"
  proof (cases lhs)
    case (LhsCol a c)
    have "no_token {LPAREN, DOT} (cmp_tok op # value_toks v @ r)" by (rule stops_cmp) simp
    from primary_column [OF this, of D a c] compare_value_run [of D a c v r] v r LhsCol show ?thesis
      by (simp add: on_match_run branch_run cmp_not compare_run del: check_Cons)
  next
    case (LhsExpr f)
    have p: "parse_primary_expr D (arith_toks 0 f @ cmp_tok op # value_toks v @ r) =
        pbind (branch (\<lambda>ts. time_value_ahead ts \<or> call_ahead ts)
                  (pbind (parse_arith_expr_node D) (\<lambda>e. ret (ValExpr e)))
               (branch (check NUMBER) (number_value D)
               (branch (check STRINGLIT) (pbind take_value (\<lambda>v. ret (ValStr v)))
               (err_got ''Parser: expected value after function predicate, got '')))) (\<lambda>v.
         ret (Some (E_COMPARE lhs op v))) (value_toks v @ r)"
      using lhs LhsExpr stops_cmp [of after_sum op "value_toks v @ r"]
      by (subst primary_function) (simp_all add: on_match_run branch_run cmp_not cmp_is compare_run del: check_Cons stops_Cons)
    show ?thesis
    proof (cases v)
      case (ValInt i)
      with v p LhsExpr show ?thesis
        by (simp add: pbind_branch time_value_ahead_def call_ahead_def number_value_run ret_run) (simp add: num_def)
    next
      case (ValStr u)
      with p LhsExpr show ?thesis
        by (simp add: pbind_branch time_value_ahead_def call_ahead_def pbind_assoc pbind_take pbind_ret ret_run)
    next
      case (ValExpr e)
      have "arith_toks 0 e \<noteq> []" using arith_lead [of 0 e] by auto
      then have "time_value_ahead (arith_toks 0 e @ r) \<or> call_ahead (arith_toks 0 e @ r)"
        using v ValExpr LhsExpr by (auto simp: time_append call_append)
      with ValExpr v r p LhsExpr show ?thesis
        by (simp add: pbind_branch pbind_assoc pbind_node pbind_ret ret_run)
    qed (use v in simp)
  qed
qed simp

lemma cond_reads: "cond_ok D e \<Longrightarrow> creads D e"
  by (induction D e rule: cond_ok.induct)
    (simp_all add: creads_compare creads_between creads_and creads_or creads_not creads_in creads_simple)

end
