(* ===== verification/Sql_Query.thy ===== *)
theory Sql_Query
  imports Sql_Roundtrip_Cond
begin

text \<open>
  The round trip of whole statements: the queries of a grammar with value expressions, aggregates, a join, WHERE,
  GROUP BY, ORDER BY, LIMIT and OFFSET, from their text to their tree. The statements \<^verbatim>\<open>DELETE\<close> and the set
  operations are read as well, and two properties state what the parser does with input after a statement and with
  chains of set operations.
\<close>

section \<open>Queries\<close>

text \<open>An entry of the SELECT list, with its alias or the empty text.\<close>

datatype 'f item = Value "'f ArithExpr" string | Aggregate AggFunc "'f ArithExpr" string | CountStar string

record 'f query =
  q_distinct :: bool
  q_items :: "'f item list"
  q_table :: string
  q_alias :: string
  q_join :: "JoinClause option"
  q_where :: "'f Expr option"
  q_group :: "(string \<times> string) list"
  q_order :: "((string \<times> string) \<times> bool) list"
  q_limit :: "i64 option"
  q_offset :: "i64 option"

definition agg_word :: "AggFunc \<Rightarrow> string" where
  "agg_word f =
     (case f of AGG_SUM \<Rightarrow> ''SUM'' | AGG_AVG \<Rightarrow> ''AVG'' | AGG_COUNT \<Rightarrow> ''COUNT'' | AGG_MIN \<Rightarrow> ''MIN'' | AGG_MAX \<Rightarrow> ''MAX''
      | AGG_STDDEV \<Rightarrow> ''STDDEV'' | AGG_VARIANCE \<Rightarrow> ''VARIANCE'' | AGG_MEDIAN \<Rightarrow> ''MEDIAN'' | AGG_FIRST \<Rightarrow> ''FIRST''
      | AGG_LAST \<Rightarrow> ''LAST'' | _ \<Rightarrow> [])"

definition as_toks :: "string \<Rightarrow> Token list" where
  "as_toks al = (if al = [] then [] else [kw ''AS'', ident al])"

fun item_toks :: "'f item \<Rightarrow> Token list" where
  "item_toks (Value e al) = arith_toks 0 e @ as_toks al"
| "item_toks (Aggregate f e al) = kw (agg_word f) # paren (arith_toks 0 e) @ as_toks al"
| "item_toks (CountStar al) = kw ''COUNT'' # paren [tok STAR ''*''] @ as_toks al"

definition item_base :: "'f lit_ops \<Rightarrow> 'f item \<Rightarrow> 'f SelectItem" where
  "item_base D it =
     (case it of
        Value (A_COLUMN a c) al \<Rightarrow>
          if c = ''*'' then (SelectItem_default D)\<lparr>table_alias := a, is_star := True\<rparr>
          else (SelectItem_default D)\<lparr>table_alias := a, column := c\<rparr>
      | Value e al \<Rightarrow> (SelectItem_default D)\<lparr>arith_expr := Some e\<rparr>
      | Aggregate f e al \<Rightarrow> set_value e ((SelectItem_default D)\<lparr>agg := f\<rparr>)
      | CountStar al \<Rightarrow> (SelectItem_default D)\<lparr>agg := AGG_COUNT, column := ''*''\<rparr>)"

fun item_name :: "'f item \<Rightarrow> string" where
  "item_name (Value e al) = al"
| "item_name (Aggregate f e al) = al"
| "item_name (CountStar al) = al"

definition item_tree :: "'f lit_ops \<Rightarrow> 'f item \<Rightarrow> 'f SelectExpr" where
  "item_tree D it =
     SelectExpr (if item_name it = [] then item_base D it else (item_base D it)\<lparr>item_alias := item_name it\<rparr>) None"

fun item_ok :: "'f lit_ops \<Rightarrow> 'f item \<Rightarrow> bool" where
  "item_ok D (Value e al) \<longleftrightarrow> arith_ok D e \<and> \<not> wj_name (arith_toks 0 e)"
| "item_ok D (Aggregate f e al) \<longleftrightarrow> arith_ok D e \<and> agg_word f \<noteq> []"
| "item_ok D (CountStar al) \<longleftrightarrow> True"

definition join_words :: "JoinClauseType \<Rightarrow> Token list" where
  "join_words ty =
     (case ty of J_INNER \<Rightarrow> [] | J_ASOF \<Rightarrow> [kw ''ASOF''] | J_LEFT \<Rightarrow> [kw ''LEFT''] | J_RIGHT \<Rightarrow> [kw ''RIGHT'']
      | J_FULL \<Rightarrow> [kw ''FULL''] | J_WINDOW \<Rightarrow> [kw ''WINDOW''] | J_UNION \<Rightarrow> [kw ''UNION'']
      | J_PLUS \<Rightarrow> [tok (Kw ''PLUS_JOIN'') ''PLUS''] | J_AJ0 \<Rightarrow> [kw ''AJ0'']) @ [kw ''JOIN'']"

definition on_toks :: "JoinCondition \<Rightarrow> Token list" where
  "on_toks c = name_toks (left_alias c) (left_col c) @ cmp_tok (join_op c) # name_toks (right_alias c) (right_col c)"

definition join_toks :: "JoinClause \<Rightarrow> Token list" where
  "join_toks j = join_words (join_type j) @ ident (join_table j) # as_toks (join_alias j) @
     kw ''ON'' # seps (kw ''AND'') (map on_toks (on_conditions j))"

definition join_ok :: "JoinClause \<Rightarrow> bool" where
  "join_ok j \<longleftrightarrow> on_conditions j \<noteq> [] \<and> wj_left_time_col j = [] \<and> wj_right_time_col j = [] \<and>
     wj_window_before j = 0 \<and> wj_window_after j = 0"

definition order_toks :: "(string \<times> string) \<times> bool \<Rightarrow> Token list" where
  "order_toks = (\<lambda>((a, c), asc). name_toks a c @ (if asc then [] else [kw ''DESC'']))"

definition tail_toks :: "'f query \<Rightarrow> Token list" where
  "tail_toks q =
     (if q_group q = [] then [] else kw ''GROUP'' # kw ''BY'' # commas (map (\<lambda>(a, c). name_toks a c) (q_group q))) @
     (if q_order q = [] then [] else kw ''ORDER'' # kw ''BY'' # commas (map order_toks (q_order q))) @
     (case q_limit q of None \<Rightarrow> [] | Some n \<Rightarrow> [kw ''LIMIT'', num n]) @
     (case q_offset q of None \<Rightarrow> [] | Some n \<Rightarrow> [kw ''OFFSET'', num n])"

definition column_toks :: "'f item list \<Rightarrow> Token list" where
  "column_toks its = (if its = [] then [tok STAR ''*''] else commas (map item_toks its))"

definition query_toks :: "'f query \<Rightarrow> Token list" where
  "query_toks q =
     kw ''SELECT'' # (if q_distinct q then [kw ''DISTINCT''] else []) @
     column_toks (q_items q) @
     kw ''FROM'' # ident (q_table q) # as_toks (q_alias q) @
     (case q_join q of None \<Rightarrow> [] | Some j \<Rightarrow> join_toks j) @
     (case q_where q of None \<Rightarrow> [] | Some c \<Rightarrow> kw ''WHERE'' # cond_toks 0 c) @
     tail_toks q"

definition query_tree :: "'f lit_ops \<Rightarrow> 'f query \<Rightarrow> 'f SelectStmt" where
  "query_tree D q =
     SelectStmt
       \<lparr>distinct_rows = q_distinct q, from_table = q_table q, from_alias = q_alias q, join = q_join q,
        group_by = (if q_group q = [] then None
          else Some (map (\<lambda>(a, c). \<lparr>gb_alias = a, gb_column = c, gb_xbar_bucket = 0, gb_date_trunc_bucket = 0\<rparr>) (q_group q))),
        order_by = (if q_order q = [] then None
          else Some (map (\<lambda>((a, c), asc). \<lparr>ob_alias = a, ob_column = c, ob_asc = asc\<rparr>) (q_order q))),
        limit = q_limit q, offset = q_offset q, sample_rate = None\<rparr>
       (if q_items q = [] then [SelectExpr ((SelectItem_default D)\<lparr>is_star := True\<rparr>) None]
        else map (item_tree D) (q_items q))
       None (map_option Some (q_where q)) None"

definition query_ok :: "'f lit_ops \<Rightarrow> 'f query \<Rightarrow> bool" where
  "query_ok D q \<longleftrightarrow>
     list_all (item_ok D) (q_items q) \<and>
     q_alias q \<notin> {''WHERE'', ''JOIN'', ''GROUP'', ''ORDER'', ''LIMIT'', ''SAMPLE''} \<and>
     (case q_join q of None \<Rightarrow> True | Some j \<Rightarrow> join_ok j) \<and>
     (case q_where q of None \<Rightarrow> True | Some c \<Rightarrow> cond_ok D c) \<and>
     (case q_limit q of None \<Rightarrow> True | Some n \<Rightarrow> in_i64 n) \<and>
     (case q_offset q of None \<Rightarrow> True | Some n \<Rightarrow> in_i64 n)"

section \<open>The SELECT list\<close>

lemma agg_words:
  assumes "agg_word f \<noteq> []"
  obtains "agg_keyword (Kw (agg_word f)) = Some f" | "f = AGG_FIRST" | "f = AGG_LAST"
  using assms by (cases f) (auto simp: agg_word_def agg_keyword_def)

lemma alias_run:
  assumes "no_token {Kw ''AS'', Kw ''OVER''} r"
  shows "pbind (parse_over (it, None)) parse_alias (as_toks al @ r) =
    Inr (SelectExpr (if al = [] then it else it\<lparr>item_alias := al\<rparr>) None, r)"
proof -
  have "\<not> check (Kw ''OVER'') (as_toks al @ r)"
    using assms by (auto simp: as_toks_def kw_def stops_check)
  with assms show ?thesis
    by (simp add: parse_over_def pbind_branch pbind_ret parse_alias_def on_match_run as_toks_def kw_def ident_def
        branch_run alias_ahead_def at_end_def pbind_take ret_run stops_check)
qed

lemma agg_run:
  assumes e: "arith_ok D e" and f: "f \<noteq> AGG_VWAP" "f \<noteq> AGG_XBAR"
  shows "parse_agg D ex f it (paren (arith_toks 0 e) @ r) = Inr ((set_value e (it\<lparr>agg := f\<rparr>), None), r)"
proof -
  obtain t ts where t: "arith_toks 0 e = t # ts" "token_type t \<in> lead_types" using arith_lead [of 0 e] by blast
  then have "\<not> check STAR (arith_toks 0 e @ q)" "\<not> check (Kw ''DISTINCT'') (arith_toks 0 e @ q)"
    "\<not> check (Kw ''CASE'') (arith_toks 0 e @ q)" for q
    by (auto simp: lead_types_def)
  then show ?thesis
    using e f
    by (simp add: parse_agg_def paren_def seq_run expect_run agg_argument_def pbind_branch pbind_on_match pbind_assoc
        pbind_node pbind_ret ret_run)
qed

abbreviation after_item :: "TokenType set" where
  "after_item \<equiv> insert (Kw ''AS'') (insert (Kw ''OVER'') after_sum)"

lemma stops_as:
  assumes "no_token S r" "Kw ''AS'' \<notin> S"
  shows "no_token S (as_toks al @ r)"
  using assms by (simp add: as_toks_def kw_def)

lemma switch_aggregate:
  assumes "agg_word f \<noteq> []" "arith_ok D e"
  shows "select_switch D ex it (kw (agg_word f) # paren (arith_toks 0 e) @ r) = Inr ((set_value e (it\<lparr>agg := f\<rparr>), None), r)"
proof -
  have nf: "f \<noteq> AGG_VWAP" "f \<noteq> AGG_XBAR" using assms(1) by (auto simp: agg_word_def)
  note run = agg_run [OF assms(2) nf, of ex it r]
  from assms(1) show ?thesis
  proof (cases rule: agg_words)
    case 1
    with run show ?thesis by (simp add: select_switch_def kw_def seq_run pbind_advance)
  next
    case 2
    with run show ?thesis
      by (simp add: select_switch_def agg_keyword_def window_keyword_def agg_word_def kw_def on_match_run branch_run)
        (simp add: paren_def)
  next
    case 3
    with run show ?thesis
      by (simp add: select_switch_def agg_keyword_def window_keyword_def agg_word_def kw_def on_match_run branch_run)
        (simp add: paren_def)
  qed
qed

lemma switch_plain:
  assumes e: "arith_ok D e" "\<not> wj_name (arith_toks 0 e)" and r: "no_token after_sum r"
  shows "select_switch D ex (SelectItem_default D) (arith_toks 0 e @ r) = Inr ((item_base D (Value e al), None), r)"
proof -
  obtain t ts where t: "arith_toks 0 e = t # ts" "token_type t \<in> lead_types" using arith_lead [of 0 e] by blast
  then have "agg_keyword (token_type t) = None" "window_keyword (token_type t) = None"
    "token_type t \<noteq> Kw ''PERCENTILE''" "token_type t \<noteq> Kw ''FIRST''" "token_type t \<noteq> Kw ''LAST''"
    "token_type t \<noteq> STAR" "token_type t \<noteq> Kw ''CASE''"
    by (auto simp: lead_types_def agg_keyword_def window_keyword_def)
  moreover have "\<not> wj_name (arith_toks 0 e @ r)" using e(2) t(1) by (simp add: wj_name_def)
  moreover have "parse_plain D (SelectItem_default D) (arith_toks 0 e @ r) = Inr ((item_base D (Value e al), None), r)"
    unfolding parse_plain_def pbind_node [OF e(1) r] ret_run item_base_def by (simp split: ArithExpr.splits)
  ultimately show ?thesis
    using t(1) by (simp add: select_switch_def on_match_run branch_run)
qed

lemma item_run:
  assumes ok: "item_ok D it" and r: "no_token after_item r"
  shows "parse_select_expr D ex (item_toks it @ r) = Inr (item_tree D it, r)"
proof -
  have r': "no_token {Kw ''AS'', Kw ''OVER''} r" "no_token after_sum r" using r by (auto intro: stops_mono)
  note al = alias_run [OF r'(1)]
  show ?thesis
  proof (cases it)
    case (Value e al)
    have "select_switch D ex (SelectItem_default D) (arith_toks 0 e @ as_toks al @ r) =
        Inr ((item_base D it, None), as_toks al @ r)"
      unfolding Value by (rule switch_plain) (use ok Value r'(2) in \<open>simp_all add: stops_as\<close>)
    with Value al [of "item_base D it" al] show ?thesis
      by (simp add: parse_select_expr_def pbind_run item_tree_def)
  next
    case (Aggregate f e al)
    then have "select_switch D ex (SelectItem_default D) (kw (agg_word f) # paren (arith_toks 0 e) @ as_toks al @ r) =
        Inr ((item_base D it, None), as_toks al @ r)"
      using ok by (simp add: switch_aggregate item_base_def)
    with Aggregate al [of "item_base D it" al] show ?thesis
      by (simp add: parse_select_expr_def pbind_run item_tree_def)
  next
    case (CountStar al)
    then have "select_switch D ex (SelectItem_default D) (kw ''COUNT'' # paren [tok STAR ''*''] @ as_toks al @ r) =
        Inr ((item_base D it, None), as_toks al @ r)"
      by (simp add: select_switch_def agg_keyword_def kw_def paren_def seq_run pbind_advance parse_agg_def expect_run
          agg_argument_def pbind_branch pbind_seq pbind_ret ret_run item_base_def)
    with CountStar al [of "item_base D it" al] show ?thesis
      by (simp add: parse_select_expr_def pbind_run item_tree_def)
  qed
qed

lemma alike_item: "alike k (parse_select_expr D (parse_expr D)) (parse_select_expr D (parse_expr D))"
  by (rule alike_select_expr) (rule alike_where [unfolded parse_where_def])

lemma item_head: "\<exists>t ts. item_toks it = t # ts \<and> token_type t \<noteq> STAR \<and> token_type t \<noteq> Kw ''DISTINCT''"
proof (cases it)
  case (Value e al)
  obtain t ts where "arith_toks 0 e = t # ts" "token_type t \<in> lead_types" using arith_lead [of 0 e] by blast
  with Value show ?thesis by (auto simp: lead_types_def)
next
  case (Aggregate f e al)
  have "agg_word f \<noteq> ''DISTINCT''" by (cases f) (simp_all add: agg_word_def)
  with Aggregate show ?thesis by (simp add: kw_def)
qed (simp add: kw_def)

lemma column_heads:
  "\<exists>t ts. column_toks its @ r = t # ts \<and> (its \<noteq> [] \<longrightarrow> token_type t \<noteq> STAR) \<and> token_type t \<noteq> Kw ''DISTINCT''"
proof (cases its)
  case (Cons it its')
  then show ?thesis using item_head [of it] by (cases its') (auto simp: column_toks_def)
qed (simp add: column_toks_def)

lemma column_head:
  "its \<noteq> [] \<Longrightarrow> \<not> check STAR (column_toks its @ r)" "\<not> check (Kw ''DISTINCT'') (column_toks its @ r)"
  using column_heads [of its r] by auto

lemma columns_run:
  assumes "list_all (item_ok D) its"
  shows "parse_columns D (parse_expr D) (column_toks its @ kw ''FROM'' # r) =
    Inr (if its = [] then [SelectExpr ((SelectItem_default D)\<lparr>is_star := True\<rparr>) None] else map (item_tree D) its,
         kw ''FROM'' # r)"
proof (cases "its = []")
  case True
  then show ?thesis by (simp add: parse_columns_def column_toks_def on_match_run ret_run)
next
  case False
  have list: "comma_list (parse_select_expr D (parse_expr D)) (commas (map item_toks its) @ kw ''FROM'' # r) =
      Inr (map (item_tree D) its, kw ''FROM'' # r)"
  proof (rule comma_list_run [OF alike_item])
    fix it q assume it: "it \<in> set its" and q: "q = kw ''FROM'' # r \<or> check COMMA q"
    have "no_token after_item q" using q by (auto simp: kw_def) (simp add: no_token_def check_def)
    then show "parse_select_expr D (parse_expr D) (item_toks it @ q) = Inr (item_tree D it, q)"
      using assms it by (simp add: item_run list_all_iff)
  qed (use False in \<open>simp_all add: kw_def\<close>)
  with False column_head(1) [OF False, of "kw ''FROM'' # r"] show ?thesis
    by (simp add: parse_columns_def on_match_run column_toks_def)
qed

section \<open>FROM and JOIN\<close>

lemma from_run:
  assumes al: "al \<notin> {''WHERE'', ''JOIN'', ''GROUP'', ''ORDER'', ''LIMIT'', ''SAMPLE''}"
    and r: "no_token {Kw ''AS'', IDENT} r"
  shows "pbind (parse_from sel) f (ident tbl # as_toks al @ r) = f (tbl, al, None) r"
proof (cases "al = []")
  case True
  then have "\<not> check (Kw ''AS'') (as_toks al @ r)" "\<not> from_alias_ahead r"
    using r by (auto simp: as_toks_def stops_check from_alias_ahead_def)
  with True show ?thesis
    by (simp add: parse_from_def ident_def pbind_on_match pbind_assoc expect_run pbind_seq opt_match_run pbind_branch
        pbind_ret as_toks_def)
next
  case False
  with al show ?thesis
    by (simp add: parse_from_def ident_def kw_def pbind_on_match pbind_assoc expect_run pbind_seq opt_match_run
        pbind_branch pbind_take pbind_ret as_toks_def from_alias_ahead_def)
qed

lemma alike_join_cond: "alike k (parse_join_cond jc) (parse_join_cond jc)"
  unfolding parse_join_cond_def join_offset_def by (intro alike_rules)

lemma pbind_name: "no_token {DOT} r \<Longrightarrow> pbind parse_qualified_name f (name_toks a c @ r) = f (a, c) r"
  by (rule pbind_run) (rule name_run)

lemma on_run:
  assumes "no_token {DOT} r"
  shows "parse_join_cond jc (on_toks c @ r) = Inr (jc\<lparr>on_conditions := on_conditions jc @ [c]\<rparr>, r)"
proof -
  have "no_token {DOT} (cmp_tok (join_op c) # q)" for q by (rule stops_cmp) simp
  with assms show ?thesis
    by (simp add: parse_join_cond_def on_toks_def pbind_name on_match_run cmp_not compare_run ret_run
        del: check_Cons stops_Cons)
qed

lemma join_type_run:
  "pbind parse_join_type f (join_words ty @ r) = f ty r"
  by (cases ty)
    (simp_all add: join_words_def parse_join_type_def Let_def kw_def pbind_on_match pbind_seq opt_match_run expect_run pbind_ret)

lemma fold_conditions:
  "fold (\<lambda>c jc. jc\<lparr>on_conditions := on_conditions jc @ [c]\<rparr>) cs jc = jc\<lparr>on_conditions := on_conditions jc @ cs\<rparr>"
  by (induction cs arbitrary: jc) simp_all

lemma join_run:
  assumes j: "join_ok j" and r: "no_token {DOT, Kw ''AND''} r"
  shows "parse_join (join_toks j @ r) = Inr (j, r)"
proof -
  define jc where "jc = \<lparr>join_type = join_type j, join_table = join_table j, join_alias = join_alias j,
    on_conditions = [], wj_left_time_col = [], wj_right_time_col = [], wj_window_before = 0, wj_window_after = 0\<rparr>"
  have "pbind (parse_join_cond jc) (while_do (\<lambda>_. check (token_type (kw ''AND'')))
      (\<lambda>s. pseq advance (parse_join_cond s))) (seps (kw ''AND'') (map on_toks (on_conditions j)) @ r) =
      Inr (fold (\<lambda>c jc. jc\<lparr>on_conditions := on_conditions jc @ [c]\<rparr>) (on_conditions j) jc, r)"
  proof (rule sep_loop_run [OF alike_join_cond])
    fix c jc q assume "q = r \<or> check (token_type (kw ''AND'')) q"
    then have "no_token {DOT} q" using stops_mono [OF r, of "{DOT}"] by (auto simp: no_token_def check_def kw_def)
    then show "parse_join_cond jc (on_toks c @ q) = Inr (jc\<lparr>on_conditions := on_conditions jc @ [c]\<rparr>, q)"
      by (rule on_run)
  qed (use j r in \<open>simp_all add: join_ok_def kw_def stops_check\<close>)
  moreover have "jc\<lparr>on_conditions := on_conditions j\<rparr> = j" using j by (simp add: jc_def join_ok_def)
  ultimately have cond: "pbind (parse_join_cond jc) (while_do (\<lambda>_. check (Kw ''AND''))
      (\<lambda>s. pseq advance (parse_join_cond s))) (seps (kw ''AND'') (map on_toks (on_conditions j)) @ r) = Inr (j, r)"
    by (simp add: fold_conditions kw_def) (simp add: jc_def)
  show ?thesis
  proof (cases "join_alias j = []")
    case True
    with cond show ?thesis
      by (simp add: parse_join_def join_toks_def join_type_run ident_def expect_run seq_run opt_match_run pbind_branch
          pbind_ret as_toks_def kw_def Let_def branch_run jc_def)
  next
    case False
    with cond show ?thesis
      by (simp add: parse_join_def join_toks_def join_type_run ident_def expect_run seq_run opt_match_run pbind_branch
          pbind_take as_toks_def kw_def Let_def branch_run jc_def)
  qed
qed

section \<open>The clauses after FROM\<close>

text \<open>What may follow a query: nothing that could continue it.\<close>

definition query_words :: "TokenType set" where
  "query_words = {IDENT, COMMA, Kw ''AS'', Kw ''ASC'', Kw ''DESC'', Kw ''SAMPLE'', Kw ''WHERE'', Kw ''GROUP'', Kw ''HAVING'',
     Kw ''ORDER'', Kw ''LIMIT'', Kw ''OFFSET''} \<union> after_cond"

definition ends_query :: "Token list \<Rightarrow> bool" where
  "ends_query r \<longleftrightarrow> no_token query_words r \<and> \<not> join_ahead r"

lemma ends_check: "ends_query r \<Longrightarrow> t \<in> query_words \<Longrightarrow> \<not> check t r"
  unfolding ends_query_def by (blast dest: stops_check)

lemma pbind_ret_fun: "pbind (ret x) f = f x"
  by (rule ext) (rule pbind_ret)

lemma optional_run:
  "\<not> check t ts \<Longrightarrow> pbind (optional t p) f ts = f None ts"
  "token_type x = t \<Longrightarrow> t \<noteq> END \<Longrightarrow> pbind (optional t p) f (x # ts) = pbind p (\<lambda>v. f (Some v)) ts"
  by (simp_all add: optional_def pbind_on_match pbind_ret_fun pbind_assoc)

definition number_clause :: "string \<Rightarrow> i64 option \<Rightarrow> Token list" where
  "number_clause k n = (case n of None \<Rightarrow> [] | Some n \<Rightarrow> [kw k, num n])"

lemma number_clause_run:
  assumes "\<not> check (Kw k) r" "case n of None \<Rightarrow> True | Some n \<Rightarrow> in_i64 n"
  shows "pbind (optional (Kw k) parse_integer_literal) f (number_clause k n @ r) = f n r"
  using assms
  by (cases n) (simp_all add: number_clause_def optional_run kw_def pbind_literal)

lemma stops_number_clause: "no_token S r \<Longrightarrow> Kw k \<notin> S \<Longrightarrow> no_token S (number_clause k n @ r)"
  by (cases n) (simp_all add: number_clause_def kw_def)

definition group_clause :: "(string \<times> string) list \<Rightarrow> Token list" where
  "group_clause g = (if g = [] then [] else kw ''GROUP'' # kw ''BY'' # commas (map (\<lambda>(a, c). name_toks a c) g))"

definition order_clause :: "((string \<times> string) \<times> bool) list \<Rightarrow> Token list" where
  "order_clause os = (if os = [] then [] else kw ''ORDER'' # kw ''BY'' # commas (map order_toks os))"

lemma tail_toks_alt:
  "tail_toks q = group_clause (q_group q) @ order_clause (q_order q) @ number_clause ''LIMIT'' (q_limit q) @
     number_clause ''OFFSET'' (q_offset q)"
  by (simp add: tail_toks_def group_clause_def order_clause_def number_clause_def)

lemma stops_list_clauses:
  "no_token S r \<Longrightarrow> Kw ''GROUP'' \<notin> S \<Longrightarrow> no_token S (group_clause g @ r)"
  "no_token S r \<Longrightarrow> Kw ''ORDER'' \<notin> S \<Longrightarrow> no_token S (order_clause os @ r)"
  by (simp_all add: group_clause_def order_clause_def kw_def)

lemma alike_list_items:
  "alike k group_by_item group_by_item" "alike k order_by_item order_by_item"
  unfolding group_by_item_def order_by_item_def parse_direction_def by (intro alike_rules)+

lemma group_clause_run:
  assumes r: "no_token {COMMA, DOT, Kw ''GROUP''} r"
  shows "pbind (optional (Kw ''GROUP'') (pseq (expect (Kw ''BY'') ''BY'') parse_group_by)) f (group_clause g @ r) =
    f (if g = [] then None
       else Some (map (\<lambda>(a, c). \<lparr>gb_alias = a, gb_column = c, gb_xbar_bucket = 0, gb_date_trunc_bucket = 0\<rparr>) g)) r"
proof (cases "g = []")
  case False
  have "comma_list group_by_item (commas (map (\<lambda>(a, c). name_toks a c) g) @ r) =
      Inr (map (\<lambda>(a, c). \<lparr>gb_alias = a, gb_column = c, gb_xbar_bucket = 0, gb_date_trunc_bucket = 0\<rparr>) g, r)"
  proof (rule comma_list_run [OF alike_list_items(1)])
    fix x :: "string \<times> string" and q assume q: "q = r \<or> check COMMA q"
    have "no_token {DOT} q" using q stops_mono [OF r, of "{DOT}"] by (auto simp: no_token_def check_def)
    moreover have "\<not> check (Kw k) (name_toks a c @ q)" for k a c by (simp add: name_toks_def ident_def)
    ultimately show "group_by_item ((case x of (a, c) \<Rightarrow> name_toks a c) @ q) =
        Inr ((case x of (a, c) \<Rightarrow> \<lparr>gb_alias = a, gb_column = c, gb_xbar_bucket = 0, gb_date_trunc_bucket = 0\<rparr>), q)"
      by (cases x) (simp add: group_by_item_def on_match_run pbind_name ret_run)
  qed (use False r in \<open>simp_all add: stops_check\<close>)
  with False show ?thesis
    by (simp add: group_clause_def optional_run kw_def pbind_seq expect_run parse_group_by_def pbind_run)
qed (use r in \<open>simp add: group_clause_def optional_run stops_check\<close>)

lemma order_clause_run:
  assumes r: "no_token {COMMA, DOT, Kw ''ORDER'', Kw ''ASC'', Kw ''DESC''} r"
  shows "pbind (optional (Kw ''ORDER'') (pseq (expect (Kw ''BY'') ''BY'') parse_order_by)) f (order_clause os @ r) =
    f (if os = [] then None
       else Some (map (\<lambda>((a, c), asc). \<lparr>ob_alias = a, ob_column = c, ob_asc = asc\<rparr>) os)) r"
proof (cases "os = []")
  case False
  have "comma_list order_by_item (commas (map order_toks os) @ r) =
      Inr (map (\<lambda>((a, c), asc). \<lparr>ob_alias = a, ob_column = c, ob_asc = asc\<rparr>) os, r)"
  proof (rule comma_list_run [OF alike_list_items(2)])
    fix x :: "(string \<times> string) \<times> bool" and q assume q: "q = r \<or> check COMMA q"
    obtain a c asc where x: "x = ((a, c), asc)" by (metis prod.exhaust)
    have st: "no_token {DOT, Kw ''ASC'', Kw ''DESC''} q"
      using q stops_mono [OF r, of "{DOT, Kw ''ASC'', Kw ''DESC''}"] by (auto simp: no_token_def check_def)
    then have "no_token {DOT} ((if asc then [] else [kw ''DESC'']) @ q)"
      by (auto simp: kw_def intro: stops_mono)
    with st show "order_by_item (order_toks x @ q) =
        Inr ((\<lambda>((a, c), asc). \<lparr>ob_alias = a, ob_column = c, ob_asc = asc\<rparr>) x, q)"
      by (simp add: order_by_item_def order_toks_def x pbind_name)
        (simp add: parse_direction_def pbind_on_match pbind_seq opt_match_run pbind_ret ret_run kw_def stops_check)
  qed (use False r in \<open>simp_all add: stops_check\<close>)
  with False show ?thesis
    by (simp add: order_clause_def optional_run kw_def pbind_seq expect_run parse_order_by_def pbind_run)
qed (use r in \<open>simp add: order_clause_def optional_run stops_check\<close>)

definition where_clause :: "'f Expr option \<Rightarrow> Token list" where
  "where_clause w = (case w of None \<Rightarrow> [] | Some c \<Rightarrow> kw ''WHERE'' # cond_toks 0 c)"

lemma where_clause_run:
  assumes "case w of None \<Rightarrow> True | Some c \<Rightarrow> cond_ok D c" "no_token (insert (Kw ''WHERE'') after_cond) r"
  shows "pbind (optional (Kw ''WHERE'') (parse_expr D)) f (where_clause w @ r) = f (map_option Some w) r"
proof (cases w)
  case None
  with assms(2) show ?thesis by (simp add: where_clause_def optional_run stops_check)
next
  case (Some c)
  have "no_token after_cond r" by (rule stops_mono [OF assms(2)]) auto
  with Some assms(1) have "parse_expr D (cond_toks 0 c @ r) = Inr (Some c, r)" by (simp add: creadsD(5) cond_reads)
  with Some show ?thesis by (simp add: where_clause_def optional_run kw_def pbind_run)
qed

section \<open>Queries from their tokens\<close>

lemma join_toks_ahead: "join_ahead (join_toks j @ r)"
  by (cases "join_type j") (simp_all add: join_ahead_def join_toks_def join_words_def kw_def peek_tok_def)

lemma pbind_join: "\<lbrakk>join_ok j; no_token {DOT, Kw ''AND''} r\<rbrakk> \<Longrightarrow> pbind parse_join f (join_toks j @ r) = f j r"
  by (rule pbind_run) (rule join_run)

definition join_clause :: "JoinClause option \<Rightarrow> Token list" where
  "join_clause j = (case j of None \<Rightarrow> [] | Some j \<Rightarrow> join_toks j)"

lemma join_clause_run:
  assumes "case j of None \<Rightarrow> True | Some j \<Rightarrow> join_ok j" "no_token {DOT, Kw ''AND''} r" "\<not> join_ahead r"
  shows "pbind (branch join_ahead (pbind parse_join (\<lambda>j. ret (Some j))) (ret None)) f (join_clause j @ r) = f j r"
  using assms
  by (cases j)
    (simp_all add: join_clause_def pbind_branch pbind_ret_fun join_toks_ahead pbind_assoc pbind_join)

lemma stops_where_clause: "no_token S r \<Longrightarrow> Kw ''WHERE'' \<notin> S \<Longrightarrow> no_token S (where_clause w @ r)"
  by (cases w) (simp_all add: where_clause_def kw_def)

lemma stops_join_clause:
  assumes "no_token S r" "S \<inter> {Kw ''ASOF'', Kw ''AJ0'', Kw ''JOIN'', Kw ''LEFT'', Kw ''RIGHT'', Kw ''FULL'', Kw ''PLUS_JOIN'', Kw ''UNION'', Kw ''WINDOW''} = {}"
  shows "no_token S (join_clause j @ r)"
proof (cases j)
  case (Some i)
  then show ?thesis
    using assms(2) by (cases "join_type i") (auto simp: join_clause_def join_toks_def join_words_def kw_def)
qed (use assms in \<open>simp add: join_clause_def\<close>)

lemma no_join_ahead:
  assumes "\<not> join_ahead r"
  shows "\<not> join_ahead (number_clause ''LIMIT'' n @ r)" "\<not> join_ahead (number_clause ''OFFSET'' n @ r)"
    "\<not> join_ahead (group_clause g @ r)" "\<not> join_ahead (order_clause os @ r)" "\<not> join_ahead (where_clause w @ r)"
  using assms
  by (auto simp: join_ahead_def number_clause_def group_clause_def order_clause_def where_clause_def kw_def
      split: option.splits)

lemma kw_run: "pbind (expect (Kw k) m) f (kw k # r) = f k r"
  by (simp add: kw_def expect_run)

lemma query_run:
  assumes q: "query_ok D q" and r: "ends_query r"
  shows "parse_select D (query_toks q @ r) = Inr (query_tree D q, r)"
proof -
  let ?off = "number_clause ''OFFSET'' (q_offset q) @ r"
  let ?lim = "number_clause ''LIMIT'' (q_limit q) @ ?off"
  let ?ord = "order_clause (q_order q) @ ?lim"
  let ?grp = "group_clause (q_group q) @ ?ord"
  let ?whr = "where_clause (q_where q) @ ?grp"
  let ?jn = "join_clause (q_join q) @ ?whr"
  have st: "no_token S r" if "S \<subseteq> query_words" for S using r that by (auto simp: ends_query_def intro: stops_mono)
  have nj: "\<not> join_ahead r" using r by (simp add: ends_query_def)
  note clauses = stops_number_clause stops_list_clauses stops_where_clause stops_join_clause st query_words_def
  have toks: "query_toks q @ r = kw ''SELECT'' # (if q_distinct q then [kw ''DISTINCT''] else []) @
      column_toks (q_items q) @ kw ''FROM'' # ident (q_table q) # as_toks (q_alias q) @ ?jn"
    by (simp add: query_toks_def tail_toks_alt where_clause_def join_clause_def)
  have dist: "pbind (on_match (Kw ''DISTINCT'') (ret True) (ret False)) f
      ((if d then [kw ''DISTINCT''] else []) @ column_toks its @ z) = f d (column_toks its @ z)" for f :: "bool \<Rightarrow> 'a SelectStmt parser" and d z and its :: "'a item list"
    by (simp add: pbind_on_match pbind_ret kw_def column_head(2))
  have cols: "pbind (parse_columns D (parse_expr D)) f (column_toks (q_items q) @ kw ''FROM'' # z) =
      f (if q_items q = [] then [SelectExpr ((SelectItem_default D)\<lparr>is_star := True\<rparr>) None]
         else map (item_tree D) (q_items q)) (kw ''FROM'' # z)" for f :: "_ \<Rightarrow> 'a SelectStmt parser" and z
    by (rule pbind_run, rule columns_run) (use q in \<open>simp add: query_ok_def\<close>)
  have from_: "pbind (parse_from sel) f (ident (q_table q) # as_toks (q_alias q) @ ?jn) =
      f (q_table q, q_alias q, None) ?jn" for f :: "_ \<Rightarrow> 'a SelectStmt parser" and sel
    by (rule from_run) (use q in \<open>auto simp: query_ok_def query_words_def intro!: clauses\<close>)
  have sample: "pbind (parse_sample D) f ?jn = f None ?jn" for f :: "_ \<Rightarrow> 'a SelectStmt parser"
  proof -
    have "no_token {Kw ''SAMPLE''} ?jn" by (auto simp: query_words_def intro!: clauses)
    then show ?thesis by (simp add: parse_sample_def pbind_on_match pbind_ret stops_check)
  qed
  have jn: "pbind (branch join_ahead (pbind parse_join (\<lambda>j. ret (Some j))) (ret None)) f ?jn = f (q_join q) ?whr"
    for f :: "_ \<Rightarrow> 'a SelectStmt parser"
    by (rule join_clause_run)
      (use q nj in \<open>auto simp: query_ok_def query_words_def no_join_ahead intro!: clauses\<close>)
  have whr: "pbind (optional (Kw ''WHERE'') (parse_expr D)) f ?whr = f (map_option Some (q_where q)) ?grp"
    for f :: "_ \<Rightarrow> 'a SelectStmt parser"
    by (rule where_clause_run) (use q in \<open>auto simp: query_ok_def query_words_def intro!: clauses\<close>)
  have grp: "pbind (optional (Kw ''GROUP'') (pseq (expect (Kw ''BY'') ''BY'') parse_group_by)) f ?grp =
      f (if q_group q = [] then None
         else Some (map (\<lambda>(a, c). \<lparr>gb_alias = a, gb_column = c, gb_xbar_bucket = 0, gb_date_trunc_bucket = 0\<rparr>) (q_group q))) ?ord"
    for f :: "_ \<Rightarrow> 'a SelectStmt parser"
    by (rule group_clause_run) (auto simp: query_words_def intro!: clauses)
  have hav: "pbind (optional (Kw ''HAVING'') p) f ?ord = f None ?ord" for f :: "_ \<Rightarrow> 'a SelectStmt parser" and p :: "'a Expr option parser"
  proof -
    have "no_token {Kw ''HAVING''} ?ord" by (auto simp: query_words_def intro!: clauses)
    then show ?thesis by (simp add: optional_run stops_check)
  qed
  have ord: "pbind (optional (Kw ''ORDER'') (pseq (expect (Kw ''BY'') ''BY'') parse_order_by)) f ?ord =
      f (if q_order q = [] then None
         else Some (map (\<lambda>((a, c), asc). \<lparr>ob_alias = a, ob_column = c, ob_asc = asc\<rparr>) (q_order q))) ?lim"
    for f :: "_ \<Rightarrow> 'a SelectStmt parser"
    by (rule order_clause_run) (auto simp: query_words_def intro!: clauses)
  have "no_token {Kw ''LIMIT''} ?off" "no_token {Kw ''OFFSET''} r" by (auto simp: query_words_def intro!: clauses)
  then have lim: "pbind (optional (Kw ''LIMIT'') parse_integer_literal) f ?lim = f (q_limit q) ?off"
    and off: "pbind (optional (Kw ''OFFSET'') parse_integer_literal) f ?off = f (q_offset q) r"
    for f :: "_ \<Rightarrow> 'a SelectStmt parser"
    using q by (auto simp: query_ok_def stops_check intro!: number_clause_run)
  show ?thesis
    unfolding toks
    by (subst parse_select_eq)
      (simp only: select_body_def parse_expr_def [symmetric] seq_run kw_run dist cols from_ prod.case sample jn whr grp
        hav ord lim off ret_run query_tree_def)
qed

section \<open>Statements from their tokens\<close>

lemma query_head: "query_toks q @ r = kw ''SELECT'' # tl (query_toks q @ r)"
  by (simp add: query_toks_def)

lemma statement_query:
  "statement D (query_toks q @ r) = pbind (select_statement D) (\<lambda>q. ret (PS_SELECT q)) (query_toks q @ r)"
  by (subst (1 2) query_head)
    (simp add: statement_def branch_run ident_is_def type_is_def kw_def del: query_head)

fun op_toks :: "SetOp \<Rightarrow> Token list" where
  "op_toks SO_UNION_ALL = [kw ''UNION'', kw ''ALL'']"
| "op_toks SO_UNION_DISTINCT = [kw ''UNION'']"
| "op_toks SO_INTERSECT = [kw ''INTERSECT'']"
| "op_toks SO_EXCEPT = [kw ''EXCEPT'']"
| "op_toks SO_NONE = []"

definition chain_toks :: "(SetOp \<times> 'f query) list \<Rightarrow> Token list" where
  "chain_toks ops = concat (map (\<lambda>(op, q). op_toks op @ query_toks q) ops)"

lemma ends_chain:
  assumes "ends_query r" "list_all (\<lambda>(op, q). op \<noteq> SO_NONE) ops"
  shows "ends_query (chain_toks ops @ r)"
proof (cases ops)
  case (Cons x xs)
  obtain op q where x: "x = (op, q)" by (cases x)
  with Cons assms(2) have "op \<noteq> SO_NONE" by simp
  then show ?thesis
    by (cases op)
      (simp_all add: Cons x chain_toks_def ends_query_def query_words_def join_ahead_def kw_def peek_tok_def query_toks_def)
qed (use assms in \<open>simp add: chain_toks_def\<close>)

lemma set_operation_run:
  assumes "query_ok D q" "op \<noteq> SO_NONE" "ends_query r"
  shows "set_op_ahead (op_toks op @ query_toks q @ r) \<and>
    set_operation D s (op_toks op @ query_toks q @ r) = Inr (s\<lparr>set_op := op, rhs := Some (query_tree D q)\<rparr>, r)"
proof -
  have "pbind (parse_select D) f (query_toks q @ r) = f (query_tree D q) r" for f :: "_ \<Rightarrow> 'a SelectQuery parser"
    by (rule pbind_run) (rule query_run [OF assms(1,3)])
  moreover have "\<not> check (Kw ''ALL'') (query_toks q @ r)" by (subst query_head) (simp add: kw_def)
  ultimately show ?thesis
    using assms(2)
    by (cases op) (simp_all add: set_op_ahead_def set_operation_def kw_def pbind_on_match pbind_seq pbind_advance pbind_ret ret_run)
qed

lemma set_loop_run:
  assumes "list_all (\<lambda>(op, q). op \<noteq> SO_NONE \<and> query_ok D q) ops" "ends_query r" "\<not> set_op_ahead r"
  shows "while_do (\<lambda>_. set_op_ahead) (set_operation D) s (chain_toks ops @ r) =
    Inr (if ops = [] then s else s\<lparr>set_op := fst (last ops), rhs := Some (query_tree D (snd (last ops)))\<rparr>, r)"
  using assms(1)
proof (induction ops arbitrary: s)
  case Nil
  show ?case by (simp add: chain_toks_def while_do_stop assms(3))
next
  case (Cons x xs)
  obtain op q where x: "x = (op, q)" by (cases x)
  have ends: "ends_query (chain_toks xs @ r)"
    by (rule ends_chain [OF assms(2)]) (use Cons.prems in \<open>auto simp: list_all_iff\<close>)
  have op: "query_ok D q" "op \<noteq> SO_NONE" using Cons.prems x by auto
  let ?ts = "op_toks op @ query_toks q @ chain_toks xs @ r"
  have "while_do (\<lambda>_. set_op_ahead) (set_operation D) s ?ts =
      while_do (\<lambda>_. set_op_ahead) (set_operation D) (s\<lparr>set_op := op, rhs := Some (query_tree D q)\<rparr>) (chain_toks xs @ r)"
  proof (rule while_do_step)
    show "set_op_ahead ?ts" "set_operation D s ?ts = Inr (s\<lparr>set_op := op, rhs := Some (query_tree D q)\<rparr>, chain_toks xs @ r)"
      using set_operation_run [OF op ends] by blast+
  qed (rule set_operation_step)
  with Cons x show ?case by (simp add: chain_toks_def)
qed

lemma select_statement_run:
  assumes "query_ok D q" "list_all (\<lambda>(op, q). op \<noteq> SO_NONE \<and> query_ok D q) ops" "ends_query r" "\<not> set_op_ahead r"
  shows "select_statement D (query_toks q @ chain_toks ops @ r) =
    Inr (\<lparr>cte_defs = [], explain = False, select = query_tree D q,
          set_op = (if ops = [] then SO_NONE else fst (last ops)),
          rhs = (if ops = [] then None else Some (query_tree D (snd (last ops))))\<rparr>, r)"
proof -
  have ends: "ends_query (chain_toks ops @ r)"
    by (rule ends_chain [OF assms(3)]) (use assms(2) in \<open>auto simp: list_all_iff\<close>)
  have "\<not> check (Kw ''EXPLAIN'') (query_toks q @ z)" "\<not> check (Kw ''WITH'') (query_toks q @ z)" for z
    by (subst query_head, simp add: kw_def)+
  moreover have "pbind (parse_select D) f (query_toks q @ chain_toks ops @ r) = f (query_tree D q) (chain_toks ops @ r)"
    for f :: "_ \<Rightarrow> 'a SelectQuery parser"
    by (rule pbind_run) (rule query_run [OF assms(1) ends])
  moreover note set_loop_run [OF assms(2-4)]
  ultimately show ?thesis by (simp add: select_statement_def pbind_on_match pbind_branch pbind_ret)
qed

lemma ends_end: "ends_query [tok END []]" "\<not> set_op_ahead [tok END []]"
  by (simp_all add: ends_query_def query_words_def join_ahead_def set_op_ahead_def)

lemma parse_sql_chain:
  assumes "query_ok D q" "list_all (\<lambda>(op, q). op \<noteq> SO_NONE \<and> query_ok D q) ops"
    and "spellable_all [] (query_toks q @ chain_toks ops)"
  shows "parse_sql D (unparse (query_toks q @ chain_toks ops)) =
    Inr \<lparr>cte_defs = [], explain = False, select = query_tree D q,
         set_op = (if ops = [] then SO_NONE else fst (last ops)),
         rhs = (if ops = [] then None else Some (query_tree D (snd (last ops))))\<rparr>"
proof -
  have "tokenize (unparse (query_toks q @ chain_toks ops)) = Inr (query_toks q @ chain_toks ops @ [tok END []])"
    using tokenize_loop_unparse [OF assms(3)] by (simp add: tokenize_def)
  moreover note select_statement_run [OF assms(1,2) ends_end]
  moreover note statement_query [of D q "chain_toks ops @ [tok END []]"]
  ultimately show ?thesis by (simp add: parse_sql_def parse_statement_def pbind_run ret_run)
qed

section \<open>Properties\<close>

text \<open>
  Operations on \<^verbatim>\<open>double\<close> for the witnesses: integers, with a conversion that keeps the digits before the point.
\<close>

definition demo_ops :: "int lit_ops" where
  "demo_ops = \<lparr>fp_of_int = id, fp_to_int = id, fp_add = (+), fp_sub = (-), fp_mul = (*), fp_div = (div),
     stod = stoll, fp_neg = uminus, fp_le = (\<le>), fp_less = (<)\<rparr>"

definition demo_query :: "int query" where
  "demo_query = \<lparr>q_distinct = False,
     q_items = [Value (A_COLUMN ''t'' ''sym'') [],
       Aggregate AGG_SUM (A_BINARY MUL (A_COLUMN [] ''price'') (A_BINARY SUB (A_COLUMN [] ''size'') (A_LITERAL (-1) (-1) False))) ''notional''],
     q_table = ''trades'', q_alias = ''t'',
     q_join = Some \<lparr>join_type = J_ASOF, join_table = ''quotes'', join_alias = ''q'',
       on_conditions = [\<lparr>left_alias = ''t'', left_col = ''sym'', join_op = CMP_EQ, right_alias = ''q'', right_col = ''sym''\<rparr>,
                        \<lparr>left_alias = ''t'', left_col = ''ts'', join_op = CMP_GE, right_alias = ''q'', right_col = ''ts''\<rparr>],
       wj_left_time_col = [], wj_right_time_col = [], wj_window_before = 0, wj_window_after = 0\<rparr>,
     q_where = Some (E_AND (Some (E_OR (Some (E_COMPARE (LhsCol [] ''price'') CMP_GT (ValInt (-5))))
                                       (Some (E_IN [] ''venue'' [1, 2, 3]))))
                           (Some (E_NOT (Some (E_LIKE ''t'' ''sym'' False ''A%''))))),
     q_group = [(''t'', ''sym'')], q_order = [(([], ''notional''), False)], q_limit = Some 10, q_offset = None\<rparr>"

text \<open>
  C14. Round trip of queries, from text to tree. Every query of the grammar - value expressions and aggregates with
  aliases, a join with its conditions, a WHERE condition with any nesting of AND, OR and NOT, GROUP BY, ORDER BY,
  LIMIT and OFFSET, with at most one set operation - is parsed from its spelling as exactly the tree it spells.
  Parentheses are spelled only where needed, so the theorem fixes the precedence and the left associativity of the
  operators.
\<close>

theorem query_text_roundtrip:
  assumes "query_ok D q" "case op of None \<Rightarrow> True | Some (so, q2) \<Rightarrow> so \<noteq> SO_NONE \<and> query_ok D q2"
    and "spellable_all [] (query_toks q @ (case op of None \<Rightarrow> [] | Some (so, q2) \<Rightarrow> op_toks so @ query_toks q2))"
  shows "parse_sql D (unparse (query_toks q @ (case op of None \<Rightarrow> [] | Some (so, q2) \<Rightarrow> op_toks so @ query_toks q2))) =
    Inr \<lparr>cte_defs = [], explain = False, select = query_tree D q,
         set_op = (case op of None \<Rightarrow> SO_NONE | Some (so, q2) \<Rightarrow> so),
         rhs = (case op of None \<Rightarrow> None | Some (so, q2) \<Rightarrow> Some (query_tree D q2))\<rparr>"
  using parse_sql_chain [of D q "case op of None \<Rightarrow> [] | Some x \<Rightarrow> [x]"] assms
  by (auto simp: chain_toks_def split: option.splits prod.splits)

theorem query_text_roundtrip_witness:
  "parse_sql demo_ops (unparse (query_toks demo_query @ op_toks SO_UNION_ALL @ query_toks demo_query)) =
    Inr \<lparr>cte_defs = [], explain = False, select = query_tree demo_ops demo_query,
         set_op = SO_UNION_ALL, rhs = Some (query_tree demo_ops demo_query)\<rparr>"
proof -
  have "query_ok demo_ops demo_query" by code_simp
  moreover have "spellable_all [] (query_toks demo_query @ op_toks SO_UNION_ALL @ query_toks demo_query)" by code_simp
  ultimately show ?thesis
    using query_text_roundtrip [of demo_ops demo_query "Some (SO_UNION_ALL, demo_query)"] by simp
qed

definition small_query :: "string \<Rightarrow> int query" where
  "small_query t = \<lparr>q_distinct = False, q_items = [], q_table = t, q_alias = [], q_join = None, q_where = None,
     q_group = [], q_order = [], q_limit = None, q_offset = None\<rparr>"

text \<open>
  C37. Of a chain of set operations only the last one is kept. Whatever operations \<open>ops\<close> stand between a query
  and its last set operation, the parsed statement is the first query with the last operation: the operands in
  between are read and dropped, so \<^verbatim>\<open>A UNION B UNION C\<close> is executed as \<^verbatim>\<open>A UNION C\<close>.
\<close>

theorem set_operations_keep_last:
  assumes "query_ok D q" "list_all (\<lambda>(op, q). op \<noteq> SO_NONE \<and> query_ok D q) (ops @ [(op, q')])"
    and "spellable_all [] (query_toks q @ chain_toks (ops @ [(op, q')]))"
  shows "parse_sql D (unparse (query_toks q @ chain_toks (ops @ [(op, q')]))) =
    Inr \<lparr>cte_defs = [], explain = False, select = query_tree D q, set_op = op, rhs = Some (query_tree D q')\<rparr>"
  using parse_sql_chain [OF assms] by simp

theorem set_operations_keep_last_witness:
  "parse_sql demo_ops (unparse (query_toks (small_query ''a'') @
      chain_toks ([(SO_UNION_ALL, small_query ''b'')] @ [(SO_EXCEPT, small_query ''c'')]))) =
    Inr \<lparr>cte_defs = [], explain = False, select = query_tree demo_ops (small_query ''a''), set_op = SO_EXCEPT,
         rhs = Some (query_tree demo_ops (small_query ''c''))\<rparr>"
proof (rule set_operations_keep_last)
  show "query_ok demo_ops (small_query ''a'')" by code_simp
  show "list_all (\<lambda>(op, q). op \<noteq> SO_NONE \<and> query_ok demo_ops q)
      ([(SO_UNION_ALL, small_query ''b'')] @ [(SO_EXCEPT, small_query ''c'')])" by code_simp
  show "spellable_all [] (query_toks (small_query ''a'') @
      chain_toks ([(SO_UNION_ALL, small_query ''b'')] @ [(SO_EXCEPT, small_query ''c'')]))" by code_simp
qed

definition delete_toks :: "string \<Rightarrow> 'f Expr option \<Rightarrow> Token list" where
  "delete_toks tbl w = tok (Kw ''DELETE_KW'') ''DELETE'' # kw ''FROM'' # ident tbl # where_clause w"

lemma delete_run:
  assumes w: "case w of None \<Rightarrow> True | Some c \<Rightarrow> cond_ok D c" and r: "no_token (insert (Kw ''WHERE'') after_cond) r"
  shows "statement D (delete_toks tbl w @ r) =
    Inr (PS_DELETE \<lparr>del_table_name = tbl, del_where = map_option Some w\<rparr>, r)"
proof -
  have "pbind (optional (Kw ''WHERE'') (parse_where D)) f (where_clause w @ r) = f (map_option Some w) r"
    for f :: "_ \<Rightarrow> 'a DeleteStmt parser"
    using where_clause_run [OF w r] by (simp add: parse_where_def)
  then have "parse_delete D (delete_toks tbl w @ r) = Inr (\<lparr>del_table_name = tbl, del_where = map_option Some w\<rparr>, r)"
    by (simp add: parse_delete_def delete_toks_def seq_run expect_run kw_run ident_def ret_run)
  then show ?thesis
    by (simp add: statement_def branch_run ident_is_def type_is_def pbind_run ret_run) (simp add: delete_toks_def)
qed

text \<open>
  C36. A \<^verbatim>\<open>DELETE\<close> is parsed from its spelling as the statement it spells, and whatever tokens follow it are ignored as
  long as they do not continue it: the parser never checks that the whole text was read. In particular a
  statement whose WHERE is misspelled deletes every row of the table.
\<close>

theorem delete_ignores_rest:
  assumes "case w of None \<Rightarrow> True | Some c \<Rightarrow> cond_ok D c"
    and "spellable_all [] (delete_toks tbl w @ extra)"
    and "no_token (insert (Kw ''WHERE'') after_cond) (extra @ [tok END []])"
  shows "parse_statement D (unparse (delete_toks tbl w @ extra)) =
    Inr (PS_DELETE \<lparr>del_table_name = tbl, del_where = map_option Some w\<rparr>)"
proof -
  have "tokenize (unparse (delete_toks tbl w @ extra)) = Inr (delete_toks tbl w @ extra @ [tok END []])"
    using tokenize_loop_unparse [OF assms(2)] by (simp add: tokenize_def)
  with delete_run [OF assms(1,3), of tbl] show ?thesis by (simp add: parse_statement_def)
qed

theorem delete_ignores_rest_witness:
  "parse_statement demo_ops (unparse (delete_toks ''trades'' (None :: int Expr option) @ [ident ''whre'', ident ''price'', tok LT ''<'', num 5])) =
    Inr (PS_DELETE \<lparr>del_table_name = ''trades'', del_where = None\<rparr>)"
proof -
  have "spellable_all [] (delete_toks ''trades'' (None :: int Expr option) @ [ident ''whre'', ident ''price'', tok LT ''<'', num 5])"
    by code_simp
  then show ?thesis
    using delete_ignores_rest [where w = None and D = demo_ops and tbl = "''trades''" and
        extra = "[ident ''whre'', ident ''price'', tok LT ''<'', num 5]"]
    by (simp add: ident_def)
qed

section \<open>Further readings\<close>

text \<open>A comparison of a column with another column is read as a comparison with 0.\<close>

lemma column_comparison_reads_zero:
  "parse_primary_expr D (name_toks a c @ cmp_tok op # ident d # r) = Inr (Some (E_COMPARE (LhsCol a c) op (ValInt 0)), r)"
proof -
  have "compare_value D a c op sel (ident d # r) = Inr (Some (E_COMPARE (LhsCol a c) op (ValInt 0)), r)" for sel
    by (simp add: compare_value_def branch_run pbind_branch time_value_ahead_def ident_def pbind_seq pbind_advance
        pbind_ret ret_run)
  moreover have "no_token {LPAREN, DOT} (cmp_tok op # ident d # r)" by (rule stops_cmp) simp
  note primary_column [OF this, of D a c]
  ultimately show ?thesis
    by (simp add: on_match_run branch_run cmp_not compare_run del: check_Cons)
qed

text \<open>The keyword DESC never reaches the branch for it: the dispatch asks for a name.\<close>

lemma desc_is_no_describe:
  "statement D (kw ''DESC'' # r) = Inl (RuntimeError (''Parser: expected SELECT but got '' @ quoted ''DESC''))"
proof -
  have "parse_select D (kw ''DESC'' # r) = Inl (RuntimeError (''Parser: expected SELECT but got '' @ quoted ''DESC''))"
    by (subst parse_select_eq) (simp add: select_body_def pseq_def pbind_def expect_def branch_def err_got_def kw_def)
  then show ?thesis
    by (simp add: statement_def branch_run ident_is_def type_is_def kw_def select_statement_def pbind_on_match
        pbind_branch pbind_ret pbind_assoc)
      (simp add: pbind_def)
qed

end
