(* ===== verification/Health_Monitor.thy ===== *)
theory Health_Monitor
  imports Std_Map
begin

text \<open>
  Failure detection, \<^verbatim>\<open>src/include/zeptodb/cluster/health_monitor.h\<close>: the states of the nodes, the heartbeats
  that advance them and the periodic check that suspects and buries silent nodes.

  The clock (in nanoseconds), the outcome of a TCP probe and the rejoin callback are arguments of the operations;
  the calls of the state callbacks are collected in \<open>events\<close>. Sockets and threads are not modelled: what they do to
  the state is to call the operations below. A missing entry of the miss counter reads as 0, as \<^verbatim>\<open>operator[]\<close>
  creates it.
\<close>

section \<open>State\<close>

datatype NodeState = UNKNOWN | JOINING | ACTIVE | SUSPECT | DEAD | LEAVING | REJOINING

record HealthConfig =
  heartbeat_interval_ms :: u32
  suspect_timeout_ms :: u32
  dead_timeout_ms :: u32
  consecutive_misses_for_suspect :: u32
  enable_dead_rejoin :: bool

definition health_defaults :: HealthConfig where
  "health_defaults = \<lparr>heartbeat_interval_ms = 1000, suspect_timeout_ms = 3000, dead_timeout_ms = 10000,
     consecutive_misses_for_suspect = 3, enable_dead_rejoin = True\<rparr>"

text \<open>A node address is its host text; the port of the probe is configured.\<close>

record HealthMonitor =
  config :: HealthConfig
  self_node :: NodeId
  node_states :: "(NodeId, NodeState) umap"
  last_heartbeat :: "(NodeId, int) umap"
  node_addresses :: "(NodeId, string) umap"
  consecutive_misses :: "(NodeId, u32) umap"
  events :: "(NodeId \<times> NodeState \<times> NodeState) list"

definition add_node_locked :: "int \<Rightarrow> NodeId \<times> string \<Rightarrow> HealthMonitor \<Rightarrow> HealthMonitor" where
  "add_node_locked now peer h =
     (let (node, host) = peer; h = h\<lparr>node_addresses := umap_put node host (node_addresses h)\<rparr>
      in if map_of (node_states h) node = None
         then h\<lparr>node_states := umap_put node JOINING (node_states h),
                last_heartbeat := umap_put node now (last_heartbeat h),
                consecutive_misses := umap_put node 0 (consecutive_misses h)\<rparr>
         else h)"

definition health_new :: "HealthConfig \<Rightarrow> HealthMonitor" where
  "health_new cfg = \<lparr>config = cfg, self_node = 0, node_states = [], last_heartbeat = [], node_addresses = [],
     consecutive_misses = [], events = []\<rparr>"

text \<open>The part of \<^verbatim>\<open>start\<close> that fills the state of a monitor that is not running.\<close>

definition health_start :: "int \<Rightarrow> NodeId \<Rightarrow> (NodeId \<times> string) list \<Rightarrow> HealthMonitor \<Rightarrow> HealthMonitor" where
  "health_start now self peers h =
     (let h = fold (add_node_locked now) peers (h\<lparr>self_node := self\<rparr>)
      in h\<lparr>node_states := umap_put self ACTIVE (node_states h),
           last_heartbeat := umap_put self now (last_heartbeat h),
           consecutive_misses := umap_put self 0 (consecutive_misses h)\<rparr>)"

definition get_state :: "NodeId \<Rightarrow> HealthMonitor \<Rightarrow> NodeState" where
  "get_state node h = (case map_of (node_states h) node of Some s \<Rightarrow> s | None \<Rightarrow> UNKNOWN)"

definition get_active_nodes :: "HealthMonitor \<Rightarrow> NodeId list" where
  "get_active_nodes h = map fst (filter (\<lambda>(n, s). s = ACTIVE) (node_states h))"

definition get_all_nodes :: "HealthMonitor \<Rightarrow> NodeId list" where
  "get_all_nodes h = map fst (node_states h)"

definition get_consecutive_misses :: "NodeId \<Rightarrow> HealthMonitor \<Rightarrow> u32" where
  "get_consecutive_misses node h = (case map_of (consecutive_misses h) node of Some m \<Rightarrow> m | None \<Rightarrow> 0)"

section \<open>Transitions\<close>

definition transition_state :: "NodeId \<Rightarrow> NodeState \<Rightarrow> HealthMonitor \<Rightarrow> HealthMonitor" where
  "transition_state node new_state h =
     (case map_of (node_states h) node of
        None \<Rightarrow> h
      | Some old_state \<Rightarrow>
          if old_state = new_state then h
          else h\<lparr>node_states := umap_put node new_state (node_states h),
                 consecutive_misses := (if new_state = ACTIVE then umap_put node 0 (consecutive_misses h)
                                        else consecutive_misses h),
                 events := events h @ [(node, old_state, new_state)]\<rparr>)"

definition mark_leaving :: "NodeId \<Rightarrow> HealthMonitor \<Rightarrow> HealthMonitor" where
  "mark_leaving node h = transition_state node LEAVING h"

text \<open>\<open>rejoin\<close> is the registered callback, if there is one.\<close>

definition handle_dead_rejoin :: "(NodeId \<Rightarrow> bool) option \<Rightarrow> NodeId \<Rightarrow> HealthMonitor \<Rightarrow> HealthMonitor" where
  "handle_dead_rejoin rejoin node h =
     (let h = transition_state node REJOINING h;
          sync_ok = (case rejoin of None \<Rightarrow> True | Some f \<Rightarrow> f node)
      in if sync_ok then transition_state node ACTIVE h else h)"

definition inject_heartbeat :: "int \<Rightarrow> (NodeId \<Rightarrow> bool) option \<Rightarrow> NodeId \<Rightarrow> HealthMonitor \<Rightarrow> HealthMonitor" where
  "inject_heartbeat now rejoin node h =
     (let h = h\<lparr>last_heartbeat := umap_put node now (last_heartbeat h),
                consecutive_misses := umap_put node 0 (consecutive_misses h)\<rparr>
      in case map_of (node_states h) node of
           Some cur \<Rightarrow>
             if cur = SUSPECT then transition_state node ACTIVE h
             else if cur = DEAD then (if enable_dead_rejoin (config h) then handle_dead_rejoin rejoin node h else h)
             else if cur = REJOINING then h
             else if cur = JOINING \<or> cur = UNKNOWN then transition_state node ACTIVE h
             else h
         | None \<Rightarrow> h\<lparr>node_states := umap_put node ACTIVE (node_states h),
                     consecutive_misses := umap_put node 0 (consecutive_misses h)\<rparr>)"

section \<open>The periodic check\<close>

definition check_interval :: "HealthConfig \<Rightarrow> u32" where
  "check_interval c =
     (let i = min (heartbeat_interval_ms c)
                (if consecutive_misses_for_suspect c > 0
                 then suspect_timeout_ms c div consecutive_misses_for_suspect c
                 else heartbeat_interval_ms c)
      in if i = 0 then 1 else i)"

text \<open>The age of a heartbeat in milliseconds, truncated.\<close>

definition age_ms :: "int \<Rightarrow> int \<Rightarrow> int" where
  "age_ms now hb = cdiv (now - hb) 1000000"

definition exempt :: "NodeId \<Rightarrow> NodeState \<Rightarrow> HealthMonitor \<Rightarrow> bool" where
  "exempt node state h \<longleftrightarrow> node = self_node h \<or> state = DEAD \<or> state = LEAVING \<or> state = REJOINING"

definition count_miss :: "int \<Rightarrow> NodeId \<times> NodeState \<Rightarrow> HealthMonitor \<Rightarrow> HealthMonitor" where
  "count_miss now = (\<lambda>(node, state) h.
     if exempt node state h then h
     else case map_of (last_heartbeat h) node of
       None \<Rightarrow> h
     | Some hb \<Rightarrow>
         let age = age_ms now hb; ci = check_interval (config h)
         in if age \<ge> uint ci
            then let expected = word_of_int (age div uint ci)
                 in if get_consecutive_misses node h < expected
                    then h\<lparr>consecutive_misses := umap_put node expected (consecutive_misses h)\<rparr> else h
            else h)"

text \<open>What the check decides for one node: a change of state, a probe, or nothing.\<close>

datatype verdict = Keep | Change NodeState | Probe string

definition judge :: "int \<Rightarrow> HealthMonitor \<Rightarrow> NodeId \<Rightarrow> NodeState \<Rightarrow> verdict" where
  "judge now h node state =
     (if exempt node state h then Keep
      else case map_of (last_heartbeat h) node of
        None \<Rightarrow> Keep
      | Some hb \<Rightarrow>
          let age = age_ms now hb
          in if state = ACTIVE \<or> state = JOINING then
               (if age \<ge> uint (suspect_timeout_ms (config h)) \<and>
                   get_consecutive_misses node h \<ge> consecutive_misses_for_suspect (config h)
                then Change SUSPECT else Keep)
             else if state = SUSPECT then
               (if age \<ge> uint (dead_timeout_ms (config h))
                then (case map_of (node_addresses h) node of Some a \<Rightarrow> Probe a | None \<Rightarrow> Change DEAD)
                else Keep)
             else Keep)"

text \<open>
  The check under the lock: the counted misses, the changes and the nodes to probe. Then, without the lock, the
  probes and the changes, in the order of the code.
\<close>

definition check_collect ::
  "int \<Rightarrow> HealthMonitor \<Rightarrow> (NodeId \<times> NodeState) list \<times> (NodeId \<times> string) list \<times> HealthMonitor" where
  "check_collect now h =
     (let h = fold (count_miss now) (node_states h) h
      in (List.map_filter (\<lambda>(n, s). case judge now h n s of Change t \<Rightarrow> Some (n, t) | _ \<Rightarrow> None) (node_states h),
          List.map_filter (\<lambda>(n, s). case judge now h n s of Probe a \<Rightarrow> Some (n, a) | _ \<Rightarrow> None) (node_states h),
          h))"

definition check_apply ::
  "(string \<Rightarrow> bool) \<Rightarrow> (NodeId \<times> NodeState) list \<Rightarrow> (NodeId \<times> string) list \<Rightarrow> HealthMonitor \<Rightarrow> HealthMonitor" where
  "check_apply tcp_probe changes targets h =
     (let changes = changes @ map (\<lambda>(n, a). (n, DEAD)) (filter (\<lambda>(n, a). \<not> tcp_probe a) targets)
      in fold (\<lambda>(n, t). transition_state n t) changes h)"

definition check_timeouts :: "int \<Rightarrow> (string \<Rightarrow> bool) \<Rightarrow> HealthMonitor \<Rightarrow> HealthMonitor" where
  "check_timeouts now tcp_probe h =
     (let (changes, targets, h) = check_collect now h in check_apply tcp_probe changes targets h)"

section \<open>Runs\<close>

text \<open>The operations that change a running monitor, each with what it reads from outside.\<close>

datatype health_op =
    Heartbeat int "(NodeId \<Rightarrow> bool) option" NodeId
  | Check int "string \<Rightarrow> bool"
  | Leave NodeId
  | AddPeer int "NodeId \<times> string"

fun health_step :: "health_op \<Rightarrow> HealthMonitor \<Rightarrow> HealthMonitor" where
  "health_step (Heartbeat now rejoin node) h = inject_heartbeat now rejoin node h"
| "health_step (Check now probe) h = check_timeouts now probe h"
| "health_step (Leave node) h = mark_leaving node h"
| "health_step (AddPeer now peer) h = add_node_locked now peer h"

definition health_run :: "health_op list \<Rightarrow> HealthMonitor \<Rightarrow> HealthMonitor" where
  "health_run ops h = fold health_step ops h"

text \<open>The documented transitions, and the suspicion of a node that never got past joining.\<close>

fun allowed :: "NodeState \<Rightarrow> NodeState \<Rightarrow> bool" where
  "allowed JOINING ACTIVE = True"
| "allowed JOINING SUSPECT = True"
| "allowed ACTIVE SUSPECT = True"
| "allowed SUSPECT ACTIVE = True"
| "allowed SUSPECT DEAD = True"
| "allowed DEAD REJOINING = True"
| "allowed REJOINING ACTIVE = True"
| "allowed _ LEAVING = True"
| "allowed _ _ = False"

definition health_ok :: "HealthMonitor \<Rightarrow> bool" where
  "health_ok h \<longleftrightarrow>
     umap_ok (node_states h) \<and>
     (\<forall>n s. map_of (node_states h) n = Some s \<longrightarrow> s \<noteq> UNKNOWN \<and> map_of (last_heartbeat h) n \<noteq> None) \<and>
     get_state (self_node h) h \<in> {ACTIVE, LEAVING} \<and>
     (\<forall>(n, s, t) \<in> set (events h). allowed s t \<and> (n = self_node h \<longrightarrow> t = LEAVING))"

section \<open>What one check does\<close>

lemma in_map_filter: "y \<in> set (List.map_filter f xs) \<longleftrightarrow> (\<exists>x \<in> set xs. f x = Some y)"
  by (force simp: List.map_filter_def)

lemma distinct_fst_map_filter:
  "\<lbrakk>distinct (map fst xs); \<And>x y. f x = Some y \<Longrightarrow> fst y = fst x\<rbrakk> \<Longrightarrow> distinct (map fst (List.map_filter f xs))"
  by (induction xs) (auto simp: in_map_filter map_filter_simps rev_image_eqI split: option.splits)

lemma transition_frame [simp]:
  "last_heartbeat (transition_state n t h) = last_heartbeat h"
  "config (transition_state n t h) = config h"
  "self_node (transition_state n t h) = self_node h"
  "node_addresses (transition_state n t h) = node_addresses h"
  by (simp_all add: transition_state_def split: option.splits)

lemma transition_states:
  "map_of (node_states (transition_state n t h)) =
     (if map_of (node_states h) n = None then map_of (node_states h) else (map_of (node_states h))(n \<mapsto> t))"
  by (auto simp: transition_state_def split: option.splits)

lemma transition_ok [simp]: "umap_ok (node_states h) \<Longrightarrow> umap_ok (node_states (transition_state n t h))"
  by (simp add: transition_state_def split: option.splits)

abbreviation transitions :: "(NodeId \<times> NodeState) list \<Rightarrow> HealthMonitor \<Rightarrow> HealthMonitor" where
  "transitions \<equiv> fold (\<lambda>(n, t). transition_state n t)"

lemma transitions_frame [simp]:
  "last_heartbeat (transitions cs h) = last_heartbeat h"
  "config (transitions cs h) = config h"
  "self_node (transitions cs h) = self_node h"
  "node_addresses (transitions cs h) = node_addresses h"
  "umap_ok (node_states h) \<Longrightarrow> umap_ok (node_states (transitions cs h))"
  by (induction cs arbitrary: h) (simp_all add: case_prod_beta)

lemma transitions_states:
  "distinct (map fst cs) \<Longrightarrow> map_of (node_states (transitions cs h)) n =
     map_option (\<lambda>s. case map_of cs n of None \<Rightarrow> s | Some t \<Rightarrow> t) (map_of (node_states h) n)"
proof (induction cs arbitrary: h)
  case (Cons c cs)
  then have "map_of cs (fst c) = None" by (simp add: map_of_eq_None_iff)
  with Cons show ?case by (cases "map_of (node_states h) n") (auto simp: case_prod_beta transition_states)
qed (simp add: option.map_ident)

text \<open>Each change raises an event that starts in the state the node had before all of them.\<close>

lemma transitions_events:
  "\<lbrakk>distinct (map fst cs); (n, s, t) \<in> set (events (transitions cs h))\<rbrakk>
     \<Longrightarrow> (n, s, t) \<in> set (events h) \<or> (n, t) \<in> set cs \<and> map_of (node_states h) n = Some s \<and> s \<noteq> t"
proof (induction cs arbitrary: h)
  case (Cons c cs)
  have "(n, s, t) \<in> set (events (transition_state (fst c) (snd c) h)) \<or>
     (n, t) \<in> set cs \<and> map_of (node_states (transition_state (fst c) (snd c) h)) n = Some s \<and> s \<noteq> t"
    using Cons by (simp add: case_prod_beta)
  moreover have "(n, t) \<in> set cs \<Longrightarrow> n \<noteq> fst c" using Cons.prems(1) by (metis distinct.simps(2) fst_conv image_eqI list.set_map list.simps(9))
  ultimately show ?case
    by (cases c) (auto simp: transition_states transition_state_def split: option.splits if_splits)
qed simp

lemma count_miss_frame [simp]:
  "node_states (count_miss now p h) = node_states h"
  "last_heartbeat (count_miss now p h) = last_heartbeat h"
  "config (count_miss now p h) = config h"
  "self_node (count_miss now p h) = self_node h"
  "node_addresses (count_miss now p h) = node_addresses h"
  "events (count_miss now p h) = events h"
  by (simp_all add: count_miss_def Let_def case_prod_beta split: option.splits)

definition counted :: "int \<Rightarrow> HealthMonitor \<Rightarrow> HealthMonitor" where
  "counted now h = fold (count_miss now) (node_states h) h"

lemma count_misses_frame [simp]:
  "node_states (fold (count_miss now) ps h) = node_states h"
  "last_heartbeat (fold (count_miss now) ps h) = last_heartbeat h"
  "config (fold (count_miss now) ps h) = config h"
  "self_node (fold (count_miss now) ps h) = self_node h"
  "node_addresses (fold (count_miss now) ps h) = node_addresses h"
  "events (fold (count_miss now) ps h) = events h"
  by (induction ps arbitrary: h) simp_all

lemma counted_frame [simp]:
  "node_states (counted now h) = node_states h"
  "last_heartbeat (counted now h) = last_heartbeat h"
  "config (counted now h) = config h"
  "self_node (counted now h) = self_node h"
  "node_addresses (counted now h) = node_addresses h"
  "events (counted now h) = events h"
  by (simp_all add: counted_def)

text \<open>All the changes of one check, with the failed probes.\<close>

definition check_changes :: "int \<Rightarrow> (string \<Rightarrow> bool) \<Rightarrow> HealthMonitor \<Rightarrow> (NodeId \<times> NodeState) list" where
  "check_changes now probe h =
     (let (changes, targets, h) = check_collect now h
      in changes @ map (\<lambda>(n, a). (n, DEAD)) (filter (\<lambda>(n, a). \<not> probe a) targets))"

lemma check_timeouts_alt: "check_timeouts now probe h = transitions (check_changes now probe h) (counted now h)"
  by (simp add: check_timeouts_def check_changes_def check_collect_def check_apply_def counted_def Let_def)

lemma in_check_changes:
  "(n, t) \<in> set (check_changes now probe h) \<longleftrightarrow>
     (\<exists>s. (n, s) \<in> set (node_states h) \<and>
        (judge now (counted now h) n s = Change t \<or>
         t = DEAD \<and> (\<exists>a. judge now (counted now h) n s = Probe a \<and> \<not> probe a)))"
  by (force simp: check_changes_def check_collect_def counted_def Let_def in_map_filter image_iff
      split: verdict.splits)

lemma judge_cases:
  "judge now h n s = Change t \<Longrightarrow> n \<noteq> self_node h \<and> allowed s t \<and> (t = SUSPECT \<or> t = DEAD)"
  "judge now h n s = Probe a \<Longrightarrow> n \<noteq> self_node h \<and> s = SUSPECT"
  by (auto simp: judge_def exempt_def Let_def split: option.splits if_splits)

lemma distinct_check_changes:
  assumes "umap_ok (node_states h)"
  shows "distinct (map fst (check_changes now probe h))"
proof -
  define g where "g = counted now h"
  define cs where "cs = List.map_filter (\<lambda>(n, s). case judge now g n s of Change t \<Rightarrow> Some (n, t) | _ \<Rightarrow> None) (node_states h)"
  define ts where "ts = List.map_filter (\<lambda>(n, s). case judge now g n s of Probe a \<Rightarrow> Some (n, a) | _ \<Rightarrow> None) (node_states h)"
  have d: "distinct (map fst (node_states h))" using assms by (simp add: umap_ok_def)
  have "distinct (map fst cs)" "distinct (map fst ts)"
    unfolding cs_def ts_def by (rule distinct_fst_map_filter [OF d]; auto split: verdict.splits)+
  moreover have "fst ` set cs \<inter> fst ` set ts = {}"
    unfolding cs_def ts_def by (fastforce simp: in_map_filter dest: eq_key_imp_eq_value [OF d] split: verdict.splits)
  moreover have "check_changes now probe h = cs @ map (\<lambda>(n, a). (n, DEAD)) (filter (\<lambda>(n, a). \<not> probe a) ts)"
    by (simp add: check_changes_def check_collect_def cs_def ts_def g_def counted_def Let_def)
  ultimately show ?thesis by (auto simp: case_prod_beta comp_def distinct_map_filter)
qed

text \<open>The state a check leaves a node in.\<close>

definition checked :: "int \<Rightarrow> (string \<Rightarrow> bool) \<Rightarrow> HealthMonitor \<Rightarrow> NodeId \<Rightarrow> NodeState \<Rightarrow> NodeState" where
  "checked now probe h n s =
     (case judge now (counted now h) n s of
        Keep \<Rightarrow> s | Change t \<Rightarrow> t | Probe a \<Rightarrow> if probe a then s else DEAD)"

lemma check_states:
  assumes ok: "umap_ok (node_states h)"
  shows "map_of (node_states (check_timeouts now probe h)) n =
    map_option (checked now probe h n) (map_of (node_states h) n)"
proof (cases "map_of (node_states h) n")
  case None
  then show ?thesis
    by (simp add: check_timeouts_alt transitions_states [OF distinct_check_changes [OF ok]])
next
  case (Some s)
  have unique: "(n, r) \<in> set (node_states h) \<longleftrightarrow> r = s" for r
    using Some ok unfolding umap_ok_def by (metis map_of_eq_Some_iff option.inject)
  have "map_of (check_changes now probe h) n = Some t \<longleftrightarrow>
      judge now (counted now h) n s = Change t \<or>
      t = DEAD \<and> (\<exists>a. judge now (counted now h) n s = Probe a \<and> \<not> probe a)" for t
    by (simp add: map_of_eq_Some_iff distinct_check_changes [OF ok] in_check_changes unique)
  then have "(case map_of (check_changes now probe h) n of None \<Rightarrow> s | Some t \<Rightarrow> t) = checked now probe h n s"
    by (cases "judge now (counted now h) n s"; cases "map_of (check_changes now probe h) n")
      (auto simp: checked_def)
  with Some show ?thesis
    by (simp add: check_timeouts_alt transitions_states [OF distinct_check_changes [OF ok]])
qed

lemma check_frame [simp]:
  "last_heartbeat (check_timeouts now probe h) = last_heartbeat h"
  "config (check_timeouts now probe h) = config h"
  "self_node (check_timeouts now probe h) = self_node h"
  "node_addresses (check_timeouts now probe h) = node_addresses h"
  "umap_ok (node_states h) \<Longrightarrow> umap_ok (node_states (check_timeouts now probe h))"
  by (simp_all add: check_timeouts_alt)

lemma check_events:
  assumes ok: "umap_ok (node_states h)" and e: "(n, s, t) \<in> set (events (check_timeouts now probe h))"
  shows "(n, s, t) \<in> set (events h) \<or> allowed s t \<and> n \<noteq> self_node h"
proof -
  have "(n, s, t) \<in> set (events h) \<or> (n, t) \<in> set (check_changes now probe h) \<and> map_of (node_states h) n = Some s"
    using transitions_events [OF distinct_check_changes [OF ok] e [unfolded check_timeouts_alt]] by auto
  moreover have "allowed s t \<and> n \<noteq> self_node h"
    if t: "(n, t) \<in> set (check_changes now probe h)" and s: "map_of (node_states h) n = Some s"
  proof -
    obtain r where "(n, r) \<in> set (node_states h)" and
      r: "judge now (counted now h) n r = Change t \<or>
          t = DEAD \<and> (\<exists>a. judge now (counted now h) n r = Probe a \<and> \<not> probe a)"
      using t unfolding in_check_changes by blast
    with s ok have "r = s" unfolding umap_ok_def by (metis map_of_eq_Some_iff option.inject)
    with r judge_cases [of now "counted now h" n s] show ?thesis by auto
  qed
  ultimately show ?thesis by blast
qed

section \<open>The invariant\<close>

named_theorems health_preserve

lemma allowed_not_unknown: "allowed s t \<Longrightarrow> t \<noteq> UNKNOWN"
  by (cases s) auto

lemma check_health_ok [health_preserve]:
  assumes "health_ok h"
  shows "health_ok (check_timeouts now probe h)"
proof -
  let ?h = "check_timeouts now probe h"
  have ok: "umap_ok (node_states h)" using assms by (simp add: health_ok_def)
  have s: "checked now probe h n s \<noteq> UNKNOWN \<and> (n = self_node h \<longrightarrow> checked now probe h n s = s)"
    if "s \<noteq> UNKNOWN" for n s
    using that judge_cases [of now "counted now h" n s]
    by (auto simp: checked_def split: verdict.splits)
  have "\<forall>n s. map_of (node_states ?h) n = Some s \<longrightarrow> s \<noteq> UNKNOWN \<and> map_of (last_heartbeat ?h) n \<noteq> None"
    using assms s by (auto simp: check_states [OF ok] health_ok_def)
  moreover have "get_state (self_node ?h) ?h \<in> {ACTIVE, LEAVING}"
    using assms s by (auto simp: check_states [OF ok] health_ok_def get_state_def split: option.splits)
  moreover have "\<forall>(n, s, t) \<in> set (events ?h). allowed s t \<and> (n = self_node ?h \<longrightarrow> t = LEAVING)"
    using assms check_events [OF ok] by (fastforce simp: health_ok_def)
  ultimately show ?thesis using ok by (simp add: health_ok_def)
qed

lemma transition_health_ok:
  assumes "health_ok h" "map_of (node_states h) n = Some s" "allowed s t" "n = self_node h \<Longrightarrow> t = LEAVING"
  shows "health_ok (transition_state n t h)"
proof -
  have "\<forall>m r. map_of (node_states (transition_state n t h)) m = Some r \<longrightarrow>
      r \<noteq> UNKNOWN \<and> map_of (last_heartbeat h) m \<noteq> None"
    using assms allowed_not_unknown [OF assms(3)] by (auto simp: transition_states health_ok_def)
  moreover have "get_state (self_node h) (transition_state n t h) \<in> {ACTIVE, LEAVING}"
    using assms by (auto simp: get_state_def transition_states health_ok_def)
  moreover have "\<forall>(m, r, u) \<in> set (events (transition_state n t h)). allowed r u \<and> (m = self_node h \<longrightarrow> u = LEAVING)"
    using assms by (auto simp: transition_state_def health_ok_def)
  ultimately show ?thesis using assms(1) by (simp add: health_ok_def)
qed

lemma allowed_leaving [simp]: "allowed s LEAVING"
  by (cases s) auto

lemma leave_health_ok [health_preserve]:
  assumes "health_ok h"
  shows "health_ok (mark_leaving n h)"
proof (cases "map_of (node_states h) n")
  case None
  with assms show ?thesis by (simp add: mark_leaving_def transition_state_def)
next
  case (Some s)
  with assms show ?thesis unfolding mark_leaving_def by (auto intro: transition_health_ok)
qed

lemma health_self: "health_ok h \<Longrightarrow> map_of (node_states h) (self_node h) \<noteq> None"
  by (auto simp: health_ok_def get_state_def split: option.splits)

text \<open>Entering a node that was not known.\<close>

lemma enter_health_ok:
  assumes "health_ok h" "map_of (node_states h) n = None" "s \<noteq> UNKNOWN"
    and g: "node_states g = umap_put n s (node_states h)" "map_of (last_heartbeat g) n \<noteq> None"
      "\<And>m. m \<noteq> n \<Longrightarrow> map_of (last_heartbeat g) m = map_of (last_heartbeat h) m"
      "self_node g = self_node h" "events g = events h"
  shows "health_ok g"
proof -
  have "n \<noteq> self_node h" using assms(2) health_self [OF assms(1)] by auto
  then have "get_state (self_node g) g \<in> {ACTIVE, LEAVING}"
    using assms(1) g by (simp add: health_ok_def get_state_def)
  moreover have "\<forall>m r. map_of (node_states g) m = Some r \<longrightarrow> r \<noteq> UNKNOWN \<and> map_of (last_heartbeat g) m \<noteq> None"
    using assms(1,3) g(1-3) by (auto simp: health_ok_def)
  ultimately show ?thesis using assms(1) g by (simp add: health_ok_def)
qed

lemma add_health_ok [health_preserve]:
  assumes "health_ok h"
  shows "health_ok (add_node_locked now p h)"
proof (cases "map_of (node_states h) (fst p)")
  case None
  show ?thesis
    by (rule enter_health_ok [OF assms None, of JOINING])
      (use None in \<open>simp_all add: add_node_locked_def Let_def case_prod_beta\<close>)
next
  case (Some s)
  with assms show ?thesis by (simp add: add_node_locked_def Let_def case_prod_beta health_ok_def get_state_def)
qed

lemma heartbeat_health_ok [health_preserve]:
  assumes "health_ok h"
  shows "health_ok (inject_heartbeat now rejoin n h)"
proof -
  define g where "g = h\<lparr>last_heartbeat := umap_put n now (last_heartbeat h),
    consecutive_misses := umap_put n 0 (consecutive_misses h)\<rparr>"
  have g: "health_ok g" "node_states g = node_states h" "self_node g = self_node h" "config g = config h"
    using assms by (auto simp: health_ok_def g_def get_state_def)
  have self: "map_of (node_states h) (self_node h) = Some s \<Longrightarrow> s = ACTIVE \<or> s = LEAVING" for s
    using assms by (auto simp: health_ok_def get_state_def)
  have to_active: "health_ok (transition_state n ACTIVE g)"
    if "map_of (node_states h) n = Some s" "s = SUSPECT \<or> s = JOINING" for s
    using that g self by (auto intro!: transition_health_ok [of g n s])
  have rejoin: "health_ok (handle_dead_rejoin rejoin n g)" if dead: "map_of (node_states h) n = Some DEAD"
  proof -
    have other: "n \<noteq> self_node h" using self dead by auto
    then have one: "health_ok (transition_state n REJOINING g)"
      using dead g by (auto intro!: transition_health_ok [of g n DEAD])
    have "health_ok (transition_state n ACTIVE (transition_state n REJOINING g))"
      by (rule transition_health_ok [of _ n REJOINING])
        (use one dead g other in \<open>auto simp: transition_states\<close>)
    with one show ?thesis by (simp add: handle_dead_rejoin_def Let_def)
  qed
  have absent: "health_ok (g\<lparr>node_states := umap_put n ACTIVE (node_states g),
      consecutive_misses := umap_put n 0 (consecutive_misses g)\<rparr>)" if "map_of (node_states h) n = None"
    by (rule enter_health_ok [OF assms that, of ACTIVE]) (simp_all add: g_def)
  have "map_of (node_states h) n \<noteq> Some UNKNOWN" using assms by (auto simp: health_ok_def)
  then show ?thesis
    unfolding inject_heartbeat_def Let_def g_def [symmetric]
    using to_active rejoin absent g by (auto split: option.splits)
qed

lemma step_health_ok: "health_ok h \<Longrightarrow> health_ok (health_step op h)"
  by (cases op) (simp_all add: health_preserve)

lemma run_health_ok: "health_ok h \<Longrightarrow> health_ok (health_run ops h)"
  unfolding health_run_def by (induction ops arbitrary: h) (simp_all add: step_health_ok)

lemma add_nodes_fresh:
  assumes "umap_ok (node_states h)" "events h = []"
    "\<And>n s. map_of (node_states h) n = Some s \<Longrightarrow> s = JOINING \<and> map_of (last_heartbeat h) n \<noteq> None"
  shows "umap_ok (node_states (fold (add_node_locked now) ps h)) \<and> events (fold (add_node_locked now) ps h) = [] \<and>
    self_node (fold (add_node_locked now) ps h) = self_node h \<and> config (fold (add_node_locked now) ps h) = config h \<and>
    (\<forall>n s. map_of (node_states (fold (add_node_locked now) ps h)) n = Some s \<longrightarrow>
       s = JOINING \<and> map_of (last_heartbeat (fold (add_node_locked now) ps h)) n \<noteq> None)"
  using assms
proof (induction ps arbitrary: h)
  case (Cons p ps)
  let ?h = "add_node_locked now p h"
  have "umap_ok (node_states ?h)" "events ?h = []" "self_node ?h = self_node h" "config ?h = config h"
    using Cons.prems by (auto simp: add_node_locked_def Let_def case_prod_beta)
  moreover have "s = JOINING \<and> map_of (last_heartbeat ?h) n \<noteq> None" if "map_of (node_states ?h) n = Some s" for n s
    using Cons.prems(3) [of n s] that by (auto simp: add_node_locked_def Let_def case_prod_beta split: if_splits)
  ultimately show ?case using Cons.IH [of ?h] by simp
qed simp

abbreviation started :: "HealthConfig \<Rightarrow> int \<Rightarrow> NodeId \<Rightarrow> (NodeId \<times> string) list \<Rightarrow> HealthMonitor" where
  "started cfg now self peers \<equiv> health_start now self peers (health_new cfg)"

lemma start_health_ok:
  "health_ok (started cfg now self peers)"
  "self_node (started cfg now self peers) = self" "config (started cfg now self peers) = cfg"
  using add_nodes_fresh [of "health_new cfg\<lparr>self_node := self\<rparr>" now peers]
  by (auto simp: health_start_def Let_def health_new_def health_ok_def get_state_def)

lemma heartbeat_frame [simp]:
  "config (inject_heartbeat now rejoin n h) = config h"
  "self_node (inject_heartbeat now rejoin n h) = self_node h"
  "node_addresses (inject_heartbeat now rejoin n h) = node_addresses h"
  "m \<noteq> n \<Longrightarrow> map_of (last_heartbeat (inject_heartbeat now rejoin n h)) m = map_of (last_heartbeat h) m"
  "m \<noteq> n \<Longrightarrow> map_of (node_states (inject_heartbeat now rejoin n h)) m = map_of (node_states h) m"
  by (auto simp: inject_heartbeat_def handle_dead_rejoin_def Let_def transition_states split: option.splits)

lemma add_frame [simp]:
  "config (add_node_locked now p h) = config h"
  "self_node (add_node_locked now p h) = self_node h"
  "m \<noteq> fst p \<Longrightarrow> map_of (node_addresses (add_node_locked now p h)) m = map_of (node_addresses h) m"
  "m \<noteq> fst p \<Longrightarrow> map_of (last_heartbeat (add_node_locked now p h)) m = map_of (last_heartbeat h) m"
  "m \<noteq> fst p \<Longrightarrow> map_of (node_states (add_node_locked now p h)) m = map_of (node_states h) m"
  by (auto simp: add_node_locked_def Let_def case_prod_beta)

lemma step_frame [simp]: "config (health_step op h) = config h" "self_node (health_step op h) = self_node h"
  by (cases op; simp add: mark_leaving_def)+

lemma run_frame [simp]: "config (health_run ops h) = config h" "self_node (health_run ops h) = self_node h"
  unfolding health_run_def by (induction ops arbitrary: h) simp_all

section \<open>Safety\<close>

lemma judge_dead:
  "judge now h n s = Change DEAD \<Longrightarrow> s = SUSPECT \<and> map_of (node_addresses h) n = None \<and>
     (\<exists>hb. map_of (last_heartbeat h) n = Some hb \<and> uint (dead_timeout_ms (config h)) \<le> age_ms now hb)"
  "judge now h n s = Probe a \<Longrightarrow> s = SUSPECT \<and> map_of (node_addresses h) n = Some a \<and>
     (\<exists>hb. map_of (last_heartbeat h) n = Some hb \<and> uint (dead_timeout_ms (config h)) \<le> age_ms now hb)"
  by (auto simp: judge_def Let_def split: option.splits if_splits)

lemma check_dead:
  assumes "umap_ok (node_states h)" "get_state n (check_timeouts now probe h) = DEAD" "get_state n h \<noteq> DEAD"
  shows "get_state n h = SUSPECT"
    and "\<exists>hb. map_of (last_heartbeat h) n = Some hb \<and> uint (dead_timeout_ms (config h)) \<le> age_ms now hb"
    and "case map_of (node_addresses h) n of None \<Rightarrow> True | Some a \<Rightarrow> \<not> probe a"
proof -
  obtain s where s: "map_of (node_states h) n = Some s" "checked now probe h n s = DEAD" "s \<noteq> DEAD"
    using assms(2,3) by (auto simp: get_state_def check_states [OF assms(1)] split: option.splits)
  then have "judge now (counted now h) n s = Change DEAD \<or>
      (\<exists>a. judge now (counted now h) n s = Probe a \<and> \<not> probe a)"
    by (auto simp: checked_def split: verdict.splits if_splits)
  with judge_dead [of now "counted now h" n s] s(1)
  show "get_state n h = SUSPECT"
    "\<exists>hb. map_of (last_heartbeat h) n = Some hb \<and> uint (dead_timeout_ms (config h)) \<le> age_ms now hb"
    "case map_of (node_addresses h) n of None \<Rightarrow> True | Some a \<Rightarrow> \<not> probe a"
    by (auto simp: get_state_def)
qed


section \<open>Detection\<close>

lemma misses_mono: "get_consecutive_misses n h \<le> get_consecutive_misses n (count_miss now p h)"
  by (auto simp: count_miss_def get_consecutive_misses_def Let_def case_prod_beta split: option.splits)

lemma misses_mono_fold: "get_consecutive_misses n h \<le> get_consecutive_misses n (fold (count_miss now) ps h)"
  by (induction ps arbitrary: h) (auto intro: order_trans [OF misses_mono])

lemma misses_counted:
  assumes "\<not> exempt n s h" "map_of (last_heartbeat h) n = Some hb" "uint (check_interval (config h)) \<le> age_ms now hb"
  shows "(n, s) \<in> set ps \<Longrightarrow>
    word_of_int (age_ms now hb div uint (check_interval (config h))) \<le> get_consecutive_misses n (fold (count_miss now) ps h)"
  using assms
proof (induction ps arbitrary: h)
  case (Cons p ps)
  show ?case
  proof (cases "p = (n, s)")
    case True
    have "word_of_int (age_ms now hb div uint (check_interval (config h))) \<le> get_consecutive_misses n (count_miss now p h)"
      using Cons.prems True by (auto simp: count_miss_def get_consecutive_misses_def Let_def)
    also have "\<dots> \<le> get_consecutive_misses n (fold (count_miss now) ps (count_miss now p h))" by (rule misses_mono_fold)
    finally show ?thesis by simp
  next
    case False
    with Cons.prems have "(n, s) \<in> set ps" "\<not> exempt n s (count_miss now p h)" by (auto simp: exempt_def)
    with Cons.IH [of "count_miss now p h"] Cons.prems show ?thesis by simp
  qed
qed simp

lemma enough_misses:
  fixes c :: HealthConfig and age :: int
  assumes "0 < consecutive_misses_for_suspect c" "uint (suspect_timeout_ms c) \<le> age"
    "uint (consecutive_misses_for_suspect c) \<le> age" "age < 2 ^ 32"
  shows "uint (check_interval c) \<le> age"
    and "consecutive_misses_for_suspect c \<le> word_of_int (age div uint (check_interval c))"
proof -
  let ?k = "uint (consecutive_misses_for_suspect c)" and ?ci = "uint (check_interval c)"
  have k: "0 < ?k" using assms(1) by (simp add: word_less_def)
  have "check_interval c \<noteq> 0" by (simp add: check_interval_def Let_def)
  then have ci: "0 < ?ci" by (simp add: word_neq_0_conv word_less_def)
  have "?ci * ?k \<le> age"
  proof (cases "?ci \<le> uint (suspect_timeout_ms c div consecutive_misses_for_suspect c)")
    case True
    then have "?ci * ?k \<le> (uint (suspect_timeout_ms c) div ?k) * ?k"
      using k by (intro mult_right_mono) (auto simp: uint_div)
    also have "\<dots> \<le> uint (suspect_timeout_ms c)" using k by (simp add: minus_mod_eq_div_mult [symmetric])
    finally show ?thesis using assms(2) by linarith
  next
    case False
    then have "?ci = 1"
      using assms(1) by (auto simp: check_interval_def Let_def min_def word_le_def split: if_splits)
    then show ?thesis using assms(3) by simp
  qed
  moreover from this k ci have "?ci \<le> age" by (smt (verit) mult_le_cancel_left1)
  ultimately show "?ci \<le> age" by simp
  have "?k \<le> age div ?ci" using zdiv_mono1 [OF \<open>?ci * ?k \<le> age\<close> ci] ci by simp
  moreover have "age div ?ci \<le> age" using zdiv_mono2 [of age 1 ?ci] ci k assms(3) by simp
  ultimately show "consecutive_misses_for_suspect c \<le> word_of_int (age div ?ci)"
    using k assms(4) by (simp add: word_le_def uint_word_of_int)
qed

text \<open>A run without a word from node \<open>n\<close>.\<close>

fun quiet :: "NodeId \<Rightarrow> health_op \<Rightarrow> bool" where
  "quiet n (Heartbeat now rejoin m) = (m \<noteq> n)"
| "quiet n (Check now probe) = True"
| "quiet n (Leave m) = (m \<noteq> n)"
| "quiet n (AddPeer now p) = (fst p \<noteq> n)"

text \<open>What stays known of a silent node while its state only moves towards \<^const>\<open>DEAD\<close>.\<close>

definition silent :: "NodeId \<Rightarrow> int \<Rightarrow> string option \<Rightarrow> HealthConfig \<Rightarrow> NodeState set \<Rightarrow> HealthMonitor \<Rightarrow> bool" where
  "silent n hb addr cfg S h \<longleftrightarrow> health_ok h \<and> n \<noteq> self_node h \<and> config h = cfg \<and> map_of (last_heartbeat h) n = Some hb \<and>
     map_of (node_addresses h) n = addr \<and> (\<exists>s \<in> S. map_of (node_states h) n = Some s)"

lemma silentD:
  assumes "silent n hb addr cfg S h"
  shows "health_ok h" "umap_ok (node_states h)" "n \<noteq> self_node h" "config h = cfg"
    "map_of (last_heartbeat h) n = Some hb" "map_of (node_addresses h) n = addr"
    "\<exists>s \<in> S. map_of (node_states h) n = Some s"
  using assms by (auto simp: silent_def health_ok_def)

lemma silent_check:
  assumes h: "silent n hb addr cfg S h" and S: "\<And>s. \<lbrakk>s \<in> S; map_of (node_states h) n = Some s\<rbrakk> \<Longrightarrow> checked now probe h n s \<in> T"
  shows "silent n hb addr cfg T (check_timeouts now probe h)"
  using silentD [OF h] S by (auto simp: silent_def check_health_ok check_states)

lemma checked_moves:
  "checked now probe h n s = s \<or> s \<in> {JOINING, ACTIVE} \<and> checked now probe h n s = SUSPECT \<or>
   s = SUSPECT \<and> checked now probe h n s = DEAD"
  by (auto simp: checked_def judge_def exempt_def Let_def split: option.splits)

lemma silent_step:
  assumes h: "silent n hb addr cfg S h" and q: "quiet n op"
    and S: "S = {JOINING, ACTIVE, SUSPECT, DEAD} \<or> S = {SUSPECT, DEAD} \<or> S = {DEAD}"
  shows "silent n hb addr cfg S (health_step op h)"
proof (cases op)
  case (Check now probe)
  have "checked now probe h n s \<in> S" if "s \<in> S" for s
    using checked_moves [of now probe h n s] that S by auto
  then show ?thesis using Check silent_check [OF h] by simp
qed (use silentD [OF h] q in \<open>simp_all add: silent_def health_preserve mark_leaving_def transition_states
    leave_health_ok [unfolded mark_leaving_def]\<close>)

lemma silent_run:
  assumes "silent n hb addr cfg S h" "list_all (quiet n) ops"
    and "S = {JOINING, ACTIVE, SUSPECT, DEAD} \<or> S = {SUSPECT, DEAD} \<or> S = {DEAD}"
  shows "silent n hb addr cfg S (health_run ops h)"
  using assms unfolding health_run_def
proof (induction ops arbitrary: h)
  case (Cons op ops)
  have "silent n hb addr cfg S (health_step op h)" by (rule silent_step) (use Cons.prems in auto)
  with Cons show ?case by simp
qed simp

lemma check_suspects:
  assumes h: "silent n hb addr cfg {JOINING, ACTIVE, SUSPECT, DEAD} h"
    and age: "uint (suspect_timeout_ms cfg) \<le> age_ms now hb" "uint (consecutive_misses_for_suspect cfg) \<le> age_ms now hb"
      "age_ms now hb < 2 ^ 32"
  shows "silent n hb addr cfg {SUSPECT, DEAD} (check_timeouts now probe h)"
proof (rule silent_check [OF h])
  fix s assume s: "s \<in> {JOINING, ACTIVE, SUSPECT, DEAD}" and n: "map_of (node_states h) n = Some s"
  note D = silentD [OF h]
  have "consecutive_misses_for_suspect cfg \<le> get_consecutive_misses n (counted now h)" if "s \<noteq> DEAD"
  proof (cases "consecutive_misses_for_suspect cfg = 0")
    case False
    then have "0 < consecutive_misses_for_suspect cfg" by (simp add: word_neq_0_conv)
    note e = enough_misses [OF this age]
    have "\<not> exempt n s h" using s that D(3) by (auto simp: exempt_def)
    with misses_counted [of n s h hb now "node_states h"] D(4,5) e map_of_SomeD [OF n]
    show ?thesis by (auto simp: counted_def)
  qed simp
  with s D age(1) show "checked now probe h n s \<in> {SUSPECT, DEAD}"
    by (auto simp: checked_def judge_def exempt_def Let_def split: option.splits)
qed

lemma check_buries:
  assumes h: "silent n hb addr cfg {SUSPECT, DEAD} h"
    and age: "uint (dead_timeout_ms cfg) \<le> age_ms now hb" and probe: "\<And>a. addr = Some a \<Longrightarrow> \<not> probe a"
  shows "silent n hb addr cfg {DEAD} (check_timeouts now probe h)"
proof (rule silent_check [OF h])
  fix s assume s: "s \<in> {SUSPECT, DEAD}"
  show "checked now probe h n s \<in> {DEAD}"
    using s silentD [OF h] age probe
    by (auto simp: checked_def judge_def exempt_def Let_def split: option.splits)
qed



section \<open>Recovery\<close>

lemma heartbeat_state:
  "map_of (node_states (inject_heartbeat now rejoin n h)) n =
     Some (case map_of (node_states h) n of
         None \<Rightarrow> ACTIVE
       | Some DEAD \<Rightarrow> if enable_dead_rejoin (config h)
                     then if (case rejoin of None \<Rightarrow> True | Some f \<Rightarrow> f n) then ACTIVE else REJOINING
                     else DEAD
       | Some LEAVING \<Rightarrow> LEAVING
       | Some REJOINING \<Rightarrow> REJOINING
       | Some _ \<Rightarrow> ACTIVE)"
  by (simp add: inject_heartbeat_def handle_dead_rejoin_def Let_def transition_states
      split: option.splits NodeState.splits)

lemma rejoining_step:
  assumes "health_ok h" "map_of (node_states h) n = Some REJOINING" "op \<noteq> Leave n"
  shows "map_of (node_states (health_step op h)) n = Some REJOINING"
proof (cases op)
  case (Heartbeat now rejoin m)
  with assms show ?thesis by (cases "m = n") (simp_all add: heartbeat_state)
next
  case (Check now probe)
  have "umap_ok (node_states h)" using assms(1) by (simp add: health_ok_def)
  with Check assms(2) checked_moves [of now probe h n REJOINING] show ?thesis by (simp add: check_states)
next
  case (Leave m)
  with assms show ?thesis by (auto simp: mark_leaving_def transition_states)
next
  case (AddPeer now p)
  with assms(2) show ?thesis by (auto simp: add_node_locked_def Let_def case_prod_beta)
qed

lemma rejoining_run:
  assumes "health_ok h" "map_of (node_states h) n = Some REJOINING" "list_all (\<lambda>op. op \<noteq> Leave n) ops"
  shows "map_of (node_states (health_run ops h)) n = Some REJOINING"
  using assms unfolding health_run_def
  by (induction ops arbitrary: h) (simp_all add: rejoining_step step_health_ok)

text \<open>
  C38. A dead node that is heard of again is active at once if its data are synchronised. If the synchronisation
  fails the node is left in the rejoining state, and no later heartbeat, check or peer entry changes that, whether
  or not a synchronisation would now succeed: only an explicit departure does.
\<close>

theorem dead_node_rejoin:
  assumes "h = health_run ops (health_start t0 self peers (health_new cfg))" "get_state n h = DEAD"
    and "enable_dead_rejoin cfg" "list_all (\<lambda>op. op \<noteq> Leave n) later"
  shows "(f n \<longrightarrow> get_state n (inject_heartbeat now (Some f) n h) = ACTIVE) \<and>
    (\<not> f n \<longrightarrow> get_state n (health_run later (inject_heartbeat now (Some f) n h)) = REJOINING)"
proof -
  have ok: "health_ok h" "config h = cfg"
    unfolding assms(1) by (simp_all add: run_health_ok start_health_ok)
  have "map_of (node_states h) n = Some DEAD" using assms(2) by (simp add: get_state_def split: option.splits)
  with ok assms(3) have "map_of (node_states (inject_heartbeat now (Some f) n h)) n = Some (if f n then ACTIVE else REJOINING)"
    by (simp add: heartbeat_state)
  with rejoining_run [OF heartbeat_health_ok [OF ok(1)] _ assms(4), of now "Some f" n] show ?thesis
    by (simp add: get_state_def)
qed

theorem dead_node_rejoin_witness:
  "let h = health_run [Heartbeat 0 None 2, Check 3000000000 (\<lambda>_. False), Check 10000000000 (\<lambda>_. False)]
             (health_start 0 1 [(2, ''b'')] (health_new health_defaults));
       h' = inject_heartbeat 11000000000 (Some (\<lambda>n. n = 3)) 2 h
   in get_state 2 h = DEAD \<and>
      get_state 2 (health_run [Heartbeat 12000000000 None 2, Check 60000000000 (\<lambda>_. False)] h') = REJOINING"
proof -
  have "get_state 2 (health_run [Heartbeat 0 None 2, Check 3000000000 (\<lambda>_. False), Check 10000000000 (\<lambda>_. False)]
             (health_start 0 1 [(2, ''b'')] (health_new health_defaults))) = DEAD"
    by code_simp
  from dead_node_rejoin [OF refl this, of "[Heartbeat 12000000000 None 2, Check 60000000000 (\<lambda>_. False)]"
      "\<lambda>n. n = 3" 11000000000] this
  show ?thesis by (simp add: Let_def health_defaults_def)
qed

text \<open>
  The verdicts of a check are applied after the lock was released, without a second look: a heartbeat that arrives
  in between is answered by \<^const>\<open>ACTIVE\<close> and then by \<^const>\<open>DEAD\<close>, a transition the protocol does not have.
\<close>

lemma late_verdict:
  assumes "umap_ok (node_states h)" "map_of (node_states h) n = Some SUSPECT" "n \<noteq> self_node h"
    and "map_of (last_heartbeat h) n = Some hb" "uint (dead_timeout_ms (config h)) \<le> age_ms now hb"
    and "map_of (node_addresses h) n = Some a" "\<not> probe a"
    and c: "check_collect now h = (changes, targets, h1)" and h2: "h2 = inject_heartbeat t rejoin n h1"
  shows "get_state n h2 = ACTIVE \<and> get_state n (check_apply probe changes targets h2) = DEAD"
proof -
  have h1: "h1 = counted now h" using c by (simp add: check_collect_def counted_def Let_def)
  have cc: "check_changes now probe h = changes @ map (\<lambda>(n, a). (n, DEAD)) (filter (\<lambda>(n, a). \<not> probe a) targets)"
    using c by (simp add: check_changes_def)
  have "map_of (node_states h2) n = Some ACTIVE" using assms(2) by (simp add: h1 h2 heartbeat_state)
  moreover have "judge now (counted now h) n SUSPECT = Probe a"
    using assms(3-6) by (simp add: judge_def exempt_def Let_def)
  then have "(n, DEAD) \<in> set (check_changes now probe h)"
    using assms(7) map_of_SomeD [OF assms(2)] unfolding in_check_changes by blast
  then have "map_of (check_changes now probe h) n = Some DEAD"
    by (simp add: distinct_check_changes [OF assms(1)])
  ultimately show ?thesis
    using transitions_states [OF distinct_check_changes [OF assms(1)], of now probe h2 n]
    by (simp add: get_state_def check_apply_def Let_def cc)
qed

end
