(* ===== verification/Spec2Isabelle.thy ===== *)
theory Spec2Isabelle
  imports Flat_Hash_Map Vector_Engine Join_Operator Window_Function Ring_Buffer Partition_Router Rpc_Protocol Sql_Query Health_Monitor
begin

text \<open>ZeptoDB.\<close>

end
